(* ===== verification/Prelude.thy ===== *)
theory Prelude
  imports Main "HOL-Library.Word"
begin

text \<open>
  Shared vocabulary of the development: the C integer types of \<^verbatim>\<open>kernel/types.h\<close>,
  results of kernel routines (a value, or the panic that stopped them), byte-addressed
  physical memory with little-endian word access, the page arithmetic of
  \<^verbatim>\<open>kernel/riscv.h\<close>, and the lemmas on words, memory and lists that the component
  theories share.
\<close>

unbundle bit_operations_syntax

section \<open>Integer types (kernel/types.h)\<close>

type_synonym uchar = "8 word"
type_synonym ushort = "16 word"
type_synonym uint = "32 word"
type_synonym uint64 = "64 word"

lemma unat_lt8: "unat (x :: uchar) < 256"
  and unat_lt16: "unat (w :: ushort) < 65536"
  and unat_lt32: "unat (y :: uint) < 2 ^ 32"
  and unat_lt64: "unat (z :: uint64) < 2 ^ 64"
  by (rule less_le_trans, rule unsigned_less, simp)+

section \<open>Results\<close>

text \<open>
  A routine either returns or stops the calling kernel thread: \<open>Panic msg\<close> is a call of
  \<^verbatim>\<open>panic(msg)\<close>, \<open>Sleeping\<close> is a call of \<^verbatim>\<open>sleep()\<close> that gives up the CPU
  (the sequential definitions stop there), \<open>OutOfFuel\<close> is returned by a model of a
  pointer-chasing loop whose bound was used up, and \<open>Undefined\<close> is an access outside an array,
  which C leaves undefined.
\<close>

datatype kerr = Panic string | Sleeping | OutOfFuel | Undefined

type_synonym 'a res = "kerr + 'a"

fun bindE :: "'a res \<Rightarrow> ('a \<Rightarrow> 'b res) \<Rightarrow> 'b res" where
  "bindE (Inl e) f = Inl e"
| "bindE (Inr x) f = f x"

lemma bindE_cong [fundef_cong]:
  assumes "m = m'" and "\<And>x. m' = Inr x \<Longrightarrow> f x = f' x"
  shows "bindE m f = bindE m' f'"
  using assms by (cases m') auto

lemma bindE_eq_Inr [simp]: "bindE m f = Inr y \<longleftrightarrow> (\<exists>x. m = Inr x \<and> f x = Inr y)"
  by (cases m) auto

lemma bindE_eq_Inl: "bindE m f = Inl e \<longleftrightarrow> m = Inl e \<or> (\<exists>x. m = Inr x \<and> f x = Inl e)"
  by (cases m) auto

lemma bindE_assoc: "bindE (bindE m f) g = bindE m (\<lambda>x. bindE (f x) g)"
  by (cases m) auto

text \<open>A loop over a list of indices, left at the first error.\<close>

primrec foldE :: "('a \<Rightarrow> 's \<Rightarrow> 's res) \<Rightarrow> 'a list \<Rightarrow> 's \<Rightarrow> 's res" where
  "foldE f [] s = Inr s"
| "foldE f (x # xs) s = bindE (f x s) (foldE f xs)"

lemma foldE_cong [fundef_cong]:
  "xs = ys \<Longrightarrow> s = t \<Longrightarrow> (\<And>x s. x \<in> set ys \<Longrightarrow> f x s = g x s) \<Longrightarrow> foldE f xs s = foldE g ys t"
proof (induction xs arbitrary: ys s t)
  case (Cons x xs)
  then show ?case by (cases "g x t") auto
qed simp

lemma foldE_append: "foldE f (xs @ ys) s = bindE (foldE f xs s) (foldE f ys)"
  by (induction xs arbitrary: s) (simp_all add: bindE_assoc cong: bindE_cong)

lemma foldE_Inr: "(\<And>x s. x \<in> set xs \<Longrightarrow> f x s = Inr (g x s)) \<Longrightarrow> foldE f xs s = Inr (fold g xs s)"
  by (induction xs arbitrary: s) simp_all

text \<open>A loop keeps what each of its rounds keeps.\<close>

lemma foldE_inv:
  assumes "foldE f xs s = Inr s'" and "P s" and "\<And>x s t. x \<in> set xs \<Longrightarrow> P s \<Longrightarrow> f x s = Inr t \<Longrightarrow> P t"
  shows "P s'"
  using assms
proof (induction xs arbitrary: s)
  case (Cons x xs)
  then obtain t where "f x s = Inr t" "foldE f xs t = Inr s'" by auto
  then show ?case using Cons.IH[of t] Cons.prems by auto
qed simp

section \<open>Physical memory\<close>

type_synonym mem = "uint64 \<Rightarrow> uchar"

text \<open>Little-endian access to the \<open>n\<close> bytes at address \<open>a\<close>.\<close>

fun load_le :: "mem \<Rightarrow> uint64 \<Rightarrow> nat \<Rightarrow> 'a::len word" where
  "load_le m a 0 = 0"
| "load_le m a (Suc n) = ucast (m a) OR push_bit 8 (load_le m (a + 1) n)"

fun store_le :: "mem \<Rightarrow> uint64 \<Rightarrow> nat \<Rightarrow> 'a::len word \<Rightarrow> mem" where
  "store_le m a 0 v = m"
| "store_le m a (Suc n) v = (store_le m (a + 1) n (drop_bit 8 v))(a := ucast v)"

definition load64 :: "mem \<Rightarrow> uint64 \<Rightarrow> uint64" where
  "load64 m a = load_le m a 8"

definition store64 :: "mem \<Rightarrow> uint64 \<Rightarrow> uint64 \<Rightarrow> mem" where
  "store64 m a v = store_le m a 8 v"

text \<open>The bytes \<open>[a, a + n)\<close>, for ranges that wrap around the address space too.\<close>

definition rng :: "uint64 \<Rightarrow> nat \<Rightarrow> uint64 set" where
  "rng a n = {x. unat (x - a) < n}"

lemma rng_0 [simp]: "rng a 0 = {}"
  by (simp add: rng_def)

lemma in_rng_self [simp]: "a \<in> rng a n \<longleftrightarrow> 0 < n"
  by (simp add: rng_def)

lemma unat_step: "(x::uint64) \<noteq> a \<Longrightarrow> unat (x - a) = Suc (unat (x - (a + 1)))"
proof -
  assume "x \<noteq> a"
  then have ne: "x - a \<noteq> 0" by simp
  have "unat (x - (a + 1)) = unat (x - a) - 1"
    using unat_minus_one[OF ne] by (simp only: diff_diff_eq)
  moreover have "0 < unat (x - a)" using ne by (simp add: unat_gt_0)
  ultimately show ?thesis by simp
qed

lemma rng_Suc: "n < 2 ^ 64 \<Longrightarrow> rng a (Suc n) = insert a (rng (a + 1) n)"
proof (rule set_eqI)
  fix x assume "n < 2 ^ 64"
  show "x \<in> rng a (Suc n) \<longleftrightarrow> x \<in> insert a (rng (a + 1) n)"
    by (cases "x = a") (simp_all add: rng_def unat_step)
qed

lemma in_rng_next: "x \<in> rng (a + 1) n \<Longrightarrow> n < 2 ^ 64 \<Longrightarrow> x \<noteq> a"
proof
  assume x: "x \<in> rng (a + 1) n" "n < 2 ^ 64" "x = a"
  have "unat (0 - 1 :: uint64) = 2 ^ 64 - 1" by (simp only: unat_sub_if') simp
  moreover have "a - (a + 1) = 0 - 1" by simp
  ultimately have "unat (a - (a + 1)) = 2 ^ 64 - 1" by (simp only:)
  then show False using x by (simp only: rng_def mem_Collect_eq)
qed

lemma byte_split:
  "ucast (ucast v :: uchar) OR push_bit 8 (take_bit n (drop_bit 8 v)) = take_bit (8 + n) (v :: 'a::len word)"
  by (rule bit_word_eqI)
    (auto simp: bit_or_iff bit_push_bit_iff bit_take_bit_iff bit_drop_bit_eq bit_ucast_iff
      simp del: push_bit_numeral dest: bit_imp_le_length)

lemma store_le_outside: "x \<notin> rng a n \<Longrightarrow> n < 2 ^ 64 \<Longrightarrow> store_le m a n v x = m x"
  by (induction n arbitrary: a v) (auto simp: rng_Suc)

lemma load_le_cong: "(\<And>x. x \<in> rng a n \<Longrightarrow> m x = m' x) \<Longrightarrow> n < 2 ^ 64 \<Longrightarrow> load_le m a n = load_le m' a n"
proof (induction n arbitrary: a)
  case 0
  then show ?case by simp
next
  case (Suc n)
  have "load_le m (a + 1) n = (load_le m' (a + 1) n :: 'a word)"
    using Suc.prems by (intro Suc.IH) (auto simp: rng_Suc)
  then show ?case using Suc.prems by (simp add: rng_Suc)
qed

lemma load_le_store_le: "n < 2 ^ 64 \<Longrightarrow> load_le (store_le m a n v) a n = take_bit (8 * n) v"
proof (induction n arbitrary: a v)
  case 0
  then show ?case by simp
next
  case (Suc n)
  have "load_le (store_le m a (Suc n) v) (a + 1) n = load_le (store_le m (a + 1) n (drop_bit 8 v)) (a + 1) n"
    using Suc.prems by (intro load_le_cong) (auto dest: in_rng_next)
  also have "\<dots> = take_bit (8 * n) (drop_bit 8 v)"
    using Suc by simp
  finally show ?case by (simp add: byte_split del: store_le.simps) (simp add: byte_split)
qed

lemma load64_store64_same [simp]: "load64 (store64 m a v) a = v"
  by (simp add: load64_def store64_def load_le_store_le take_bit_word_eq_self del: load_le.simps store_le.simps)

lemma load64_cong: "(\<And>x. x \<in> rng a 8 \<Longrightarrow> m x = m' x) \<Longrightarrow> load64 m a = load64 m' a"
  unfolding load64_def by (rule load_le_cong) auto

lemma store64_outside [simp]: "x \<notin> rng a 8 \<Longrightarrow> store64 m a v x = m x"
  unfolding store64_def by (rule store_le_outside) auto

lemma load64_store64_other: "rng a 8 \<inter> rng b 8 = {} \<Longrightarrow> load64 (store64 m a v) b = load64 m b"
  by (rule load64_cong) (auto intro: store64_outside)

lemma unat_of_nat_small: "n < 2 ^ LENGTH('a) \<Longrightarrow> unat (of_nat n :: 'a::len word) = n"
  by (simp add: unsigned_of_nat take_bit_nat_eq_self)

section \<open>Page arithmetic (kernel/riscv.h)\<close>

abbreviation PGSIZE :: uint64 where "PGSIZE \<equiv> 4096"

definition PGROUNDUP :: "uint64 \<Rightarrow> uint64" where
  "PGROUNDUP sz = (sz + PGSIZE - 1) AND NOT (PGSIZE - 1)"

definition PGROUNDDOWN :: "uint64 \<Rightarrow> uint64" where
  "PGROUNDDOWN a = a AND NOT (PGSIZE - 1)"

definition aligned :: "uint64 \<Rightarrow> bool" where
  "aligned a \<longleftrightarrow> a mod PGSIZE = 0"

lemma and_not_mask: "a AND NOT (mask n) = push_bit n (drop_bit n (a::'a::len word))"
  by (rule bit_word_eqI) (auto simp: bit_and_iff bit_not_iff bit_mask_iff bit_push_bit_iff bit_drop_bit_eq)

lemma unat_push_drop: "unat (push_bit n (drop_bit n (a::'a::len word))) = unat a div 2 ^ n * 2 ^ n"
proof -
  have "unat (push_bit n (drop_bit n a)) = take_bit LENGTH('a) (push_bit n (unat (drop_bit n a)))"
    by (rule unsigned_push_bit_eq)
  also have "unat (drop_bit n a) = unat a div 2 ^ n"
    by (subst unat_drop_bit_eq) (rule drop_bit_eq_div)
  also have "take_bit LENGTH('a) (push_bit n (unat a div 2 ^ n)) = take_bit LENGTH('a) (unat a div 2 ^ n * 2 ^ n)"
    by (simp add: push_bit_eq_mult)
  also have "\<dots> = unat a div 2 ^ n * 2 ^ n"
    by (rule take_bit_nat_eq_self) (meson le_less_trans div_times_less_eq_dividend unsigned_less)
  finally show ?thesis .
qed

lemma pgmask: "(PGSIZE - 1 :: uint64) = mask 12"
  by (simp add: mask_eq_exp_minus_1)

lemma unat_PGROUNDDOWN: "unat (PGROUNDDOWN a) = unat a div 4096 * 4096"
  unfolding PGROUNDDOWN_def pgmask and_not_mask unat_push_drop by simp

lemma PGROUNDUP_eq: "PGROUNDUP sz = PGROUNDDOWN (sz + 4095)"
  by (simp add: PGROUNDUP_def PGROUNDDOWN_def add.commute)

lemma unat_PGROUNDUP: "unat sz + 4095 < 2 ^ 64 \<Longrightarrow> unat (PGROUNDUP sz) = (unat sz + 4095) div 4096 * 4096"
  by (simp add: PGROUNDUP_eq unat_PGROUNDDOWN unat_plus_if')

lemma aligned_unat: "aligned a \<longleftrightarrow> unat a mod 4096 = 0"
  by (simp add: aligned_def word_unat_eq_iff unat_mod)

lemma alignedE: "aligned a \<Longrightarrow> (\<And>k. unat a = 4096 * k \<Longrightarrow> P) \<Longrightarrow> P"
  by (auto simp: aligned_unat elim: dvdE)

lemma aligned_PGROUNDDOWN [simp]: "aligned (PGROUNDDOWN a)"
  by (simp add: aligned_unat unat_PGROUNDDOWN)

lemma aligned_PGROUNDUP [simp]: "aligned (PGROUNDUP a)"
  by (simp add: PGROUNDUP_eq)

lemma PGROUNDDOWN_le: "PGROUNDDOWN a \<le> a"
  by (simp add: word_le_nat_alt unat_PGROUNDDOWN)

lemma PGROUNDDOWN_aligned [simp]: "aligned a \<Longrightarrow> PGROUNDDOWN a = a"
  by (auto simp: word_unat_eq_iff unat_PGROUNDDOWN aligned_unat)

lemma PGROUNDUP_aligned: "aligned a \<Longrightarrow> PGROUNDUP a = a"
proof -
  assume a: "aligned a"
  then obtain k where k: "unat a = 4096 * k" by (rule alignedE)
  moreover have "unat a < 2 ^ 64" by (rule unat_lt64)
  ultimately have "unat a + 4095 < 2 ^ 64" by simp
  then have "unat (PGROUNDUP a) = unat a" using k by (simp add: unat_PGROUNDUP)
  then show ?thesis by (simp add: word_unat_eq_iff)
qed

lemma page_offset: "unat (a - PGROUNDDOWN a) = unat a mod 4096"
  by (simp add: unat_sub PGROUNDDOWN_le unat_PGROUNDDOWN minus_div_mult_eq_mod)

lemma aligned_add: "aligned a \<Longrightarrow> aligned b \<Longrightarrow> aligned (a + b)"
proof -
  assume "aligned a" "aligned b"
  then have "4096 dvd unat a + unat b" by (auto simp: aligned_unat)
  moreover have "(4096::nat) dvd 2 ^ 64" by simp
  ultimately have "(unat a + unat b) mod 2 ^ 64 mod 4096 = 0"
    by (metis mod_mod_cancel mod_0_imp_dvd dvd_imp_mod_0)
  then show ?thesis by (simp add: aligned_unat unat_word_ariths(1))
qed

lemma aligned_diff: "aligned a \<Longrightarrow> aligned b \<Longrightarrow> aligned (a - b)"
proof -
  assume "aligned a" "aligned b"
  then obtain j k where "unat a = 4096 * j" "unat b = 4096 * k" by (meson alignedE)
  then have "unat (a - b) = 4096 * (j - k) \<or> unat (a - b) = 4096 * (2 ^ 52 + j - k)"
    using unat_lt64[of b] by (auto simp: unat_sub_if')
  then show ?thesis by (auto simp: aligned_unat)
qed

lemma aligned_PGSIZE [simp]: "aligned 4096" "aligned 0"
  by (simp_all add: aligned_def)

text \<open>A page is the 4096 bytes from an aligned address; pages do not overlap.\<close>

lemma page_unat:
  assumes "aligned p" and "x \<in> rng p 4096"
  shows "unat x = unat p + unat (x - p)" and "PGROUNDDOWN x = p"
proof -
  obtain k where k: "unat p = 4096 * k" using assms(1) by (rule alignedE)
  have "unat p < 2 ^ 64" by (rule unat_lt64)
  then have "unat p + unat (x - p) < 2 ^ 64" using k assms(2) by (simp add: rng_def)
  then show u: "unat x = unat p + unat (x - p)"
    using unat_plus_if'[of p "x - p"] by simp
  then show "PGROUNDDOWN x = p"
    using k assms(2) by (simp add: word_unat_eq_iff unat_PGROUNDDOWN rng_def)
qed

lemma page_disjoint: "aligned p \<Longrightarrow> aligned q \<Longrightarrow> p \<noteq> q \<Longrightarrow> rng p 4096 \<inter> rng q 4096 = {}"
  using page_unat(2) by blast

text \<open>The \<open>k\<close>-th 8-byte slot of a page: an entry of a page table.\<close>

lemma unat_slot: "k < 512 \<Longrightarrow> unat (8 * of_nat k :: uint64) = 8 * k"
  using unat_of_nat_small[of "8 * k", where 'a = 64] by simp

lemma slot_offset:
  assumes "x \<in> rng (p + 8 * of_nat k) 8" and "k < 512"
  shows "unat (x - p) div 8 = k" and "unat (x - p) < 4096"
proof -
  have b: "unat (x - (p + 8 * of_nat k)) < 8" using assms(1) by (simp add: rng_def)
  have "unat ((x - (p + 8 * of_nat k)) + 8 * of_nat k) = unat (x - (p + 8 * of_nat k)) + 8 * k"
    using b assms(2) by (subst unat_plus_if') (simp add: unat_slot)
  moreover have "(x - (p + 8 * of_nat k)) + 8 * of_nat k = x - p" by (simp add: algebra_simps)
  ultimately have "unat (x - p) = unat (x - (p + 8 * of_nat k)) + 8 * k" by (simp only:)
  then show "unat (x - p) div 8 = k" and "unat (x - p) < 4096"
    using b assms(2) by linarith+
qed

lemma slot_in_page: "k < 512 \<Longrightarrow> rng (p + 8 * of_nat k) 8 \<subseteq> rng p 4096"
  using slot_offset(2) by (auto simp: rng_def)

lemma slot_disjoint:
  "i < 512 \<Longrightarrow> j < 512 \<Longrightarrow> i \<noteq> j \<Longrightarrow> rng (p + 8 * of_nat i) 8 \<inter> rng (p + 8 * of_nat j) 8 = {}"
  using slot_offset(1) by blast

section \<open>Signed 32-bit integers\<close>

lemma sint_small: "uint w < 2 ^ 31 \<Longrightarrow> sint (w :: uint) = uint w"
proof -
  assume "uint w < 2 ^ 31"
  moreover have "0 \<le> uint w" by simp
  ultimately have "- (2 ^ 31) \<le> uint w \<and> uint w < 2 ^ 31" by linarith
  then show ?thesis by (simp add: sint_uint signed_take_bit_int_eq_self_iff)
qed

lemma scast_ucast_small: "unat x < 2 ^ 31 \<Longrightarrow> scast (ucast (x :: uint64) :: uint) = x"
proof -
  assume x: "unat x < 2 ^ 31"
  have "unat (ucast x :: uint) = take_bit 32 (unat x)" unfolding unsigned_ucast_eq by simp
  also have "\<dots> = unat x" using x by (intro take_bit_nat_eq_self) simp
  finally have u: "uint (ucast x :: uint) = uint x" by (simp only: uint_nat)
  moreover have "int (unat x) < int (2 ^ 31)" using x by (simp only: of_nat_less_iff)
  then have "uint x < 2 ^ 31" by (simp only: uint_nat of_nat_power of_nat_numeral)
  ultimately have "sint (ucast x :: uint) = uint x" using sint_small[of "ucast x"] by argo
  then show ?thesis unfolding scast_eq by simp
qed

end
