(* ===== verification/Block.thy ===== *)
theory Block
  imports Prelude
begin

text \<open>
  Disk blocks as bytes at offsets, and the little-endian integers the kernel keeps in them (the
  fields of \<^verbatim>\<open>struct dinode\<close>, \<^verbatim>\<open>struct dirent\<close>, \<^verbatim>\<open>struct logheader\<close> and \<^verbatim>\<open>struct superblock\<close>).
\<close>

type_synonym block = "nat \<Rightarrow> uchar"

fun nget :: "nat \<Rightarrow> block \<Rightarrow> nat \<Rightarrow> nat" where
  "nget 0 b a = 0"
| "nget (Suc n) b a = unat (b a) + 256 * nget n b (Suc a)"

fun nput :: "nat \<Rightarrow> block \<Rightarrow> nat \<Rightarrow> nat \<Rightarrow> block" where
  "nput 0 b a v = b"
| "nput (Suc n) b a v = (nput n b (Suc a) (v div 256))(a := of_nat (v mod 256))"

lemma nput_outside [simp]: "x < a \<or> a + n \<le> x \<Longrightarrow> nput n b a v x = b x"
  by (induction n arbitrary: a v) auto

lemma nget_cong: "(\<And>x. a \<le> x \<Longrightarrow> x < a + n \<Longrightarrow> b x = b' x) \<Longrightarrow> nget n b a = nget n b' a"
proof (induction n arbitrary: a)
  case (Suc n)
  have "nget n b (Suc a) = nget n b' (Suc a)" by (rule Suc.IH) (simp add: Suc.prems)
  moreover have "b a = b' a" using Suc.prems by simp
  ultimately show ?case by simp
qed simp

lemma nget_nput [simp]: "nget n (nput n b a v) a = v mod 256 ^ n"
proof (induction n arbitrary: a v)
  case 0
  show ?case by simp
next
  case (Suc n)
  have "nget n (nput (Suc n) b a v) (Suc a) = nget n (nput n b (Suc a) (v div 256)) (Suc a)"
    by (rule nget_cong) simp
  also have "\<dots> = (v div 256) mod 256 ^ n" by (rule Suc.IH)
  finally have "nget (Suc n) (nput (Suc n) b a v) a = unat (of_nat (v mod 256) :: uchar) + 256 * (v div 256 mod 256 ^ n)" by simp
  also have "unat (of_nat (v mod 256) :: uchar) = v mod 256" by (rule unat_of_nat_small) simp
  also have "v mod 256 + 256 * (v div 256 mod 256 ^ n) = v mod 256 ^ Suc n"
    by (simp add: mod_mult2_eq add.commute)
  finally show ?case .
qed

lemma nget_nput_other [simp]: "a + n \<le> c \<or> c + m \<le> a \<Longrightarrow> nget m (nput n b a v) c = nget m b c"
  by (rule nget_cong) auto

lemma nget_less: "nget n b a < 256 ^ n"
proof (induction n arbitrary: a)
  case (Suc n)
  have "unat (b a) < 256" using unat_lt8[of "b a"] by simp
  then show ?case using Suc.IH[of "Suc a"] by (simp add: add.commute less_eq_Suc_le[symmetric])
qed simp

definition get16 :: "block \<Rightarrow> nat \<Rightarrow> ushort" where "get16 b a = of_nat (nget 2 b a)"

definition put16 :: "block \<Rightarrow> nat \<Rightarrow> ushort \<Rightarrow> block" where "put16 b a v = nput 2 b a (unat v)"

definition get32 :: "block \<Rightarrow> nat \<Rightarrow> uint" where "get32 b a = of_nat (nget 4 b a)"

definition put32 :: "block \<Rightarrow> nat \<Rightarrow> uint \<Rightarrow> block" where "put32 b a v = nput 4 b a (unat v)"

lemma get32_put32 [simp]: "get32 (put32 b a v) a = v"
  using unat_lt32[of v] by (simp add: get32_def put32_def)

lemma get16_put16 [simp]: "get16 (put16 b a v) a = v"
  using unat_lt16[of v] by (simp add: get16_def put16_def)

lemma get_put_other [simp]:
  "a + 4 \<le> c \<or> c + 4 \<le> a \<Longrightarrow> get32 (put32 b a v) c = get32 b c"
  "a + 4 \<le> c \<or> c + 2 \<le> a \<Longrightarrow> get16 (put32 b a v) c = get16 b c"
  "a + 2 \<le> c \<or> c + 4 \<le> a \<Longrightarrow> get32 (put16 b a w) c = get32 b c"
  "a + 2 \<le> c \<or> c + 2 \<le> a \<Longrightarrow> get16 (put16 b a w) c = get16 b c"
  by (simp_all add: get16_def put16_def get32_def put32_def)

lemma put_outside [simp]:
  "x < a \<or> a + 4 \<le> x \<Longrightarrow> put32 b a v x = b x"
  "x < a \<or> a + 2 \<le> x \<Longrightarrow> put16 b a w x = b x"
  by (simp_all add: put16_def put32_def)

lemma get32_cong: "(\<And>x. a \<le> x \<Longrightarrow> x < a + 4 \<Longrightarrow> b x = b' x) \<Longrightarrow> get32 b a = get32 b' a"
  unfolding get32_def by (metis nget_cong)

lemma get16_cong: "(\<And>x. a \<le> x \<Longrightarrow> x < a + 2 \<Longrightarrow> b x = b' x) \<Longrightarrow> get16 b a = get16 b' a"
  unfolding get16_def by (metis nget_cong)

end
