(* ===== verification/Bio.thy ===== *)
theory Bio
  imports Block
begin

text \<open>
  \<^verbatim>\<open>kernel/bio.c\<close>: the cache of disk blocks. The buffers are the nodes \<open>0 .. NBUF - 1\<close> of a
  doubly linked list through \<open>bnext\<close> and \<open>bprev\<close> whose head is the node \<open>NBUF\<close>; the list is
  kept in order of use. A buffer's sleep lock is the process that holds it. \<open>disk\<close> is what the
  device stores; \<open>writes\<close> is a history variable, the block writes so far in order. Each
  function runs its spinlock critical sections atomically; waiting for a sleep lock that
  another process holds is the result \<open>Sleeping\<close>.
\<close>

section \<open>State and operations\<close>

abbreviation NBUF :: nat where "NBUF \<equiv> 30"

record buf =
  valid :: bool
  dev :: uint
  blockno :: uint
  holder :: "nat option"
  refcnt :: uint
  data :: block

record bio =
  bufs :: "nat \<Rightarrow> buf"
  bnext :: "nat \<Rightarrow> nat"
  bprev :: "nat \<Rightarrow> nat"
  disk :: "uint \<Rightarrow> block"
  writes :: "(uint \<times> block) list"
  pid :: nat

definition set_buf :: "nat \<Rightarrow> (buf \<Rightarrow> buf) \<Rightarrow> 'a bio_scheme \<Rightarrow> 'a bio_scheme" where
  "set_buf b f s = s\<lparr>bufs := (bufs s)(b := f (bufs s b))\<rparr>"

fun binit_loop :: "nat list \<Rightarrow> 'a bio_scheme \<Rightarrow> 'a bio_scheme" where
  "binit_loop [] s = s"
| "binit_loop (b # bs) s =
     (let s = s\<lparr>bnext := (bnext s)(b := bnext s NBUF), bprev := (bprev s)(b := NBUF)\<rparr>;
          s = set_buf b (holder_update (\<lambda>_. None)) s;
          s = s\<lparr>bprev := (bprev s)(bnext s NBUF := b)\<rparr>;
          s = s\<lparr>bnext := (bnext s)(NBUF := b)\<rparr>
      in binit_loop bs s)"

definition binit :: "'a bio_scheme \<Rightarrow> 'a bio_scheme" where
  "binit s = binit_loop [0..<NBUF] (s\<lparr>bprev := (bprev s)(NBUF := NBUF), bnext := (bnext s)(NBUF := NBUF)\<rparr>)"

text \<open>The two loops of \<^verbatim>\<open>bget\<close>; \<open>NBUF + 1\<close> rounds reach the head of the list again.\<close>

fun bget_cached :: "nat \<Rightarrow> uint \<Rightarrow> uint \<Rightarrow> nat \<Rightarrow> 'a bio_scheme \<Rightarrow> nat option res" where
  "bget_cached 0 d n b s = Inl OutOfFuel"
| "bget_cached (Suc fuel) d n b s =
     (if b = NBUF then Inr None
      else if dev (bufs s b) = d \<and> blockno (bufs s b) = n then Inr (Some b)
      else bget_cached fuel d n (bnext s b) s)"

fun bget_unused :: "nat \<Rightarrow> nat \<Rightarrow> 'a bio_scheme \<Rightarrow> nat option res" where
  "bget_unused 0 b s = Inl OutOfFuel"
| "bget_unused (Suc fuel) b s =
     (if b = NBUF then Inr None
      else if refcnt (bufs s b) = 0 then Inr (Some b)
      else bget_unused fuel (bprev s b) s)"

definition acquiresleep :: "nat \<Rightarrow> 'a bio_scheme \<Rightarrow> 'a bio_scheme res" where
  "acquiresleep b s =
     (if holder (bufs s b) \<noteq> None then Inl Sleeping
      else Inr (set_buf b (holder_update (\<lambda>_. Some (pid s))) s))"

definition releasesleep :: "nat \<Rightarrow> 'a bio_scheme \<Rightarrow> 'a bio_scheme" where
  "releasesleep b s = set_buf b (holder_update (\<lambda>_. None)) s"

definition holdingsleep :: "nat \<Rightarrow> 'a bio_scheme \<Rightarrow> bool" where
  "holdingsleep b s \<longleftrightarrow> holder (bufs s b) = Some (pid s)"

definition bget :: "uint \<Rightarrow> uint \<Rightarrow> 'a bio_scheme \<Rightarrow> (nat \<times> 'a bio_scheme) res" where
  "bget d n s =
     bindE (bget_cached (Suc NBUF) d n (bnext s NBUF) s) (\<lambda>found.
       case found of
         Some b \<Rightarrow>
           let s = set_buf b (\<lambda>x. x\<lparr>refcnt := refcnt x + 1\<rparr>) s
           in bindE (acquiresleep b s) (\<lambda>s. Inr (b, s))
       | None \<Rightarrow>
           bindE (bget_unused (Suc NBUF) (bprev s NBUF) s) (\<lambda>unused.
             case unused of
               Some b \<Rightarrow>
                 let s = set_buf b (\<lambda>x. x\<lparr>dev := d, blockno := n, valid := False, refcnt := 1\<rparr>) s
                 in bindE (acquiresleep b s) (\<lambda>s. Inr (b, s))
             | None \<Rightarrow> Inl (Panic ''bget: no buffers'')))"

text \<open>
  The transfer \<^verbatim>\<open>virtio_disk_rw\<close> makes, seen from here: the device has one disk and the block
  number alone addresses it.
\<close>

definition disk_read :: "nat \<Rightarrow> 'a bio_scheme \<Rightarrow> 'a bio_scheme" where
  "disk_read b s = set_buf b (\<lambda>x. x\<lparr>data := disk s (blockno x)\<rparr>) s"

definition disk_write :: "nat \<Rightarrow> 'a bio_scheme \<Rightarrow> 'a bio_scheme" where
  "disk_write b s =
     s\<lparr>disk := (disk s)(blockno (bufs s b) := data (bufs s b)),
       writes := writes s @ [(blockno (bufs s b), data (bufs s b))]\<rparr>"

definition bread :: "uint \<Rightarrow> uint \<Rightarrow> 'a bio_scheme \<Rightarrow> (nat \<times> 'a bio_scheme) res" where
  "bread d n s =
     bindE (bget d n s) (\<lambda>(b, s).
       if \<not> valid (bufs s b)
       then Inr (b, set_buf b (valid_update (\<lambda>_. True)) (disk_read b s))
       else Inr (b, s))"

definition bwrite :: "nat \<Rightarrow> 'a bio_scheme \<Rightarrow> 'a bio_scheme res" where
  "bwrite b s = (if \<not> holdingsleep b s then Inl (Panic ''bwrite'') else Inr (disk_write b s))"

definition brelse_front :: "nat \<Rightarrow> 'a bio_scheme \<Rightarrow> 'a bio_scheme" where
  "brelse_front b s =
     (let s = s\<lparr>bprev := (bprev s)(bnext s b := bprev s b)\<rparr>;
          s = s\<lparr>bnext := (bnext s)(bprev s b := bnext s b)\<rparr>;
          s = s\<lparr>bnext := (bnext s)(b := bnext s NBUF)\<rparr>;
          s = s\<lparr>bprev := (bprev s)(b := NBUF)\<rparr>;
          s = s\<lparr>bprev := (bprev s)(bnext s NBUF := b)\<rparr>
      in s\<lparr>bnext := (bnext s)(NBUF := b)\<rparr>)"

definition brelse :: "nat \<Rightarrow> 'a bio_scheme \<Rightarrow> 'a bio_scheme res" where
  "brelse b s =
     (if \<not> holdingsleep b s then Inl (Panic ''brelse'')
      else
        let s = releasesleep b s;
            s = set_buf b (\<lambda>x. x\<lparr>refcnt := refcnt x - 1\<rparr>) s
        in Inr (if refcnt (bufs s b) = 0 then brelse_front b s else s))"

definition bpin :: "nat \<Rightarrow> 'a bio_scheme \<Rightarrow> 'a bio_scheme" where
  "bpin b s = set_buf b (\<lambda>x. x\<lparr>refcnt := refcnt x + 1\<rparr>) s"

definition bunpin :: "nat \<Rightarrow> 'a bio_scheme \<Rightarrow> 'a bio_scheme" where
  "bunpin b s = set_buf b (\<lambda>x. x\<lparr>refcnt := refcnt x - 1\<rparr>) s"

section \<open>The list of buffers\<close>

text \<open>\<open>chain nx a xs b\<close>: from \<open>a\<close>, following \<open>nx\<close> visits \<open>xs\<close> and then \<open>b\<close>.\<close>

primrec chain :: "('n \<Rightarrow> 'n) \<Rightarrow> 'n \<Rightarrow> 'n list \<Rightarrow> 'n \<Rightarrow> bool" where
  "chain nx a [] b \<longleftrightarrow> nx a = b"
| "chain nx a (x # xs) b \<longleftrightarrow> nx a = x \<and> chain nx x xs b"

lemma chain_first: "chain nx a xs b \<Longrightarrow> nx a = hd (xs @ [b])"
  by (cases xs) auto

lemma chain_cong: "(\<And>y. y \<in> set (a # xs) \<Longrightarrow> nx y = nx' y) \<Longrightarrow> chain nx a xs b = chain nx' a xs b"
  by (induction xs arbitrary: a) auto

lemma chain_other: "p \<notin> set (a # xs) \<Longrightarrow> chain (nx(p := q)) a xs b \<longleftrightarrow> chain nx a xs b"
  by (induction xs arbitrary: a) auto

lemma chain_mid: "chain nx a (ys @ x # zs) c \<Longrightarrow> nx (last (a # ys)) = x \<and> nx x = hd (zs @ [c])"
  by (induction ys arbitrary: a) (auto dest: chain_first)

lemma chain_unlink:
  "chain nx a (ys @ x # zs) c \<Longrightarrow> distinct (a # ys @ x # zs) \<Longrightarrow> p = last (a # ys) \<Longrightarrow> q = nx x \<Longrightarrow>
   chain (nx(p := q)) a (ys @ zs) c"
proof (induction ys arbitrary: a)
  case Nil
  show ?case
  proof (cases zs)
    case Nil
    then show ?thesis using Nil.prems by simp
  next
    case (Cons z ws)
    then have "chain (nx(p := q)) z ws c = chain nx z ws c" using Nil.prems by (intro chain_other) auto
    moreover have "p = a" "q = z" "chain nx z ws c" using Nil.prems Cons by auto
    ultimately show ?thesis unfolding Cons by (simp only: append_Nil chain.simps fun_upd_same simp_thms)
  qed
next
  case (Cons y ys)
  have p: "p = last (y # ys)" using Cons.prems(3) by simp
  then have "chain (nx(p := q)) y (ys @ zs) c" using Cons by (intro Cons.IH) auto
  moreover have "p \<noteq> a" using Cons.prems(2) p last_in_set[of "y # ys"] by auto
  ultimately show ?case using Cons.prems(1) by (simp add: fun_upd_other[OF not_sym] del: fun_upd_apply)
qed

lemma chain_push: "chain nx a xs c \<Longrightarrow> b \<notin> set (a # xs) \<Longrightarrow> distinct (a # xs) \<Longrightarrow> chain (nx(b := nx a, a := b)) a (b # xs) c"
proof (cases xs)
  case (Cons x ys)
  assume "chain nx a xs c" "b \<notin> set (a # xs)" "distinct (a # xs)"
  moreover from this have "chain (nx(b := nx a, a := b)) x ys c = chain nx x ys c" using Cons by (intro chain_cong) auto
  ultimately show ?thesis using Cons by simp
qed auto

lemma chain_append: "chain nx a (xs @ [b]) c \<longleftrightarrow> chain nx a xs b \<and> nx b = c"
  by (induction xs arbitrary: a) auto

lemma chain_last: "chain nx a xs c \<Longrightarrow> distinct (a # xs) \<Longrightarrow> p = last (a # xs) \<Longrightarrow> chain (nx(p := b)) a xs b"
proof (induction xs arbitrary: a)
  case (Cons x xs)
  have p: "p = last (x # xs)" using Cons.prems(3) by simp
  then have "p \<noteq> a" using last_in_set[of "x # xs"] Cons.prems(2) by auto
  moreover have "chain (nx(p := b)) x xs b" using Cons p by (intro Cons.IH) auto
  ultimately show ?case using Cons.prems(1) by (simp add: fun_upd_other[OF not_sym] del: fun_upd_apply)
qed simp

lemma chain_snoc:
  assumes "chain nx a xs c" and "b \<notin> set (a # xs)" and "distinct (a # xs)" and p: "p = last (a # xs)"
  shows "chain (nx(b := c, p := b)) a (xs @ [b]) c"
proof -
  have "p \<in> set (a # xs)" unfolding p by (rule last_in_set) simp
  then have "p \<noteq> b" using assms(2) by blast
  moreover have "chain (nx(b := c)) a xs c" using assms(1,2) by (simp add: chain_other)
  ultimately have "chain (nx(b := c, p := b)) a xs b" and "(nx(b := c, p := b)) b = c"
    using chain_last[of "nx(b := c)" a xs c p b] assms(3) p by simp_all
  then show ?thesis unfolding chain_append ..
qed

definition linked :: "(nat \<Rightarrow> nat) \<Rightarrow> (nat \<Rightarrow> nat) \<Rightarrow> nat list \<Rightarrow> bool" where
  "linked nx pv xs \<longleftrightarrow> chain nx NBUF xs NBUF \<and> chain pv NBUF (rev xs) NBUF \<and> distinct (NBUF # xs)"

definition lru :: "'a bio_scheme \<Rightarrow> nat list \<Rightarrow> bool" where
  "lru s xs \<longleftrightarrow> linked (bnext s) (bprev s) xs \<and> set xs = {..<NBUF}"

lemma hd_last_rev: "hd (xs @ [h]) = last (h # rev xs)"
  by (cases xs) auto

lemma linked_push:
  assumes "linked nx pv xs" and "b \<notin> set (NBUF # xs)"
  shows "linked (nx(b := nx NBUF, NBUF := b)) (pv(b := NBUF, nx NBUF := b)) (b # xs)"
proof -
  have "nx NBUF = last (NBUF # rev xs)" using assms(1) chain_first hd_last_rev by (metis linked_def)
  then show ?thesis
    using assms chain_push[of nx NBUF xs NBUF b] chain_snoc[of pv NBUF "rev xs" NBUF b "nx NBUF"] by (auto simp: linked_def)
qed

lemma linked_unlink:
  assumes "linked nx pv (ys @ b # zs)"
  shows "linked (nx(pv b := nx b)) (pv(nx b := pv b)) (ys @ zs)"
proof -
  have n: "chain nx NBUF (ys @ b # zs) NBUF" and p: "chain pv NBUF (rev zs @ b # rev ys) NBUF" and d: "distinct (NBUF # ys @ b # zs)"
    using assms by (auto simp: linked_def)
  have "pv b = last (NBUF # ys)" using chain_mid[OF p] hd_last_rev[of "rev ys" NBUF] by simp
  moreover have "nx b = last (NBUF # rev zs)" using chain_mid[OF n] hd_last_rev by metis
  moreover have "distinct (NBUF # rev zs @ b # rev ys)" using d by auto
  ultimately show ?thesis using chain_unlink[OF n d, of "pv b" "nx b"] chain_unlink[OF p, of "nx b" "pv b"] d by (auto simp: linked_def)
qed

text \<open>\<^verbatim>\<open>brelse\<close> moves the buffer to the front.\<close>

lemma brelse_front_links:
  assumes "linked (bnext s) (bprev s) (ys @ b # zs)"
  shows "linked (bnext (brelse_front b s)) (bprev (brelse_front b s)) (b # ys @ zs)"
proof -
  let ?nx = "bnext s" and ?pv = "bprev s"
  have u: "linked (?nx(?pv b := ?nx b)) (?pv(?nx b := ?pv b)) (ys @ zs)" by (rule linked_unlink[OF assms])
  have b: "b \<notin> set (NBUF # ys @ zs)" "b \<noteq> NBUF" using assms by (auto simp: linked_def)
  have "?nx b \<noteq> b"
    using chain_mid[of ?nx NBUF ys b zs NBUF] assms b by (cases zs) (auto simp: linked_def)
  then have "bnext (brelse_front b s) = (?nx(?pv b := ?nx b))(b := (?nx(?pv b := ?nx b)) NBUF, NBUF := b)"
    and "bprev (brelse_front b s) = (?pv(?nx b := ?pv b))(b := NBUF, (?nx(?pv b := ?nx b)) NBUF := b)"
    using b(2) by (auto simp: brelse_front_def Let_def)
  then show ?thesis using linked_push[OF u b(1)] by simp
qed

lemma brelse_front_lru:
  assumes "lru s xs" and "b < NBUF"
  shows "lru (brelse_front b s) (b # remove1 b xs)"
proof -
  obtain ys zs where xs: "xs = ys @ b # zs" using assms split_list[of b xs] by (auto simp: lru_def)
  then have "b \<notin> set ys" using assms(1) by (auto simp: lru_def linked_def)
  then have "remove1 b xs = ys @ zs" using xs by (simp add: remove1_append)
  then show ?thesis using assms brelse_front_links[of s ys b zs] xs by (auto simp: lru_def)
qed

lemma brelse_front_other [simp]:
  "bufs (brelse_front b s) = bufs s" "disk (brelse_front b s) = disk s" "writes (brelse_front b s) = writes s"
  "pid (brelse_front b s) = pid s" "bio.more (brelse_front b s) = bio.more s"
  by (simp_all add: brelse_front_def Let_def)

lemma binit_loop_links:
  "linked (bnext s) (bprev s) xs \<Longrightarrow> distinct (bs @ NBUF # xs) \<Longrightarrow>
   linked (bnext (binit_loop bs s)) (bprev (binit_loop bs s)) (rev bs @ xs)"
proof (induction bs arbitrary: s xs)
  case (Cons b bs)
  let ?s = "set_buf b (holder_update (\<lambda>_. None)) (s\<lparr>bnext := (bnext s)(b := bnext s NBUF), bprev := (bprev s)(b := NBUF)\<rparr>)"
  let ?t = "?s\<lparr>bprev := (bprev ?s)(bnext ?s NBUF := b)\<rparr>"
  let ?u = "?t\<lparr>bnext := (bnext ?t)(NBUF := b)\<rparr>"
  have b: "b \<notin> set (NBUF # xs)" using Cons.prems(2) by auto
  then have "bnext ?u = (bnext s)(b := bnext s NBUF, NBUF := b)" "bprev ?u = (bprev s)(b := NBUF, bnext s NBUF := b)"
    by (auto simp: set_buf_def)
  then have "linked (bnext ?u) (bprev ?u) (b # xs)" using linked_push[OF Cons.prems(1) b] by simp
  moreover have "distinct (bs @ NBUF # b # xs)" using Cons.prems(2) by auto
  ultimately have "linked (bnext (binit_loop bs ?u)) (bprev (binit_loop bs ?u)) (rev bs @ b # xs)" by (rule Cons.IH)
  then show ?case by (simp add: Let_def)
qed simp

lemma binit_lru: "lru (binit s) (rev [0..<NBUF])"
proof -
  have "linked (bnext (binit s)) (bprev (binit s)) (rev [0..<NBUF] @ [])"
    unfolding binit_def by (rule binit_loop_links) (simp_all add: linked_def)
  then show ?thesis by (auto simp: lru_def)
qed

section \<open>Finding a buffer\<close>

lemma bget_cached_find:
  "chain (bnext s) a xs NBUF \<Longrightarrow> NBUF \<notin> set xs \<Longrightarrow> length xs < fuel \<Longrightarrow>
   bget_cached fuel d n (bnext s a) s = Inr (find (\<lambda>b. dev (bufs s b) = d \<and> blockno (bufs s b) = n) xs)"
proof (induction xs arbitrary: a fuel)
  case Nil
  then show ?case by (cases fuel) auto
next
  case (Cons x xs)
  then obtain f where f: "fuel = Suc f" by (cases fuel) auto
  have "bget_cached f d n (bnext s x) s = Inr (find (\<lambda>b. dev (bufs s b) = d \<and> blockno (bufs s b) = n) xs)"
    using Cons.prems f by (intro Cons.IH) auto
  then show ?case using Cons.prems f by auto
qed

lemma bget_unused_find:
  "chain (bprev s) a xs NBUF \<Longrightarrow> NBUF \<notin> set xs \<Longrightarrow> length xs < fuel \<Longrightarrow>
   bget_unused fuel (bprev s a) s = Inr (find (\<lambda>b. refcnt (bufs s b) = 0) xs)"
proof (induction xs arbitrary: a fuel)
  case Nil
  then show ?case by (cases fuel) auto
next
  case (Cons x xs)
  then obtain f where f: "fuel = Suc f" by (cases fuel) auto
  have "bget_unused f (bprev s x) s = Inr (find (\<lambda>b. refcnt (bufs s b) = 0) xs)"
    using Cons.prems f by (intro Cons.IH) auto
  then show ?case using Cons.prems f by auto
qed

lemma lruD:
  assumes "lru s xs"
  shows "chain (bnext s) NBUF xs NBUF" and "chain (bprev s) NBUF (rev xs) NBUF" and "distinct xs"
    and "NBUF \<notin> set xs" and "set xs = {..<NBUF}" and "length xs = NBUF"
proof -
  show "chain (bnext s) NBUF xs NBUF" "chain (bprev s) NBUF (rev xs) NBUF" "NBUF \<notin> set xs" and d: "distinct xs" and e: "set xs = {..<NBUF}"
    using assms by (auto simp: lru_def linked_def)
  show "length xs = NBUF" using distinct_card[OF d] e by simp
qed

text \<open>
  \<^verbatim>\<open>bget\<close> on a list in order of use: the cached buffer, else the least recently used one
  without references, which is the last such in the list.
\<close>

lemma bget_lru:
  assumes "lru s xs"
  shows "bget d n s =
    (case find (\<lambda>b. dev (bufs s b) = d \<and> blockno (bufs s b) = n) xs of
       Some b \<Rightarrow> bindE (acquiresleep b (set_buf b (\<lambda>x. x\<lparr>refcnt := refcnt x + 1\<rparr>) s)) (\<lambda>s. Inr (b, s))
     | None \<Rightarrow>
         (case find (\<lambda>b. refcnt (bufs s b) = 0) (rev xs) of
            Some b \<Rightarrow> bindE (acquiresleep b (set_buf b (\<lambda>x. x\<lparr>dev := d, blockno := n, valid := False, refcnt := 1\<rparr>) s)) (\<lambda>s. Inr (b, s))
          | None \<Rightarrow> Inl (Panic ''bget: no buffers'')))"
proof -
  note L = lruD[OF assms]
  have "bget_cached (Suc NBUF) d n (bnext s NBUF) s = Inr (find (\<lambda>b. dev (bufs s b) = d \<and> blockno (bufs s b) = n) xs)"
    using L by (intro bget_cached_find) simp_all
  moreover have "bget_unused (Suc NBUF) (bprev s NBUF) s = Inr (find (\<lambda>b. refcnt (bufs s b) = 0) (rev xs))"
    using L by (intro bget_unused_find) simp_all
  ultimately show ?thesis unfolding bget_def by (auto simp: Let_def split: option.splits)
qed

section \<open>The cache invariant\<close>

abbreviation ROOTDEV :: uint where "ROOTDEV \<equiv> 1"

definition cached :: "'a bio_scheme \<Rightarrow> uint \<Rightarrow> nat \<Rightarrow> bool" where
  "cached s n b \<longleftrightarrow> b < NBUF \<and> dev (bufs s b) = ROOTDEV \<and> blockno (bufs s b) = n"

text \<open>The current contents of a block: those of its buffer if there is one, else the disk's.\<close>

definition view :: "'a bio_scheme \<Rightarrow> uint \<Rightarrow> block" where
  "view s n =
     (case find (\<lambda>b. cached s n b \<and> valid (bufs s b)) [0..<NBUF] of
        None \<Rightarrow> disk s n
      | Some b \<Rightarrow> data (bufs s b))"

definition uniq :: "'a bio_scheme \<Rightarrow> bool" where
  "uniq s \<longleftrightarrow> (\<forall>n b b'. cached s n b \<longrightarrow> cached s n b' \<longrightarrow> b = b')"

text \<open>
  \<open>cinv s H P\<close>: the running process holds the buffers \<open>dom H\<close>, buffer \<open>b\<close> for block \<open>H b\<close>,
  the blocks \<open>P\<close> are pinned, and every buffer that is neither has the disk's contents.
\<close>

definition pinned :: "'a bio_scheme \<Rightarrow> uint set \<Rightarrow> nat \<Rightarrow> bool" where
  "pinned s P b \<longleftrightarrow> (\<exists>n \<in> P. cached s n b)"

definition cinv :: "'a bio_scheme \<Rightarrow> (nat \<rightharpoonup> uint) \<Rightarrow> uint set \<Rightarrow> bool" where
  "cinv s H P \<longleftrightarrow> (\<exists>xs. lru s xs) \<and> uniq s \<and> finite P \<and>
     (\<forall>b < NBUF. holder (bufs s b) = (if H b = None then None else Some (pid s))) \<and>
     (\<forall>b < NBUF. refcnt (bufs s b) = (if H b = None then 0 else 1) + (if pinned s P b then 1 else 0)) \<and>
     (\<forall>b n. H b = Some n \<longrightarrow> cached s n b \<and> valid (bufs s b)) \<and>
     (\<forall>n \<in> P. \<exists>b. cached s n b \<and> valid (bufs s b)) \<and>
     (\<forall>b n. cached s n b \<longrightarrow> valid (bufs s b) \<longrightarrow> H b = None \<longrightarrow> n \<notin> P \<longrightarrow> data (bufs s b) = disk s n)"

lemma cinvD:
  assumes "cinv s H P"
  shows "\<exists>xs. lru s xs" and "uniq s" and "finite P"
    and "b < NBUF \<Longrightarrow> holder (bufs s b) = (if H b = None then None else Some (pid s))"
    and "b < NBUF \<Longrightarrow> refcnt (bufs s b) = (if H b = None then 0 else 1) + (if pinned s P b then 1 else 0)"
    and "H b = Some n \<Longrightarrow> cached s n b" and "H b = Some n \<Longrightarrow> valid (bufs s b)"
    and "n \<in> P \<Longrightarrow> \<exists>b. cached s n b \<and> valid (bufs s b)"
    and "cached s n b \<Longrightarrow> valid (bufs s b) \<Longrightarrow> H b = None \<Longrightarrow> n \<notin> P \<Longrightarrow> data (bufs s b) = disk s n"
  using assms by (simp_all add: cinv_def)

lemma cached_fun: "cached s n b \<Longrightarrow> cached s m b \<Longrightarrow> m = n"
  by (simp add: cached_def)

lemma uniqD: "uniq s \<Longrightarrow> cached s n b \<Longrightarrow> cached s n b' \<Longrightarrow> b' = b"
  by (simp add: uniq_def)

lemma view_cached:
  assumes "uniq s" and "cached s n b" and "valid (bufs s b)"
  shows "view s n = data (bufs s b)"
proof (cases "find (\<lambda>b. cached s n b \<and> valid (bufs s b)) [0..<NBUF]")
  case None
  then show ?thesis using assms by (auto simp: find_None_iff cached_def)
next
  case (Some c)
  then have "cached s n c" by (auto simp: find_Some_iff)
  then have "c = b" using assms uniqD by blast
  then show ?thesis using Some by (simp add: view_def)
qed

lemma view_disk: "(\<And>b. cached s n b \<Longrightarrow> \<not> valid (bufs s b)) \<Longrightarrow> view s n = disk s n"
proof -
  assume a: "\<And>b. cached s n b \<Longrightarrow> \<not> valid (bufs s b)"
  then have "find (\<lambda>b. cached s n b \<and> valid (bufs s b)) [0..<NBUF] = None" by (auto simp: find_None_iff)
  then show ?thesis by (simp add: view_def)
qed

text \<open>A free buffer exists while fewer than \<open>NBUF\<close> are held or pinned.\<close>

lemma free_buffer:
  assumes c: "cinv s H P" and room: "card (dom H) + card P < NBUF"
  shows "\<exists>b < NBUF. refcnt (bufs s b) = 0"
proof (rule ccontr)
  assume n: "\<not> (\<exists>b < NBUF. refcnt (bufs s b) = 0)"
  let ?B = "{b. pinned s P b}"
  have "{..<NBUF} \<subseteq> dom H \<union> ?B" using n cinvD(5)[OF c] by (auto split: if_splits)
  moreover have "dom H \<subseteq> {..<NBUF}" using cinvD(6)[OF c] by (auto simp: cached_def)
  then have fin: "finite (dom H)" by (rule finite_subset) simp
  have "inj_on (\<lambda>b. blockno (bufs s b)) ?B" using cinvD(2)[OF c] by (simp add: inj_on_def pinned_def uniq_def cached_def)
  moreover have "(\<lambda>b. blockno (bufs s b)) ` ?B \<subseteq> P" by (auto simp: pinned_def cached_def)
  ultimately have "card ?B \<le> card P" and "finite ?B"
    using cinvD(3)[OF c] by (meson card_inj_on_le, meson inj_on_finite)
  then have "card (dom H \<union> ?B) \<le> card (dom H) + card P" using card_Un_le[of "dom H" ?B] by linarith
  moreover have "card {..<NBUF} \<le> card (dom H \<union> ?B)"
    using \<open>{..<NBUF} \<subseteq> dom H \<union> ?B\<close> fin \<open>finite ?B\<close> by (intro card_mono) auto
  ultimately show False using room by simp
qed

section \<open>The contract of the operations\<close>

definition got :: "'a bio_scheme \<Rightarrow> nat \<Rightarrow> uint \<Rightarrow> 'a bio_scheme" where
  "got s b n = s\<lparr>bufs := (bufs s)(b :=
     \<lparr>valid = True, dev = ROOTDEV, blockno = n, holder = Some (pid s), refcnt = refcnt (bufs s b) + 1, data = view s n\<rparr>)\<rparr>"

lemma find_SomeD: "find Q xs = Some x \<Longrightarrow> x \<in> set xs \<and> Q x"
  by (auto simp: find_Some_iff)

lemma find_append: "find Q (xs @ ys) = (case find Q xs of None \<Rightarrow> find Q ys | Some x \<Rightarrow> Some x)"
  by (induction xs) auto

lemma bread_got:
  assumes c: "cinv s H P" and new: "n \<notin> ran H" and room: "card (dom H) + card P < NBUF \<or> n \<in> P"
  shows "\<exists>b < NBUF. bread ROOTDEV n s = Inr (b, got s b n) \<and> H b = None \<and>
           (cached s n b \<or> (\<forall>b'. \<not> cached s n b') \<and> \<not> pinned s P b)"
proof -
  obtain xs where l: "lru s xs" using cinvD(1)[OF c] by blast
  have set: "set xs = {..<NBUF}" using lruD[OF l] by simp
  let ?f = "find (\<lambda>b. dev (bufs s b) = ROOTDEV \<and> blockno (bufs s b) = n) xs"
  show ?thesis
  proof (cases ?f)
    case (Some b)
    then have b: "cached s n b" using set find_SomeD[OF Some] by (simp add: cached_def)
    then have H: "H b = None" using new cinvD(6)[OF c] cached_fun[OF b] by (metis option.exhaust ranI)
    have h: "holder (bufs s b) = None" using cinvD(4)[OF c] b H by (simp add: cached_def)
    have "bread ROOTDEV n s = Inr (b, got s b n)"
    proof (cases "valid (bufs s b)")
      case True
      then have "view s n = data (bufs s b)" using view_cached[OF cinvD(2)[OF c] b] by simp
      then show ?thesis using Some b h True
        by (cases "bufs s b") (simp add: bread_def bget_lru[OF l] acquiresleep_def set_buf_def got_def cached_def)
    next
      case False
      then have "view s n = disk s n" using uniqD[OF cinvD(2)[OF c] b] by (intro view_disk) blast
      then show ?thesis using Some b h False
        by (cases "bufs s b") (simp add: bread_def bget_lru[OF l] acquiresleep_def set_buf_def got_def cached_def disk_read_def)
    qed
    then show ?thesis using b H by (auto simp: cached_def)
  next
    case None
    then have no: "\<not> cached s n b'" for b' using set by (auto simp: find_None_iff cached_def)
    then have "n \<notin> P" using cinvD(8)[OF c] by blast
    then obtain b0 where b0: "b0 < NBUF" "refcnt (bufs s b0) = 0" using free_buffer[OF c] room by blast
    have "find (\<lambda>b. refcnt (bufs s b) = 0) (rev xs) \<noteq> None" using b0 set by (auto simp: find_None_iff)
    then obtain b where u: "find (\<lambda>b. refcnt (bufs s b) = 0) (rev xs) = Some b" by blast
    then have b: "b \<in> set (rev xs)" "refcnt (bufs s b) = 0" using find_SomeD[OF u] by simp_all
    then have bn: "b < NBUF" using set by simp
    have H: "H b = None" "\<not> pinned s P b" using cinvD(5)[OF c bn] b(2) by (auto split: if_splits)
    have h: "holder (bufs s b) = None" using cinvD(4)[OF c bn] H by simp
    have "view s n = disk s n" using no by (intro view_disk) blast
    then have "bread ROOTDEV n s = Inr (b, got s b n)" using None u h b(2)
      by (cases "bufs s b") (simp add: bread_def bget_lru[OF l] acquiresleep_def set_buf_def got_def disk_read_def)
    then show ?thesis using bn H no by blast
  qed
qed

lemma got_simps [simp]:
  "disk (got s b n) = disk s" "writes (got s b n) = writes s" "pid (got s b n) = pid s"
  "bnext (got s b n) = bnext s" "bprev (got s b n) = bprev s" "bio.more (got s b n) = bio.more s"
  "bufs (got s b n) b' = (if b' = b
     then \<lparr>valid = True, dev = ROOTDEV, blockno = n, holder = Some (pid s), refcnt = refcnt (bufs s b) + 1, data = view s n\<rparr>
     else bufs s b')"
  by (simp_all add: got_def)

lemma cached_got: "b < NBUF \<Longrightarrow> cached (got s b n) m b' = (if b' = b then m = n else cached s m b')"
  by (auto simp: cached_def got_def)

lemma lru_cong: "bnext s' = bnext s \<Longrightarrow> bprev s' = bprev s \<Longrightarrow> lru s' xs = lru s xs"
  by (simp add: lru_def)

lemma got_cinv:
  assumes c: "cinv s H P" and b: "b < NBUF" "H b = None"
    and n: "cached s n b \<or> (\<forall>b'. \<not> cached s n b') \<and> \<not> pinned s P b"
  shows "cinv (got s b n) (H(b \<mapsto> n)) P"
proof -
  note C = cached_got[OF b(1)]
  have other: "\<not> cached s n b'" if "b' \<noteq> b" for b' using n that uniqD[OF cinvD(2)[OF c]] by blast
  have P: "pinned s P b = (n \<in> P)" using n cinvD(8)[OF c] cached_fun unfolding pinned_def by metis
  have pin: "pinned (got s b n) P b' = pinned s P b'" for b' using P by (auto simp: pinned_def C)
  have u: "uniq (got s b n)" using cinvD(2)[OF c] other by (auto simp: uniq_def C)
  have sel: "bufs (got s b n) b' = bufs s b'" if "b' \<noteq> b" for b' using that by (simp add: got_def)
  show ?thesis unfolding cinv_def
  proof (intro conjI)
    show "\<exists>xs. lru (got s b n) xs" using cinvD(1)[OF c] lru_cong[of "got s b n" s] by (simp add: got_def)
    show "\<forall>b' < NBUF. refcnt (bufs (got s b n) b') =
        (if (H(b \<mapsto> n)) b' = None then 0 else 1) + (if pinned (got s b n) P b' then 1 else 0)"
      using cinvD(5)[OF c] b by (auto simp: pin)
    show "\<forall>n' \<in> P. \<exists>b'. cached (got s b n) n' b' \<and> valid (bufs (got s b n) b')"
    proof
      fix n' assume "n' \<in> P"
      then obtain b' where b': "cached s n' b'" "valid (bufs s b')" using cinvD(8)[OF c] by blast
      show "\<exists>b'. cached (got s b n) n' b' \<and> valid (bufs (got s b n) b')"
      proof (cases "b' = b")
        case True
        then have "n' = n" using b' n \<open>n' \<in> P\<close> cached_fun unfolding pinned_def by metis
        then show ?thesis by (intro exI[of _ b]) (simp_all add: C)
      next
        case False
        then show ?thesis using b' by (intro exI[of _ b']) (simp add: C sel)
      qed
    qed
  qed (use u cinvD[OF c] b in \<open>auto simp: C\<close>)
qed

lemma got_view:
  assumes c: "cinv s H P" and b: "b < NBUF" "H b = None"
    and n: "cached s n b \<or> (\<forall>b'. \<not> cached s n b') \<and> \<not> pinned s P b"
  shows "view (got s b n) = view s"
proof
  fix m
  note C = cached_got[OF b(1)]
  have u: "uniq (got s b n)" using got_cinv[OF assms] by (rule cinvD(2))
  have sel: "bufs (got s b n) b' = bufs s b'" if "b' \<noteq> b" for b' using that by (simp add: got_def)
  show "view (got s b n) m = view s m"
  proof (cases "m = n")
    case True
    have "view (got s b n) n = data (bufs (got s b n) b)" by (rule view_cached[OF u]) (simp_all add: C)
    then show ?thesis using True by simp
  next
    case False
    show ?thesis
    proof (cases "\<exists>b'. b' \<noteq> b \<and> cached s m b' \<and> valid (bufs s b')")
      case True
      then obtain b' where b': "b' \<noteq> b" "cached s m b'" "valid (bufs s b')" by blast
      show ?thesis using b' view_cached[OF cinvD(2)[OF c] b'(2,3)] view_cached[OF u, of m b'] by (simp add: C sel)
    next
      case no: False
      have "view (got s b n) m = disk s m"
        using view_disk[of "got s b n" m] no False C sel by (metis got_simps(1))
      moreover have "view s m = disk s m"
      proof (cases "cached s m b \<and> valid (bufs s b)")
        case True
        then have "m \<notin> P" using n False cached_fun unfolding pinned_def by metis
        then show ?thesis using True view_cached[OF cinvD(2)[OF c]] cinvD(9)[OF c] b by metis
      next
        case False
        then show ?thesis using no by (intro view_disk) metis
      qed
      ultimately show ?thesis by simp
    qed
  qed
qed

text \<open>The other operations keep the key and the validity of every buffer.\<close>

definition same_keys :: "'a bio_scheme \<Rightarrow> 'a bio_scheme \<Rightarrow> bool" where
  "same_keys s s' \<longleftrightarrow> (\<forall>b. dev (bufs s' b) = dev (bufs s b) \<and> blockno (bufs s' b) = blockno (bufs s b) \<and>
     valid (bufs s' b) = valid (bufs s b))"

lemma same_keysD:
  assumes "same_keys s s'"
  shows "cached s' n b = cached s n b" and "valid (bufs s' b) = valid (bufs s b)"
    and "uniq s' = uniq s" and "pinned s' P b = pinned s P b"
proof -
  show c: "cached s' n b = cached s n b" for n b using assms by (simp add: same_keys_def cached_def)
  show "valid (bufs s' b) = valid (bufs s b)" using assms by (simp add: same_keys_def)
  show "uniq s' = uniq s" "pinned s' P b = pinned s P b" by (simp_all add: uniq_def pinned_def c)
qed

lemma view_same:
  assumes "same_keys s s'"
    and "\<And>b. cached s n b \<Longrightarrow> valid (bufs s b) \<Longrightarrow> data (bufs s' b) = data (bufs s b)"
    and "(\<forall>b. cached s n b \<longrightarrow> \<not> valid (bufs s b)) \<Longrightarrow> disk s' n = disk s n"
  shows "view s' n = view s n"
proof -
  let ?f = "find (\<lambda>b. cached s n b \<and> valid (bufs s b)) [0..<NBUF]"
  have v: "view s' n = (case ?f of None \<Rightarrow> disk s' n | Some b \<Rightarrow> data (bufs s' b))"
    by (simp only: view_def same_keysD[OF assms(1)])
  show ?thesis
  proof (cases ?f)
    case None
    then have "\<forall>b. cached s n b \<longrightarrow> \<not> valid (bufs s b)" by (auto simp: find_None_iff cached_def)
    then show ?thesis using v None assms(3) by (simp add: view_def)
  next
    case (Some b)
    then show ?thesis using v assms(2) find_SomeD[OF Some] by (simp add: view_def)
  qed
qed

lemma set_data_ok:
  assumes c: "cinv s H P" and h: "H b = Some n"
  shows "cinv (set_buf b (data_update (\<lambda>_. v)) s) H P"
    and "view (set_buf b (data_update (\<lambda>_. v)) s) = (view s)(n := v)"
proof -
  let ?s = "set_buf b (data_update (\<lambda>_. v)) s"
  have k: "same_keys s ?s" by (simp add: same_keys_def set_buf_def)
  note K = same_keysD[OF k] and b = cinvD(6,7)[OF c h]
  have l: "lru ?s xs = lru s xs" for xs by (rule lru_cong) (simp_all add: set_buf_def)
  show "cinv ?s H P" unfolding cinv_def K l
    using cinvD[OF c] h by (auto simp: set_buf_def)
  have "view ?s n = v" using view_cached[of ?s n b] K cinvD(2)[OF c] b by (simp add: set_buf_def)
  moreover have "view ?s m = view s m" if "m \<noteq> n" for m
    by (rule view_same[OF k]) (use b cached_fun that in \<open>auto simp: set_buf_def\<close>)
  ultimately show "view ?s = (view s)(n := v)" by auto
qed

definition written :: "'a bio_scheme \<Rightarrow> uint \<Rightarrow> 'a bio_scheme" where
  "written s n = s\<lparr>disk := (disk s)(n := view s n), writes := writes s @ [(n, view s n)]\<rparr>"

lemma written_simps [simp]:
  "disk (written s n) = (disk s)(n := view s n)" "writes (written s n) = writes s @ [(n, view s n)]"
  "bufs (written s n) = bufs s" "bnext (written s n) = bnext s" "bprev (written s n) = bprev s"
  "pid (written s n) = pid s" "bio.more (written s n) = bio.more s"
  by (simp_all add: written_def)

lemma bwrite_ok:
  assumes c: "cinv s H P" and h: "H b = Some n"
  shows "bwrite b s = Inr (written s n)" and "cinv (written s n) H P" and "view (written s n) = view s"
proof -
  let ?s = "written s n"
  note b = cinvD(6,7)[OF c h]
  have v: "view s n = data (bufs s b)" using view_cached[OF cinvD(2)[OF c] b] .
  have bn: "b < NBUF" "blockno (bufs s b) = n" using b by (simp_all add: cached_def)
  show "bwrite b s = Inr ?s" using cinvD(4)[OF c bn(1)] h bn
    by (simp add: bwrite_def holdingsleep_def disk_write_def v written_def)
  have k: "same_keys s ?s" by (simp add: same_keys_def)
  note K = same_keysD[OF k]
  have l: "lru ?s xs = lru s xs" for xs by (rule lru_cong) simp_all
  have cl: "data (bufs s b') = disk ?s m" if "cached s m b'" "valid (bufs s b')" "H b' = None" "m \<notin> P" for b' m
    using cinvD(9)[OF c that] uniqD[OF cinvD(2)[OF c] b(1)] that h by (cases "m = n") auto
  show "cinv ?s H P" unfolding cinv_def K l using cinvD[OF c] h cl by simp
  show "view ?s = view s"
  proof
    fix m show "view ?s m = view s m" by (rule view_same[OF k]) (use b in auto)
  qed
qed

lemma cinv_change:
  assumes c: "cinv s H P" and l: "\<exists>xs. lru s' xs" and k: "same_keys s s'" and d: "disk s' = disk s" "pid s' = pid s"
    and da: "\<forall>b'. data (bufs s' b') = data (bufs s b')"
    and o: "\<forall>b'. b' \<noteq> b \<longrightarrow> bufs s' b' = bufs s b'" "\<forall>b'. b' \<noteq> b \<longrightarrow> H' b' = H b'"
    and b: "cached s n b" "valid (bufs s b)" and P: "P - {n} = P' - {n}" and H: "H' b \<in> {None, Some n}"
    and new: "holder (bufs s' b) = (if H' b = None then None else Some (pid s))"
      "refcnt (bufs s' b) = (if H' b = None then 0 else 1) + (if n \<in> P' then 1 else 0)"
      "H' b = None \<Longrightarrow> n \<notin> P' \<Longrightarrow> view s n = disk s n"
  shows "cinv s' H' P'" and "view s' = view s"
proof -
  note K = same_keysD[OF k]
  have u: "cached s m b \<longleftrightarrow> m = n" for m using b cached_fun by blast
  have pin: "pinned s P' b' = (if b' = b then n \<in> P' else pinned s P b')" for b'
    using P u uniqD[OF cinvD(2)[OF c] b(1)] unfolding pinned_def by (auto simp: set_eq_iff)
  have fin: "finite P'" using cinvD(3)[OF c] P by (metis finite_Diff2 finite.emptyI finite_insert)
  have kept: "\<exists>b. cached s m b \<and> valid (bufs s b)" if "m \<in> P'" for m
    using cinvD(8)[OF c] P that b by (cases "m = n") blast+
  have cl: "data (bufs s b') = disk s m"
    if a: "cached s m b'" "valid (bufs s b')" "H' b' = None" "m \<notin> P'" for m b'
  proof (cases "b' = b")
    case True
    then have "m = n" using a u by simp
    then show ?thesis using True new(3) a view_cached[OF cinvD(2)[OF c] b] by simp
  next
    case False
    then have "m \<noteq> n" using a uniqD[OF cinvD(2)[OF c] b(1)] by blast
    then show ?thesis using cinvD(9)[OF c a(1,2)] o(2) a(3,4) False P by auto
  qed
  have hold: "holder (bufs s' b') = (if H' b' = None then None else Some (pid s))" if "b' < NBUF" for b'
    using new(1) o cinvD(4)[OF c that] by (cases "b' = b") simp_all
  have ref: "refcnt (bufs s' b') = (if H' b' = None then 0 else 1) + (if pinned s P' b' then 1 else 0)" if "b' < NBUF" for b'
    using new(2) o cinvD(5)[OF c that] by (cases "b' = b") (simp_all add: pin)
  have held: "cached s m b' \<and> valid (bufs s b')" if "H' b' = Some m" for b' m
    using that o(2) b H cinvD(6,7)[OF c] by (cases "b' = b") auto
  show "cinv s' H' P'" unfolding cinv_def K d
    using l cinvD(2)[OF c] fin hold ref held kept cl da by simp
  show "view s' = view s"
  proof
    fix m show "view s' m = view s m" by (rule view_same[OF k]) (use da d in auto)
  qed
qed

lemma brelse_ok:
  assumes c: "cinv s H P" and h: "H b = Some n" and cl: "n \<in> P \<or> view s n = disk s n"
  shows "\<exists>s'. brelse b s = Inr s' \<and> cinv s' (H(b := None)) P \<and> view s' = view s \<and>
           disk s' = disk s \<and> writes s' = writes s \<and> pid s' = pid s \<and> bio.more s' = bio.more s"
proof -
  note b = cinvD(6,7)[OF c h]
  have bn: "b < NBUF" using b by (simp add: cached_def)
  have pin: "pinned s P b = (n \<in> P)" using b cached_fun unfolding pinned_def by metis
  let ?t = "set_buf b (\<lambda>x. x\<lparr>refcnt := refcnt x - 1\<rparr>) (releasesleep b s)"
  let ?s' = "if refcnt (bufs ?t b) = 0 then brelse_front b ?t else ?t"
  have eq: "brelse b s = Inr ?s'" using cinvD(4)[OF c bn] h by (simp add: brelse_def holdingsleep_def Let_def)
  have bufs: "bufs ?s' = (bufs s)(b := (bufs s b)\<lparr>holder := None, refcnt := refcnt (bufs s b) - 1\<rparr>)"
    by (simp add: set_buf_def releasesleep_def)
  have rest: "disk ?s' = disk s" "writes ?s' = writes s" "pid ?s' = pid s" "bio.more ?s' = bio.more s"
    by (simp_all add: set_buf_def releasesleep_def)
  obtain xs where l: "lru s xs" using cinvD(1)[OF c] by blast
  then have "lru ?t xs" using lru_cong[of ?t s] by (simp add: set_buf_def releasesleep_def)
  then have l': "\<exists>xs. lru ?s' xs" using brelse_front_lru[OF _ bn] by auto
  have k: "same_keys s ?s'" unfolding same_keys_def bufs by simp
  have r: "refcnt (bufs ?s' b) = (if n \<in> P then 1 else 0)"
    unfolding bufs using cinvD(5)[OF c bn] h pin by simp
  have "cinv ?s' (H(b := None)) P" and "view ?s' = view s"
    by (rule cinv_change[where H' = "H(b := None)" and P' = P, OF c l' k rest(1,3) _ _ _ b]; use r bufs cl in auto)+
  then show ?thesis using eq rest by blast
qed

lemma bpin_ok:
  assumes c: "cinv s H P" and h: "H b = Some n" and n: "n \<notin> P"
  shows "cinv (bpin b s) H (insert n P)" and "view (bpin b s) = view s"
proof -
  note b = cinvD(6,7)[OF c h]
  have bn: "b < NBUF" using b by (simp add: cached_def)
  have pin: "\<not> pinned s P b" using b cached_fun n unfolding pinned_def by metis
  have k: "same_keys s (bpin b s)" by (simp add: same_keys_def bpin_def set_buf_def)
  have l: "\<exists>xs. lru (bpin b s) xs" using cinvD(1)[OF c] lru_cong[of "bpin b s" s] by (simp add: bpin_def set_buf_def)
  have "disk (bpin b s) = disk s" "pid (bpin b s) = pid s" by (simp_all add: bpin_def set_buf_def)
  note R = cinv_change[OF c l k this _ _ _ b]
  show "cinv (bpin b s) H (insert n P)" by (rule R) (use h pin cinvD(4,5)[OF c bn] in \<open>auto simp: bpin_def set_buf_def\<close>)
  show "view (bpin b s) = view s" by (rule R(2)[where H' = H and P' = "insert n P"]) (use h pin cinvD(4,5)[OF c bn] in \<open>auto simp: bpin_def set_buf_def\<close>)
qed

lemma bunpin_ok:
  assumes c: "cinv s H P" and h: "H b = Some n" and n: "n \<in> P"
  shows "cinv (bunpin b s) H (P - {n})" and "view (bunpin b s) = view s"
proof -
  note b = cinvD(6,7)[OF c h]
  have bn: "b < NBUF" using b by (simp add: cached_def)
  have pin: "pinned s P b" using b n unfolding pinned_def by metis
  have k: "same_keys s (bunpin b s)" by (simp add: same_keys_def bunpin_def set_buf_def)
  have l: "\<exists>xs. lru (bunpin b s) xs" using cinvD(1)[OF c] lru_cong[of "bunpin b s" s] by (simp add: bunpin_def set_buf_def)
  have "disk (bunpin b s) = disk s" "pid (bunpin b s) = pid s" by (simp_all add: bunpin_def set_buf_def)
  note R = cinv_change[OF c l k this _ _ _ b]
  show "cinv (bunpin b s) H (P - {n})" by (rule R) (use h pin cinvD(4,5)[OF c bn] in \<open>auto simp: bunpin_def set_buf_def\<close>)
  show "view (bunpin b s) = view s" by (rule R(2)[where H' = H and P' = "P - {n}"]) (use h pin cinvD(4,5)[OF c bn] in \<open>auto simp: bunpin_def set_buf_def\<close>)
qed

lemma bread_ok:
  assumes c: "cinv s H P" and new: "n \<notin> ran H" and room: "card (dom H) + card P < NBUF \<or> n \<in> P"
  shows "\<exists>b s'. bread ROOTDEV n s = Inr (b, s') \<and> H b = None \<and> cinv s' (H(b \<mapsto> n)) P \<and> view s' = view s \<and>
           disk s' = disk s \<and> writes s' = writes s \<and> pid s' = pid s \<and> bio.more s' = bio.more s"
proof -
  obtain b where b: "b < NBUF" "bread ROOTDEV n s = Inr (b, got s b n)" "H b = None"
    "cached s n b \<or> (\<forall>b'. \<not> cached s n b') \<and> \<not> pinned s P b"
    using bread_got[OF assms] by blast
  show ?thesis using b got_cinv[OF c b(1,3,4)] got_view[OF c b(1,3,4)] by auto
qed

section \<open>The interface of the cache\<close>

text \<open>
  What the log relies on: \<open>inv s H P\<close> as in \<^const>\<open>cinv\<close>; \<open>cur s n\<close> the current contents of block \<open>n\<close>
  and \<open>dsk s n\<close> those the device stores; \<open>hist s\<close> the writes so far; \<open>rest s\<close> what no operation
  changes. The lemmas are the block copies of the log.
\<close>

locale buffer_cache =
  fixes inv :: "'s \<Rightarrow> (nat \<rightharpoonup> uint) \<Rightarrow> uint set \<Rightarrow> bool"
    and cur :: "'s \<Rightarrow> uint \<Rightarrow> block" and dsk :: "'s \<Rightarrow> uint \<Rightarrow> block"
    and hist :: "'s \<Rightarrow> (uint \<times> block) list" and rest :: "'s \<Rightarrow> 'r"
    and ld :: "nat \<Rightarrow> 's \<Rightarrow> block" and st :: "nat \<Rightarrow> block \<Rightarrow> 's \<Rightarrow> 's"
    and rd :: "uint \<Rightarrow> 's \<Rightarrow> (nat \<times> 's) res" and wr :: "nat \<Rightarrow> 's \<Rightarrow> 's res" and rls :: "nat \<Rightarrow> 's \<Rightarrow> 's res"
    and pin :: "nat \<Rightarrow> 's \<Rightarrow> 's" and unpin :: "nat \<Rightarrow> 's \<Rightarrow> 's"
  assumes rd: "inv s H P \<Longrightarrow> n \<notin> ran H \<Longrightarrow> card (dom H) + card P < NBUF \<or> n \<in> P \<Longrightarrow>
      \<exists>b s'. rd n s = Inr (b, s') \<and> H b = None \<and> inv s' (H(b \<mapsto> n)) P \<and> cur s' = cur s \<and>
        dsk s' = dsk s \<and> hist s' = hist s \<and> rest s' = rest s"
    and ld: "inv s H P \<Longrightarrow> H b = Some n \<Longrightarrow> ld b s = cur s n"
    and st: "inv s H P \<Longrightarrow> H b = Some n \<Longrightarrow>
      inv (st b v s) H P \<and> cur (st b v s) = (cur s)(n := v) \<and>
      dsk (st b v s) = dsk s \<and> hist (st b v s) = hist s \<and> rest (st b v s) = rest s"
    and wr: "inv s H P \<Longrightarrow> H b = Some n \<Longrightarrow>
      \<exists>s'. wr b s = Inr s' \<and> inv s' H P \<and> cur s' = cur s \<and> dsk s' = (dsk s)(n := cur s n) \<and>
        hist s' = hist s @ [(n, cur s n)] \<and> rest s' = rest s"
    and rls: "inv s H P \<Longrightarrow> H b = Some n \<Longrightarrow> n \<in> P \<or> cur s n = dsk s n \<Longrightarrow>
      \<exists>s'. rls b s = Inr s' \<and> inv s' (H(b := None)) P \<and> cur s' = cur s \<and> dsk s' = dsk s \<and>
        hist s' = hist s \<and> rest s' = rest s"
    and pin: "inv s H P \<Longrightarrow> H b = Some n \<Longrightarrow> n \<notin> P \<Longrightarrow>
      inv (pin b s) H (insert n P) \<and> cur (pin b s) = cur s \<and> dsk (pin b s) = dsk s \<and>
      hist (pin b s) = hist s \<and> rest (pin b s) = rest s"
    and unpin: "inv s H P \<Longrightarrow> H b = Some n \<Longrightarrow> n \<in> P \<Longrightarrow>
      inv (unpin b s) H (P - {n}) \<and> cur (unpin b s) = cur s \<and> dsk (unpin b s) = dsk s \<and>
      hist (unpin b s) = hist s \<and> rest (unpin b s) = rest s"
    and clean: "inv s H P \<Longrightarrow> n \<notin> ran H \<Longrightarrow> n \<notin> P \<Longrightarrow> cur s n = dsk s n"
begin

text \<open>A block is written over and goes to the disk at once.\<close>

lemma rewrite_block:
  assumes i: "inv s Map.empty P" and a: "a \<notin> P" and room: "card P < NBUF"
  shows "\<exists>s'. bindE (rd a s) (\<lambda>(b, s). bindE (wr b (st b (f (ld b s)) s)) (rls b)) = Inr s' \<and>
    inv s' Map.empty P \<and> cur s' = (cur s)(a := f (cur s a)) \<and> dsk s' = (dsk s)(a := f (cur s a)) \<and>
    hist s' = hist s @ [(a, f (cur s a))] \<and> rest s' = rest s"
proof -
  obtain b s1 where 1: "rd a s = Inr (b, s1)" "inv s1 [b \<mapsto> a] P" "cur s1 = cur s" "dsk s1 = dsk s" "hist s1 = hist s" "rest s1 = rest s"
    using rd[OF i, of a] room by auto
  have l: "ld b s1 = cur s a" using ld[OF 1(2), of b a] 1 by simp
  let ?s2 = "st b (f (cur s a)) s1"
  have 2: "inv ?s2 [b \<mapsto> a] P" "cur ?s2 = (cur s)(a := f (cur s a))" "dsk ?s2 = dsk s" "hist ?s2 = hist s" "rest ?s2 = rest s"
    using st[OF 1(2), of b a] 1 by simp_all
  obtain s3 where 3: "wr b ?s2 = Inr s3" "inv s3 [b \<mapsto> a] P" "cur s3 = cur ?s2" "dsk s3 = (dsk s)(a := f (cur s a))"
    "hist s3 = hist s @ [(a, f (cur s a))]" "rest s3 = rest s"
    using wr[OF 2(1), of b a] 2 by auto
  obtain s4 where "rls b s3 = Inr s4" "inv s4 ([b \<mapsto> a](b := None)) P" "cur s4 = cur s3" "dsk s4 = dsk s3" "hist s4 = hist s3" "rest s4 = rest s3"
    using rls[OF 3(2), of b a] 2 3 by auto
  then show ?thesis using 1 2 3 l by simp
qed

text \<open>A block is copied to another one and that one goes to the disk: the round of \<^verbatim>\<open>write_log\<close>.\<close>

lemma log_block:
  assumes i: "inv s Map.empty P" and a: "a \<notin> P" "a \<noteq> c" "c \<in> P" and room: "card P < NBUF"
  shows "\<exists>s'. bindE (rd a s) (\<lambda>(to, s). bindE (rd c s) (\<lambda>(from, s).
      bindE (wr to (st to (ld from s) s)) (\<lambda>s. bindE (rls from s) (rls to)))) = Inr s' \<and>
    inv s' Map.empty P \<and> cur s' = (cur s)(a := cur s c) \<and> dsk s' = (dsk s)(a := cur s c) \<and>
    hist s' = hist s @ [(a, cur s c)] \<and> rest s' = rest s"
proof -
  obtain t s1 where 1: "rd a s = Inr (t, s1)" "inv s1 [t \<mapsto> a] P" "cur s1 = cur s" "dsk s1 = dsk s" "hist s1 = hist s" "rest s1 = rest s"
    using rd[OF i, of a] room by auto
  obtain f s2 where 2: "rd c s1 = Inr (f, s2)" "f \<noteq> t" "inv s2 [t \<mapsto> a, f \<mapsto> c] P" "cur s2 = cur s" "dsk s2 = dsk s" "hist s2 = hist s" "rest s2 = rest s"
    using rd[OF 1(2), of c] a 1 by (auto split: if_splits)
  have l: "ld f s2 = cur s c" using ld[OF 2(3), of f c] 2 by simp
  let ?s3 = "st t (cur s c) s2"
  have 3: "inv ?s3 [t \<mapsto> a, f \<mapsto> c] P" "cur ?s3 = (cur s)(a := cur s c)" "dsk ?s3 = dsk s" "hist ?s3 = hist s" "rest ?s3 = rest s"
    using st[OF 2(3), of t a] 2 by simp_all
  obtain s4 where 4: "wr t ?s3 = Inr s4" "inv s4 [t \<mapsto> a, f \<mapsto> c] P" "cur s4 = (cur s)(a := cur s c)" "dsk s4 = (dsk s)(a := cur s c)"
    "hist s4 = hist s @ [(a, cur s c)]" "rest s4 = rest s"
    using wr[OF 3(1), of t a] 2 3 by auto
  obtain s5 where 5: "rls f s4 = Inr s5" "inv s5 ([t \<mapsto> a, f \<mapsto> c](f := None)) P" "cur s5 = cur s4" "dsk s5 = dsk s4" "hist s5 = hist s4" "rest s5 = rest s4"
    using rls[OF 4(2), of f c] a by auto
  have "[t \<mapsto> a, f \<mapsto> c](f := None) = [t \<mapsto> a]" using 2(2) by (auto simp: fun_eq_iff)
  then obtain s6 where "rls t s5 = Inr s6" "inv s6 ([t \<mapsto> a](t := None)) P" "cur s6 = cur s5" "dsk s6 = dsk s5" "hist s6 = hist s5" "rest s6 = rest s5"
    using rls[of s5 "[t \<mapsto> a]" P t a] 4 5 by auto
  then show ?thesis using 1 2 3 4 5 l by simp
qed

text \<open>A block is copied to its home, which goes to the disk: the round of \<^verbatim>\<open>install_trans\<close>.\<close>

lemma install_block:
  assumes i: "inv s Map.empty P" and a: "a \<notin> P" "a \<noteq> c" and c: "u \<longrightarrow> c \<in> P" "\<not> u \<longrightarrow> P = {}" and room: "card P < NBUF"
  shows "\<exists>s'. bindE (rd a s) (\<lambda>(l, s). bindE (rd c s) (\<lambda>(d, s).
      bindE (wr d (st d (ld l s) s)) (\<lambda>s. bindE (rls l (if u then unpin d s else s)) (rls d)))) = Inr s' \<and>
    inv s' Map.empty (P - {c}) \<and> cur s' = (cur s)(c := cur s a) \<and> dsk s' = (dsk s)(c := cur s a) \<and>
    hist s' = hist s @ [(c, cur s a)] \<and> rest s' = rest s"
proof -
  obtain l s1 where 1: "rd a s = Inr (l, s1)" "inv s1 [l \<mapsto> a] P" "cur s1 = cur s" "dsk s1 = dsk s" "hist s1 = hist s" "rest s1 = rest s"
    using rd[OF i, of a] room by auto
  have "card (dom [l \<mapsto> a]) + card P < NBUF \<or> c \<in> P" using c by (cases u) simp_all
  then obtain d s2 where 2: "rd c s1 = Inr (d, s2)" "d \<noteq> l" "inv s2 [l \<mapsto> a, d \<mapsto> c] P" "cur s2 = cur s" "dsk s2 = dsk s" "hist s2 = hist s" "rest s2 = rest s"
    using rd[OF 1(2), of c] a 1 by (auto split: if_splits)
  have ll: "ld l s2 = cur s a" using ld[OF 2(3), of l a] 2 by simp
  let ?s3 = "st d (cur s a) s2"
  have 3: "inv ?s3 [l \<mapsto> a, d \<mapsto> c] P" "cur ?s3 = (cur s)(c := cur s a)" "dsk ?s3 = dsk s" "hist ?s3 = hist s" "rest ?s3 = rest s"
    using st[OF 2(3), of d c] 2 by simp_all
  obtain s4 where 4: "wr d ?s3 = Inr s4" "inv s4 [l \<mapsto> a, d \<mapsto> c] P" "cur s4 = (cur s)(c := cur s a)" "dsk s4 = (dsk s)(c := cur s a)"
    "hist s4 = hist s @ [(c, cur s a)]" "rest s4 = rest s"
    using wr[OF 3(1), of d c] 2 3 by auto
  define s5 where "s5 = (if u then unpin d s4 else s4)"
  have 5: "inv s5 [l \<mapsto> a, d \<mapsto> c] (P - {c})" "cur s5 = cur s4" "dsk s5 = dsk s4" "hist s5 = hist s4" "rest s5 = rest s4"
    using unpin[OF 4(2), of d c] 4 c by (cases u; simp add: s5_def)+
  have "cur s a = dsk s a" using clean[OF i, of a] a by simp
  then obtain s6 where 6: "rls l s5 = Inr s6" "inv s6 ([l \<mapsto> a, d \<mapsto> c](l := None)) (P - {c})" "cur s6 = cur s4" "dsk s6 = dsk s4" "hist s6 = hist s4" "rest s6 = rest s4"
    using rls[OF 5(1), of l a] 2(2) a 4 5 by auto
  have "[l \<mapsto> a, d \<mapsto> c](l := None) = [d \<mapsto> c]" using 2(2) by (auto simp: fun_eq_iff)
  then obtain s7 where "rls d s6 = Inr s7" "inv s7 ([d \<mapsto> c](d := None)) (P - {c})" "cur s7 = cur s6" "dsk s7 = dsk s6" "hist s7 = hist s6" "rest s7 = rest s6"
    using rls[of s6 "[d \<mapsto> c]" "P - {c}" d c] 4 6 by auto
  then show ?thesis using 1 2 3 4 6 ll unfolding s5_def by simp
qed

end

lemma view_clean:
  assumes c: "cinv s H P" and n: "n \<notin> ran H" "n \<notin> P"
  shows "view s n = disk s n"
proof (cases "\<exists>b. cached s n b \<and> valid (bufs s b)")
  case True
  then obtain b where b: "cached s n b" "valid (bufs s b)" by blast
  then have "H b = None" using cinvD(6)[OF c] n(1) cached_fun by (metis option.exhaust ranI)
  then show ?thesis using view_cached[OF cinvD(2)[OF c] b] cinvD(9)[OF c b] n by simp
next
  case False
  then show ?thesis by (intro view_disk) blast
qed

definition set_data :: "nat \<Rightarrow> block \<Rightarrow> 'a bio_scheme \<Rightarrow> 'a bio_scheme" where
  "set_data b v s = set_buf b (data_update (\<lambda>_. v)) s"

lemma in_place_simps [simp]:
  "disk (bpin b s) = disk s" "writes (bpin b s) = writes s" "pid (bpin b s) = pid s" "bio.more (bpin b s) = bio.more s"
  "disk (bunpin b s) = disk s" "writes (bunpin b s) = writes s" "pid (bunpin b s) = pid s" "bio.more (bunpin b s) = bio.more s"
  "disk (set_data b v s) = disk s" "writes (set_data b v s) = writes s" "pid (set_data b v s) = pid s"
  "bio.more (set_data b v s) = bio.more s"
  by (simp_all add: bpin_def bunpin_def set_data_def set_buf_def)

interpretation bc: buffer_cache cinv view disk writes "\<lambda>s. (pid s, bio.more s)" "\<lambda>b s. data (bufs s b)" set_data
  "bread ROOTDEV" bwrite brelse bpin bunpin
proof (unfold_locales, goal_cases)
  case (1 s H P n)
  then show ?case using bread_ok[OF 1] by auto
next
  case (2 s H P b n)
  then show ?case using view_cached[OF cinvD(2)[OF 2(1)] cinvD(6,7)[OF 2]] by simp
next
  case (3 s H P b n v)
  then show ?case using set_data_ok[OF 3] by (simp add: set_data_def[symmetric])
next
  case (4 s H P b n)
  then show ?case using bwrite_ok[OF 4] by simp
next
  case (5 s H P b n)
  then show ?case using brelse_ok[OF 5] by auto
next
  case (6 s H P b n)
  then show ?case using bpin_ok[OF 6] by simp
next
  case (7 s H P b n)
  then show ?case using bunpin_ok[OF 7] by simp
next
  case (8 s H P n)
  then show ?case by (rule view_clean)
qed

section \<open>Booting\<close>

text \<open>The buffers are zero when the kernel starts.\<close>

definition zero_buf :: buf where
  "zero_buf = \<lparr>valid = False, dev = 0, blockno = 0, holder = None, refcnt = 0, data = (\<lambda>_. 0)\<rparr>"

lemma binit_loop_bufs:
  "\<forall>b. bufs s b = zero_buf \<Longrightarrow> bufs (binit_loop bs s) b = zero_buf"
  by (induction bs arbitrary: s) (auto simp: Let_def set_buf_def zero_buf_def)

lemma binit_loop_rest:
  "disk (binit_loop bs s) = disk s \<and> writes (binit_loop bs s) = writes s \<and> pid (binit_loop bs s) = pid s \<and>
   bio.more (binit_loop bs s) = bio.more s"
  by (induction bs arbitrary: s) (simp_all add: Let_def set_buf_def)

lemma binit_simps [simp]:
  "disk (binit s) = disk s" "writes (binit s) = writes s" "pid (binit s) = pid s" "bio.more (binit s) = bio.more s"
  by (simp_all add: binit_def binit_loop_rest)

lemma binit_cinv:
  assumes "\<forall>b. bufs s b = zero_buf"
  shows "cinv (binit s) Map.empty {}" and "view (binit s) = disk s"
proof -
  have b: "bufs (binit s) b = zero_buf" for b unfolding binit_def by (rule binit_loop_bufs) (simp add: assms)
  have n: "\<not> cached (binit s) m b" for m b by (simp add: cached_def b zero_buf_def)
  show "cinv (binit s) Map.empty {}"
    unfolding cinv_def using binit_lru by (auto simp: b n uniq_def pinned_def zero_buf_def)
  show "view (binit s) = disk s" by (rule ext) (metis view_disk n binit_simps(1))
qed

section \<open>Properties\<close>

text \<open>C24. Under the cache invariant, with a buffer neither held nor pinned or the block pinned,
  \<^verbatim>\<open>bread\<close> returns a locked buffer holding the block's current contents and keeps the invariant and
  every block's contents; when the block is in no buffer and every buffer is in use it panics.\<close>

theorem bread_correct:
  assumes "cinv s H P" and "n \<notin> ran H"
  shows "(card (dom H) + card P < NBUF \<or> n \<in> P \<longrightarrow>
      (\<exists>b s'. bread ROOTDEV n s = Inr (b, s') \<and> data (bufs s' b) = view s n \<and> holdingsleep b s' \<and> H b = None \<and>
         cinv s' (H(b \<mapsto> n)) P \<and> view s' = view s \<and> disk s' = disk s)) \<and>
    ((\<forall>b < NBUF. \<not> cached s n b \<and> refcnt (bufs s b) \<noteq> 0) \<longrightarrow> bread ROOTDEV n s = Inl (Panic ''bget: no buffers''))"
proof (intro conjI impI)
  assume "card (dom H) + card P < NBUF \<or> n \<in> P"
  then obtain b where b: "b < NBUF" "bread ROOTDEV n s = Inr (b, got s b n)" "H b = None"
    "cached s n b \<or> (\<forall>b'. \<not> cached s n b') \<and> \<not> pinned s P b"
    using bread_got[OF assms] by blast
  then show "\<exists>b s'. bread ROOTDEV n s = Inr (b, s') \<and> data (bufs s' b) = view s n \<and> holdingsleep b s' \<and> H b = None \<and>
         cinv s' (H(b \<mapsto> n)) P \<and> view s' = view s \<and> disk s' = disk s"
    using got_cinv[OF assms(1) b(1,3,4)] got_view[OF assms(1) b(1,3,4)] by (intro exI[of _ b] exI[of _ "got s b n"]) (simp add: holdingsleep_def)
next
  assume a: "\<forall>b < NBUF. \<not> cached s n b \<and> refcnt (bufs s b) \<noteq> 0"
  obtain xs where l: "lru s xs" using cinvD(1)[OF assms(1)] by blast
  have "find (\<lambda>b. dev (bufs s b) = ROOTDEV \<and> blockno (bufs s b) = n) xs = None"
    "find (\<lambda>b. refcnt (bufs s b) = 0) (rev xs) = None"
    using a lruD(5)[OF l] by (auto simp: find_None_iff cached_def)
  then show "bread ROOTDEV n s = Inl (Panic ''bget: no buffers'')" by (simp add: bread_def bget_lru[OF l])
qed

text \<open>The cache just after boot, with block 7 holding sevens.\<close>

definition bio_boot :: bio where
  "bio_boot = binit \<lparr>bufs = (\<lambda>_. zero_buf), bnext = (\<lambda>_. 0), bprev = (\<lambda>_. 0), disk = (\<lambda>n. if n = 7 then (\<lambda>_. 7) else (\<lambda>_. 0)), writes = [], pid = 1\<rparr>"

lemma bio_boot_ok: "cinv bio_boot Map.empty {}" "view bio_boot = (\<lambda>n. if n = 7 then (\<lambda>_. 7) else (\<lambda>_. 0))"
  unfolding bio_boot_def by (rule binit_cinv, simp, subst binit_cinv, simp_all)

theorem bread_correct_witness: "\<exists>b s'. bread ROOTDEV 7 bio_boot = Inr (b, s') \<and> data (bufs s' b) = (\<lambda>_. 7)"
  using bread_correct[OF bio_boot_ok(1), of 7] by (auto simp: bio_boot_ok(2))

text \<open>C25. On a list of buffers in order of use, \<^verbatim>\<open>brelse\<close> of the last reference makes the buffer the
  most recently used one, and \<^verbatim>\<open>bget\<close> of a block in no buffer then takes the least recently used buffer
  without references: the cache replaces in LRU order.\<close>

theorem bcache_lru:
  assumes "lru s xs" and "b < NBUF" and "holdingsleep b s" and "refcnt (bufs s b) = 1"
  shows "\<exists>s'. brelse b s = Inr s' \<and> lru s' (b # remove1 b xs) \<and>
    (\<forall>d n. (\<forall>c < NBUF. \<not> (dev (bufs s' c) = d \<and> blockno (bufs s' c) = n)) \<longrightarrow>
       (\<forall>ys c zs. b # remove1 b xs = ys @ c # zs \<and> refcnt (bufs s' c) = 0 \<and> holder (bufs s' c) = None \<and>
          (\<forall>z \<in> set zs. refcnt (bufs s' z) \<noteq> 0) \<longrightarrow>
          (\<exists>s''. bget d n s' = Inr (c, s'') \<and> \<not> valid (bufs s'' c) \<and> dev (bufs s'' c) = d \<and> blockno (bufs s'' c) = n)))"
proof -
  let ?t = "set_buf b (\<lambda>x. x\<lparr>refcnt := refcnt x - 1\<rparr>) (releasesleep b s)"
  have eq: "brelse b s = Inr (brelse_front b ?t)"
    using assms(3,4) by (simp add: brelse_def Let_def set_buf_def releasesleep_def)
  have "lru ?t xs" using assms(1) lru_cong[of ?t s] by (simp add: set_buf_def releasesleep_def)
  then have l: "lru (brelse_front b ?t) (b # remove1 b xs)" using brelse_front_lru assms(2) by blast
  show ?thesis
  proof (rule exI[of _ "brelse_front b ?t"], intro conjI eq l allI impI)
    fix d n ys c zs
    define s' where "s' = brelse_front b ?t"
    assume no: "\<forall>c < NBUF. \<not> (dev (bufs (brelse_front b ?t) c) = d \<and> blockno (bufs (brelse_front b ?t) c) = n)"
      and c: "b # remove1 b xs = ys @ c # zs \<and> refcnt (bufs (brelse_front b ?t) c) = 0 \<and> holder (bufs (brelse_front b ?t) c) = None \<and>
          (\<forall>z \<in> set zs. refcnt (bufs (brelse_front b ?t) z) \<noteq> 0)"
    note l' = l[folded s'_def] and no' = no[folded s'_def] and c' = c[folded s'_def]
    have "find (\<lambda>b. dev (bufs s' b) = d \<and> blockno (bufs s' b) = n) (b # remove1 b xs) = None"
      using no' lruD(5)[OF l'] by (auto simp: find_None_iff)
    moreover have "find (\<lambda>b. refcnt (bufs s' b) = 0) (rev zs) = None" using c' by (auto simp: find_None_iff)
    then have "find (\<lambda>b. refcnt (bufs s' b) = 0) (rev (b # remove1 b xs)) = Some c"
      using c' by (simp add: find_append)
    ultimately show "\<exists>s''. bget d n (brelse_front b ?t) = Inr (c, s'') \<and> \<not> valid (bufs s'' c) \<and> dev (bufs s'' c) = d \<and> blockno (bufs s'' c) = n"
      using c' unfolding s'_def[symmetric] by (simp add: bget_lru[OF l'] acquiresleep_def set_buf_def)
  qed
qed

theorem bcache_lru_witness:
  "lru (got bio_boot 0 7) (rev [0..<NBUF]) \<and>
   (\<exists>s'. brelse 0 (got bio_boot 0 7) = Inr s' \<and> lru s' (0 # remove1 0 (rev [0..<NBUF])))"
proof -
  have l: "lru (got bio_boot 0 7) (rev [0..<NBUF])"
    using lru_cong[of "got bio_boot 0 7" bio_boot] binit_lru by (simp add: bio_boot_def)
  have "bufs bio_boot 0 = zero_buf" unfolding bio_boot_def binit_def by (rule binit_loop_bufs) simp
  then have "holdingsleep 0 (got bio_boot 0 7)" "refcnt (bufs (got bio_boot 0 7) 0) = 1"
    by (simp_all add: holdingsleep_def zero_buf_def)
  then show ?thesis using l bcache_lru[OF l, of 0] by auto
qed

end
