(* ===== verification/Log.thy ===== *)
theory Log
  imports Bio "HOL-Library.Sublist"
begin

text \<open>
  \<^verbatim>\<open>kernel/log.c\<close>: the write-ahead log. A transaction's blocks stay pinned in the cache until
  \<^verbatim>\<open>commit\<close> has copied them to the log and written the header that names them. The state extends
  that of the cache. Block numbers are \<^typ>\<open>uint\<close>s, as they are stored; the counters of type
  \<^verbatim>\<open>int\<close> are integers, which all stay far below their width. A call of \<^verbatim>\<open>sleep\<close> is
  the result \<open>Sleeping\<close>, to be tried again; \<^verbatim>\<open>wakeup\<close> changes nothing here. \<^verbatim>\<open>memmove\<close> of
  \<^verbatim>\<open>BSIZE\<close> bytes copies a buffer's data.
\<close>

section \<open>State and operations\<close>

abbreviation BSIZE :: nat where "BSIZE \<equiv> 1024"
abbreviation MAXOPBLOCKS :: int where "MAXOPBLOCKS \<equiv> 10"
abbreviation LOGSIZE :: int where "LOGSIZE \<equiv> 30"

record superblock =
  magic :: uint
  fssize :: uint
  nblocks :: uint
  ninodes :: uint
  nlog :: uint
  logstart :: uint
  inodestart :: uint
  bmapstart :: uint

record log = bio +
  lstart :: uint
  lsize :: int
  outstanding :: int
  committing :: bool
  ldev :: uint
  lh_n :: int
  lh_block :: "uint list"

text \<open>\<^verbatim>\<open>log.lh.block[i]\<close>, an array of \<^verbatim>\<open>LOGSIZE\<close> elements.\<close>

definition block_at :: "nat \<Rightarrow> 'a log_scheme \<Rightarrow> uint res" where
  "block_at i s = (if i < length (lh_block s) then Inr (lh_block s ! i) else Inl Undefined)"

definition set_block :: "nat \<Rightarrow> uint \<Rightarrow> 'a log_scheme \<Rightarrow> 'a log_scheme res" where
  "set_block i n s = (if i < length (lh_block s) then Inr (s\<lparr>lh_block := (lh_block s)[i := n]\<rparr>) else Inl Undefined)"

definition install_round :: "bool \<Rightarrow> nat \<Rightarrow> 'a log_scheme \<Rightarrow> 'a log_scheme res" where
  "install_round recovering tail s =
     bindE (bread (ldev s) (lstart s + of_nat tail + 1) s) (\<lambda>(lbuf, s).
     bindE (block_at tail s) (\<lambda>n.
     bindE (bread (ldev s) n s) (\<lambda>(dbuf, s).
     bindE (bwrite dbuf (set_data dbuf (data (bufs s lbuf)) s)) (\<lambda>s.
     bindE (brelse lbuf (if \<not> recovering then bunpin dbuf s else s)) (brelse dbuf)))))"

definition install_trans :: "bool \<Rightarrow> 'a log_scheme \<Rightarrow> 'a log_scheme res" where
  "install_trans recovering s = foldE (install_round recovering) [0..<nat (lh_n s)] s"

text \<open>The header block: \<^verbatim>\<open>n\<close> at offset 0 and \<^verbatim>\<open>block[i]\<close> at offset \<open>4 + 4 * i\<close>.\<close>

definition read_head :: "'a log_scheme \<Rightarrow> 'a log_scheme res" where
  "read_head s =
     bindE (bread (ldev s) (lstart s) s) (\<lambda>(b, s).
       let lh = data (bufs s b);
           s = s\<lparr>lh_n := sint (get32 lh 0)\<rparr>
       in bindE (foldE (\<lambda>i. set_block i (get32 lh (4 + 4 * i))) [0..<nat (lh_n s)] s) (brelse b))"

definition write_head :: "'a log_scheme \<Rightarrow> 'a log_scheme res" where
  "write_head s =
     bindE (bread (ldev s) (lstart s) s) (\<lambda>(b, s).
     bindE (foldE (\<lambda>i hb. bindE (block_at i s) (\<lambda>n. Inr (put32 hb (4 + 4 * i) n)))
              [0..<nat (lh_n s)] (put32 (data (bufs s b)) 0 (word_of_int (lh_n s)))) (\<lambda>hb.
     bindE (bwrite b (set_data b hb s)) (brelse b)))"

definition recover_from_log :: "'a log_scheme \<Rightarrow> 'a log_scheme res" where
  "recover_from_log s =
     bindE (read_head s) (\<lambda>s.
     bindE (install_trans True s) (\<lambda>s.
     write_head (s\<lparr>lh_n := 0\<rparr>)))"

definition initlog :: "uint \<Rightarrow> superblock \<Rightarrow> 'a log_scheme \<Rightarrow> 'a log_scheme res" where
  "initlog d sb s =
     (if 4 + 4 * nat LOGSIZE \<ge> BSIZE then Inl (Panic ''initlog: too big logheader'')
      else recover_from_log (s\<lparr>lstart := logstart sb, lsize := sint (nlog sb), ldev := d\<rparr>))"

definition begin_op :: "'a log_scheme \<Rightarrow> 'a log_scheme res" where
  "begin_op s =
     (if committing s then Inl Sleeping
      else if lh_n s + (outstanding s + 1) * MAXOPBLOCKS > LOGSIZE then Inl Sleeping
      else Inr (s\<lparr>outstanding := outstanding s + 1\<rparr>))"

definition write_log_round :: "nat \<Rightarrow> 'a log_scheme \<Rightarrow> 'a log_scheme res" where
  "write_log_round tail s =
     bindE (bread (ldev s) (lstart s + of_nat tail + 1) s) (\<lambda>(to, s).
     bindE (block_at tail s) (\<lambda>n.
     bindE (bread (ldev s) n s) (\<lambda>(from, s).
     bindE (bwrite to (set_data to (data (bufs s from)) s)) (\<lambda>s.
     bindE (brelse from s) (brelse to)))))"

definition write_log :: "'a log_scheme \<Rightarrow> 'a log_scheme res" where
  "write_log s = foldE write_log_round [0..<nat (lh_n s)] s"

definition commit :: "'a log_scheme \<Rightarrow> 'a log_scheme res" where
  "commit s =
     (if lh_n s > 0 then
        bindE (write_log s) (\<lambda>s.
        bindE (write_head s) (\<lambda>s.
        bindE (install_trans False s) (\<lambda>s.
        write_head (s\<lparr>lh_n := 0\<rparr>))))
      else Inr s)"

definition end_op :: "'a log_scheme \<Rightarrow> 'a log_scheme res" where
  "end_op s =
     (let s = s\<lparr>outstanding := outstanding s - 1\<rparr> in
      if committing s then Inl (Panic ''log.committing'')
      else if outstanding s = 0 then
        bindE (commit (s\<lparr>committing := True\<rparr>)) (\<lambda>s. Inr (s\<lparr>committing := False\<rparr>))
      else Inr s)"

text \<open>The loop of \<^verbatim>\<open>log_write\<close>: the index of the block among the first \<open>n\<close>, else \<open>n\<close>.\<close>

definition absorb_index :: "uint \<Rightarrow> 'a log_scheme \<Rightarrow> nat" where
  "absorb_index n s = length (takeWhile (\<lambda>m. m \<noteq> n) (take (nat (lh_n s)) (lh_block s)))"

definition log_write :: "nat \<Rightarrow> 'a log_scheme \<Rightarrow> 'a log_scheme res" where
  "log_write b s =
     (if lh_n s \<ge> LOGSIZE \<or> lh_n s \<ge> lsize s - 1 then Inl (Panic ''too big a transaction'')
      else if outstanding s < 1 then Inl (Panic ''log_write outside of trans'')
      else
        let n = blockno (bufs s b); i = absorb_index n s in
        bindE (set_block i n s) (\<lambda>s.
          if int i = lh_n s then Inr ((bpin b s)\<lparr>lh_n := lh_n s + 1\<rparr>) else Inr s))"

section \<open>The blocks of a transaction\<close>

definition blocks :: "'a log_scheme \<Rightarrow> uint list" where
  "blocks s = take (nat (lh_n s)) (lh_block s)"

text \<open>The operations of the cache leave the fields of the log alone.\<close>

lemma log_rest:
  assumes "(pid s', bio.more s') = (pid s, bio.more s)"
  shows "lstart s' = lstart s" "lsize s' = lsize s" "outstanding s' = outstanding s" "committing s' = committing s"
    "ldev s' = ldev s" "lh_n s' = lh_n s" "lh_block s' = lh_block s" "log.more s' = log.more s" "pid s' = pid s" "blocks s' = blocks s"
  using assms by (cases s; cases s'; simp add: blocks_def)+

lemma bget_more: "bget d n s = Inr (b, s') \<Longrightarrow> (pid s', bio.more s') = (pid s, bio.more s)"
  by (auto simp: bget_def acquiresleep_def set_buf_def Let_def split: option.splits if_splits)

lemma bread_more: "bread d n s = Inr (b, s') \<Longrightarrow> (pid s', bio.more s') = (pid s, bio.more s)"
  by (auto simp: bread_def set_buf_def disk_read_def split: if_splits dest!: bget_more)

lemma install_round_eq:
  assumes d: "ldev s = ROOTDEV" and i: "i < length (lh_block s)" and c: "c = lh_block s ! i"
  shows "install_round rec i s =
    bindE (bread ROOTDEV (lstart s + of_nat i + 1) s) (\<lambda>(l, s).
      bindE (bread ROOTDEV c s) (\<lambda>(d, s).
      bindE (bwrite d (set_data d (data (bufs s l)) s)) (\<lambda>s.
      bindE (brelse l (if \<not> rec then bunpin d s else s)) (brelse d))))"
  unfolding install_round_def d
proof (rule bindE_cong[OF refl], clarify)
  fix l t assume "bread ROOTDEV (lstart s + of_nat i + 1) s = Inr (l, t)"
  note R = log_rest[OF bread_more[OF this]]
  show "bindE (block_at i t) (\<lambda>n. bindE (bread (ldev t) n t) (\<lambda>(d, s).
      bindE (bwrite d (set_data d (data (bufs s l)) s)) (\<lambda>s. bindE (brelse l (if \<not> rec then bunpin d s else s)) (brelse d)))) =
    bindE (bread ROOTDEV c t) (\<lambda>(d, s).
      bindE (bwrite d (set_data d (data (bufs s l)) s)) (\<lambda>s. bindE (brelse l (if \<not> rec then bunpin d s else s)) (brelse d)))"
    using d i c R by (simp add: block_at_def)
qed

lemma write_log_round_eq:
  assumes d: "ldev s = ROOTDEV" and i: "i < length (lh_block s)" and c: "c = lh_block s ! i"
  shows "write_log_round i s =
    bindE (bread ROOTDEV (lstart s + of_nat i + 1) s) (\<lambda>(to, s).
      bindE (bread ROOTDEV c s) (\<lambda>(from, s).
      bindE (bwrite to (set_data to (data (bufs s from)) s)) (\<lambda>s.
      bindE (brelse from s) (brelse to))))"
  unfolding write_log_round_def d
proof (rule bindE_cong[OF refl], clarify)
  fix l t assume "bread ROOTDEV (lstart s + of_nat i + 1) s = Inr (l, t)"
  note R = log_rest[OF bread_more[OF this]]
  show "bindE (block_at i t) (\<lambda>n. bindE (bread (ldev t) n t) (\<lambda>(from, s).
      bindE (bwrite l (set_data l (data (bufs s from)) s)) (\<lambda>s. bindE (brelse from s) (brelse l)))) =
    bindE (bread ROOTDEV c t) (\<lambda>(from, s).
      bindE (bwrite l (set_data l (data (bufs s from)) s)) (\<lambda>s. bindE (brelse from s) (brelse l)))"
    using d i c R by (simp add: block_at_def)
qed

text \<open>The log's part of the disk, and what a series of block writes does to a disk.\<close>

definition log_area :: "uint \<Rightarrow> int \<Rightarrow> uint set" where
  "log_area st sz = (\<lambda>i. st + of_nat i) ` {..<nat sz}"

definition larea :: "'a log_scheme \<Rightarrow> uint set" where
  "larea s = log_area (lstart s) (lsize s)"

definition apply_writes :: "(uint \<times> block) list \<Rightarrow> (uint \<Rightarrow> block) \<Rightarrow> uint \<Rightarrow> block" where
  "apply_writes ws d = fold (\<lambda>(n, v) d. d(n := v)) ws d"

lemma apply_writes_simps [simp]:
  "apply_writes [] d = d"
  "apply_writes (ws @ ws') d = apply_writes ws' (apply_writes ws d)"
  "apply_writes ((n, v) # ws) d = apply_writes ws (d(n := v))"
  by (simp_all add: apply_writes_def)

lemma apply_writes_other: "n \<notin> fst ` set ws \<Longrightarrow> apply_writes ws d n = d n"
  by (induction ws rule: rev_induct) auto

lemma in_larea: "Suc i < nat (lsize s) \<Longrightarrow> lstart s + of_nat i + 1 \<in> larea s"
  unfolding larea_def log_area_def by (rule image_eqI[of _ _ "Suc i"]) simp_all

text \<open>The log with a transaction under way: its blocks are those pinned in the cache.\<close>

definition lgood :: "'a log_scheme \<Rightarrow> bool" where
  "lgood s \<longleftrightarrow> ldev s = ROOTDEV \<and> length (lh_block s) = 30 \<and> 0 \<le> lh_n s \<and> lh_n s < lsize s \<and> lsize s \<le> 30 \<and>
     set (blocks s) \<inter> larea s = {}"

definition linv :: "'a log_scheme \<Rightarrow> (nat \<rightharpoonup> uint) \<Rightarrow> bool" where
  "linv s H \<longleftrightarrow> lgood s \<and> distinct (blocks s) \<and> cinv s H (set (blocks s)) \<and> get32 (disk s (lstart s)) 0 = 0 \<and> ran H \<inter> larea s = {}"

lemma lgoodD:
  assumes "lgood s"
  shows "ldev s = ROOTDEV" "length (lh_block s) = 30" "0 \<le> lh_n s" "lh_n s < lsize s" "lsize s \<le> 30"
    "length (blocks s) = nat (lh_n s)" "nat (lh_n s) < 30"
    "i < nat (lh_n s) \<Longrightarrow> i < length (lh_block s) \<and> lh_block s ! i = blocks s ! i \<and> blocks s ! i \<in> set (blocks s)"
    "i < nat (lh_n s) \<Longrightarrow> lstart s + of_nat i + 1 \<in> larea s"
    "n \<in> set (blocks s) \<Longrightarrow> n \<notin> larea s" "lstart s \<in> larea s" "lstart s \<notin> set (blocks s)"
proof -
  show a: "ldev s = ROOTDEV" "length (lh_block s) = 30" "0 \<le> lh_n s" "lh_n s < lsize s" "lsize s \<le> 30"
    and b: "length (blocks s) = nat (lh_n s)" "nat (lh_n s) < 30" "n \<in> set (blocks s) \<Longrightarrow> n \<notin> larea s"
    using assms by (auto simp: lgood_def blocks_def)
  show "i < nat (lh_n s) \<Longrightarrow> i < length (lh_block s) \<and> lh_block s ! i = blocks s ! i \<and> blocks s ! i \<in> set (blocks s)"
    using a b(1,2) nth_mem[of i "blocks s"] by (simp add: blocks_def)
  show "i < nat (lh_n s) \<Longrightarrow> lstart s + of_nat i + 1 \<in> larea s" using a by (intro in_larea) simp
  show st: "lstart s \<in> larea s" unfolding larea_def log_area_def by (rule image_eqI[of _ _ 0]) (use a in simp_all)
  show "lstart s \<notin> set (blocks s)" using st assms by (auto simp: lgood_def)
qed

lemma lgood_rest:
  assumes "(pid s', bio.more s') = (pid s, bio.more s)"
  shows "lgood s' = lgood s" "larea s' = larea s"
  using log_rest[OF assms] by (simp_all add: lgood_def larea_def)

lemma card_blocks: "lgood s \<Longrightarrow> card (set (blocks s)) < NBUF"
  using card_length[of "blocks s"] lgoodD(6,7)[of s] by linarith

lemma write_log_ok:
  assumes g: "lgood s" and c: "cinv s Map.empty (set (blocks s))" and k: "k \<le> nat (lh_n s)"
  defines "ws \<equiv> map (\<lambda>i. (lstart s + of_nat i + 1, view s (blocks s ! i))) [0..<k]"
  shows "\<exists>s'. foldE write_log_round [0..<k] s = Inr s' \<and> cinv s' Map.empty (set (blocks s)) \<and>
    view s' = apply_writes ws (view s) \<and> disk s' = apply_writes ws (disk s) \<and> writes s' = writes s @ ws \<and>
    (pid s', bio.more s') = (pid s, bio.more s)"
  using k unfolding ws_def
proof (induction k)
  case 0
  show ?case using c by simp
next
  case (Suc k)
  let ?ws = "map (\<lambda>i. (lstart s + of_nat i + 1, view s (blocks s ! i))) [0..<k]"
  obtain t where t: "foldE write_log_round [0..<k] s = Inr t" "cinv t Map.empty (set (blocks s))"
    "view t = apply_writes ?ws (view s)" "disk t = apply_writes ?ws (disk s)" "writes t = writes s @ ?ws"
    "(pid t, bio.more t) = (pid s, bio.more s)" using Suc by auto
  note R = log_rest[OF t(6)] and L = lgoodD[OF g]
  let ?a = "lstart s + of_nat k + 1" and ?c = "blocks s ! k"
  have kn: "k < nat (lh_n s)" using Suc.prems by simp
  have a: "?a \<notin> set (blocks s)" "?a \<noteq> ?c" "?c \<in> set (blocks s)" using L(8-10) kn by metis+
  have "?c \<notin> fst ` set ?ws" using L(8-10) kn by auto (metis less_trans)
  then have v: "view t ?c = view s ?c" using t(3) by (simp add: apply_writes_other)
  have "write_log_round k t = bindE (bread ROOTDEV ?a t) (\<lambda>(to, s). bindE (bread ROOTDEV ?c s) (\<lambda>(from, s).
      bindE (bwrite to (set_data to (data (bufs s from)) s)) (\<lambda>s. bindE (brelse from s) (brelse to))))"
    using write_log_round_eq[of t k ?c] R L(1,8) kn by simp
  then show ?case using bc.log_block[OF t(2) a card_blocks[OF g]] t v by (auto simp: foldE_append)
qed

lemma install_ok:
  assumes g: "lgood s" and c: "cinv s Map.empty (if rec then {} else set (blocks s))" and d: "rec \<or> distinct (blocks s)"
    and k: "k \<le> nat (lh_n s)"
  defines "ws \<equiv> map (\<lambda>i. (blocks s ! i, view s (lstart s + of_nat i + 1))) [0..<k]"
  shows "\<exists>s'. foldE (install_round rec) [0..<k] s = Inr s' \<and> cinv s' Map.empty (if rec then {} else set (drop k (blocks s))) \<and>
    view s' = apply_writes ws (view s) \<and> disk s' = apply_writes ws (disk s) \<and> writes s' = writes s @ ws \<and>
    (pid s', bio.more s') = (pid s, bio.more s)"
  using k unfolding ws_def
proof (induction k)
  case 0
  show ?case using c by (simp split: if_splits)
next
  case (Suc k)
  let ?ws = "map (\<lambda>i. (blocks s ! i, view s (lstart s + of_nat i + 1))) [0..<k]"
  let ?P = "if rec then {} else set (drop k (blocks s))"
  obtain t where t: "foldE (install_round rec) [0..<k] s = Inr t" "cinv t Map.empty ?P"
    "view t = apply_writes ?ws (view s)" "disk t = apply_writes ?ws (disk s)" "writes t = writes s @ ?ws"
    "(pid t, bio.more t) = (pid s, bio.more s)" using Suc by auto
  note R = log_rest[OF t(6)] and L = lgoodD[OF g]
  let ?a = "lstart s + of_nat k + 1" and ?c = "blocks s ! k"
  have kn: "k < nat (lh_n s)" using Suc.prems by simp
  then have kl: "k < length (blocks s)" using L(6) by simp
  have sub: "?P \<subseteq> set (blocks s)" by (auto dest: in_set_dropD)
  have a: "?a \<notin> ?P" "?a \<noteq> ?c" using L(8-10) kn sub by (blast, metis)
  have dr: "drop k (blocks s) = ?c # drop (Suc k) (blocks s)" using kl by (simp add: Cons_nth_drop_Suc)
  have cP: "\<not> rec \<longrightarrow> ?c \<in> ?P" and nP: "\<not> \<not> rec \<longrightarrow> ?P = {}" using dr by simp_all
  have P': "?P - {?c} = (if rec then {} else set (drop (Suc k) (blocks s)))"
    using d distinct_drop[of "blocks s" k] dr by auto
  have room: "card ?P < NBUF" using card_mono[OF _ sub] card_blocks[OF g] by auto
  have "?a \<notin> fst ` set ?ws" using L(8-10) kn by auto (metis less_trans)
  then have v: "view t ?a = view s ?a" using t(3) by (simp add: apply_writes_other)
  have "install_round rec k t = bindE (bread ROOTDEV ?a t) (\<lambda>(l, s). bindE (bread ROOTDEV ?c s) (\<lambda>(d, s).
      bindE (bwrite d (set_data d (data (bufs s l)) s)) (\<lambda>s. bindE (brelse l (if \<not> rec then bunpin d s else s)) (brelse d))))"
    using install_round_eq[of t k ?c] R L(1,8) kn by simp
  note E = bc.install_block[OF t(2) a cP nP room, folded this]
  obtain s' where "install_round rec k t = Inr s'"
    "cinv s' Map.empty (?P - {?c})" "view s' = (view t)(?c := view t ?a)" "disk s' = (disk t)(?c := view t ?a)"
    "writes s' = writes t @ [(?c, view t ?a)]" "(pid s', bio.more s') = (pid t, bio.more t)"
    using E by (elim exE conjE) (rule that)
  then show ?case using t v unfolding P' by (intro exI[of _ s']) (simp add: foldE_append)
qed

section \<open>The header\<close>

definition hdr :: "uint list \<Rightarrow> block \<Rightarrow> block" where
  "hdr bs v = fold (\<lambda>i v. put32 v (4 + 4 * i) (bs ! i)) [0..<length bs] (put32 v 0 (of_nat (length bs)))"

definition hdr_blocks :: "block \<Rightarrow> uint list" where
  "hdr_blocks v = map (\<lambda>i. get32 v (4 + 4 * i)) [0..<nat (sint (get32 v 0))]"

lemma put_blocks:
  "get32 (fold (\<lambda>i v. put32 v (4 + 4 * i) (bs ! i)) [0..<k] v) 0 = get32 v 0 \<and>
   (\<forall>i < k. get32 (fold (\<lambda>i v. put32 v (4 + 4 * i) (bs ! i)) [0..<k] v) (4 + 4 * i) = bs ! i)"
proof (induction k)
  case (Suc k)
  have "get32 (put32 w (4 + 4 * k) x) (4 + 4 * i) = (if i = k then x else get32 w (4 + 4 * i))" for w x i
  proof (cases "i = k")
    case False
    then have "4 + 4 * k + 4 \<le> 4 + 4 * i \<or> 4 + 4 * i + 4 \<le> 4 + 4 * k" by linarith
    then show ?thesis using False by (simp only: get_put_other if_False)
  qed simp
  then show ?case using Suc by (auto simp: less_Suc_eq)
qed simp

lemma hdr_get: "get32 (hdr bs v) 0 = of_nat (length bs)" "i < length bs \<Longrightarrow> get32 (hdr bs v) (4 + 4 * i) = bs ! i"
  using put_blocks[of bs "length bs" "put32 v 0 (of_nat (length bs))"] by (simp_all add: hdr_def)

lemma sint_nat_small:
  assumes "n < 2 ^ 31"
  shows "sint (of_nat n :: uint) = int n"
proof -
  have "unat (of_nat n :: uint) = n" using assms by (intro unat_of_nat_small) simp
  then have u: "uint (of_nat n :: uint) = int n" unfolding uint_nat by simp
  then have "sint (of_nat n :: uint) = uint (of_nat n :: uint)" by (intro sint_small) (use assms in simp)
  then show ?thesis using u by (rule trans)
qed

lemma hdr_blocks_hdr: "length bs < 2 ^ 31 \<Longrightarrow> hdr_blocks (hdr bs v) = bs"
  by (rule nth_equalityI) (simp_all add: hdr_blocks_def hdr_get sint_nat_small)

lemma hdr_blocks_zero: "get32 v 0 = 0 \<Longrightarrow> hdr_blocks v = []"
  by (simp add: hdr_blocks_def)

text \<open>The cache does not depend on the fields of the log.\<close>

lemma cached_log [simp]:
  "cached (lstart_update f1 s) = cached s" "cached (lsize_update f2 s) = cached s" "cached (outstanding_update f3 s) = cached s"
  "cached (committing_update f4 s) = cached s" "cached (ldev_update f5 s) = cached s" "cached (lh_n_update f6 s) = cached s"
  "cached (lh_block_update f7 s) = cached s"
  by (simp_all add: fun_eq_iff cached_def)

lemma view_log [simp]:
  "view (lstart_update f1 s) = view s" "view (lsize_update f2 s) = view s" "view (outstanding_update f3 s) = view s"
  "view (committing_update f4 s) = view s" "view (ldev_update f5 s) = view s" "view (lh_n_update f6 s) = view s"
  "view (lh_block_update f7 s) = view s"
  by (simp_all add: fun_eq_iff view_def split: option.split)

lemma cinv_log [simp]:
  "cinv (lstart_update f1 s) = cinv s" "cinv (lsize_update f2 s) = cinv s" "cinv (outstanding_update f3 s) = cinv s"
  "cinv (committing_update f4 s) = cinv s" "cinv (ldev_update f5 s) = cinv s" "cinv (lh_n_update f6 s) = cinv s"
  "cinv (lh_block_update f7 s) = cinv s"
  by (simp_all add: fun_eq_iff cinv_def lru_def uniq_def pinned_def)

lemma write_head_ok:
  assumes g: "lgood s" and c: "cinv s Map.empty P" and st: "lstart s \<notin> P" and room: "card P < NBUF"
  defines "v \<equiv> hdr (blocks s) (view s (lstart s))"
  shows "\<exists>s'. write_head s = Inr s' \<and> cinv s' Map.empty P \<and> view s' = (view s)(lstart s := v) \<and>
    disk s' = (disk s)(lstart s := v) \<and> writes s' = writes s @ [(lstart s, v)] \<and> (pid s', bio.more s') = (pid s, bio.more s)"
proof -
  note L = lgoodD[OF g]
  have "write_head s = bindE (bread ROOTDEV (lstart s) s) (\<lambda>(b, t).
      bindE (bwrite b (set_data b (hdr (blocks s) (data (bufs t b))) t)) (brelse b))"
    unfolding write_head_def L(1)
  proof (rule bindE_cong[OF refl], clarify)
    fix b t assume "bread ROOTDEV (lstart s) s = Inr (b, t)"
    note R = log_rest[OF bread_more[OF this]]
    have "foldE (\<lambda>i hb. bindE (block_at i t) (\<lambda>n. Inr (put32 hb (4 + 4 * i) n))) [0..<nat (lh_n t)] w =
        Inr (fold (\<lambda>i hb. put32 hb (4 + 4 * i) (blocks s ! i)) [0..<nat (lh_n t)] w)" for w
      by (rule foldE_Inr) (use L(8) R in \<open>simp add: block_at_def\<close>)
    moreover have "word_of_int (lh_n s) = (of_nat (nat (lh_n s)) :: uint)" using L(3) by simp
    ultimately show "bindE (foldE (\<lambda>i hb. bindE (block_at i t) (\<lambda>n. Inr (put32 hb (4 + 4 * i) n)))
          [0..<nat (lh_n t)] (put32 (data (bufs t b)) 0 (word_of_int (lh_n t)))) (\<lambda>hb. bindE (bwrite b (set_data b hb t)) (brelse b)) =
        bindE (bwrite b (set_data b (hdr (blocks s) (data (bufs t b))) t)) (brelse b)"
      using L(6) R by (simp add: hdr_def)
  qed
  then show ?thesis using bc.rewrite_block[OF c st room, of "hdr (blocks s)"] unfolding v_def by simp
qed

lemma set_blocks:
  "k \<le> length (lh_block s) \<Longrightarrow> \<exists>bs. foldE (\<lambda>i. set_block i (g i)) [0..<k] s = Inr (s\<lparr>lh_block := bs\<rparr>) \<and>
    length bs = length (lh_block s) \<and> take k bs = map g [0..<k]"
proof (induction k)
  case 0
  show ?case by (rule exI[of _ "lh_block s"]) simp
next
  case (Suc k)
  then obtain bs where "foldE (\<lambda>i. set_block i (g i)) [0..<k] s = Inr (s\<lparr>lh_block := bs\<rparr>)"
    "length bs = length (lh_block s)" "take k bs = map g [0..<k]" by auto
  moreover from this(2) have "set_block k (g k) (s\<lparr>lh_block := bs\<rparr>) = Inr (s\<lparr>lh_block := bs[k := g k]\<rparr>)"
    using Suc.prems by (simp add: set_block_def)
  ultimately show ?case using Suc.prems
    by (intro exI[of _ "bs[k := g k]"]) (simp add: foldE_append take_Suc_conv_app_nth)
qed

lemma read_head_ok:
  assumes c: "cinv s Map.empty P" and d: "ldev s = ROOTDEV" "length (lh_block s) = 30" and room: "card P < NBUF"
    and n: "lstart s \<notin> P" "sint (get32 (view s (lstart s)) 0) \<in> {0..30}"
  shows "\<exists>s'. read_head s = Inr s' \<and> cinv s' Map.empty P \<and> view s' = view s \<and> disk s' = disk s \<and> writes s' = writes s \<and>
    blocks s' = hdr_blocks (view s (lstart s)) \<and> lh_n s' = sint (get32 (view s (lstart s)) 0) \<and> length (lh_block s') = 30 \<and>
    lstart s' = lstart s \<and> lsize s' = lsize s \<and> ldev s' = ROOTDEV \<and> outstanding s' = outstanding s \<and>
    committing s' = committing s \<and> pid s' = pid s \<and> log.more s' = log.more s"
proof -
  obtain b t where t: "bread ROOTDEV (lstart s) s = Inr (b, t)" "cinv t [b \<mapsto> lstart s] P" "view t = view s"
    "disk t = disk s" "writes t = writes s" "(pid t, bio.more t) = (pid s, bio.more s)"
    using bc.rd[OF c, of "lstart s"] room by auto
  note R = log_rest[OF t(6)]
  let ?v = "view s (lstart s)"
  have v: "data (bufs t b) = ?v" using bc.ld[OF t(2), of b "lstart s"] t(3) by simp
  have le: "nat (sint (get32 ?v 0)) \<le> length (lh_block (t\<lparr>lh_n := sint (get32 ?v 0)\<rparr>))" using n R(7) d by (simp add: nat_le_iff)
  obtain bs where bs: "foldE (\<lambda>i. set_block i (get32 ?v (4 + 4 * i))) [0..<nat (sint (get32 ?v 0))] (t\<lparr>lh_n := sint (get32 ?v 0)\<rparr>) =
      Inr (t\<lparr>lh_n := sint (get32 ?v 0), lh_block := bs\<rparr>)" "length bs = 30" "take (nat (sint (get32 ?v 0))) bs = hdr_blocks ?v"
    using set_blocks[OF le, of "\<lambda>i. get32 ?v (4 + 4 * i)"] R(7) d by (auto simp: hdr_blocks_def)
  let ?t = "t\<lparr>lh_n := sint (get32 ?v 0), lh_block := bs\<rparr>"
  have "cinv ?t [b \<mapsto> lstart s] P" using t(2) by simp
  moreover have "view ?t (lstart s) = disk ?t (lstart s)" using t(3,4) bc.clean[OF c, of "lstart s"] n by simp
  ultimately obtain s' where s': "brelse b ?t = Inr s'" "cinv s' ([b \<mapsto> lstart s](b := None)) P" "view s' = view ?t"
    "disk s' = disk ?t" "writes s' = writes ?t" "(pid s', bio.more s') = (pid ?t, bio.more ?t)"
    using bc.rls[of ?t "[b \<mapsto> lstart s]" P b "lstart s"] by auto
  have "read_head s = Inr s'" using t(1) v bs(1) s'(1) d by (simp add: read_head_def)
  then show ?thesis using s'(2-5) log_rest[OF s'(6)] R t bs d by (auto simp: blocks_def)
qed

section \<open>Recovery\<close>

text \<open>
  What a header on the disk commits: \<open>install_writes\<close> are the block copies it asks for and
  \<open>replay\<close> is the disk after them.
\<close>

definition install_writes :: "uint \<Rightarrow> (uint \<Rightarrow> block) \<Rightarrow> (uint \<times> block) list" where
  "install_writes st d =
     map (\<lambda>i. (hdr_blocks (d st) ! i, d (st + of_nat i + 1))) [0..<length (hdr_blocks (d st))]"

definition replay :: "uint \<Rightarrow> (uint \<Rightarrow> block) \<Rightarrow> uint \<Rightarrow> block" where
  "replay st d = apply_writes (install_writes st d) d"

definition recovery_writes :: "uint \<Rightarrow> (uint \<Rightarrow> block) \<Rightarrow> (uint \<times> block) list" where
  "recovery_writes st d = install_writes st d @ [(st, hdr [] (d st))]"

definition wf_log :: "uint \<Rightarrow> int \<Rightarrow> (uint \<Rightarrow> block) \<Rightarrow> bool" where
  "wf_log st sz d \<longleftrightarrow> sint (get32 (d st) 0) \<in> {0..<sz} \<and> sz \<le> 30 \<and> set (hdr_blocks (d st)) \<inter> log_area st sz = {}"

lemma apply_writes_map:
  assumes "inj_on f {..<k}" and "i < k"
  shows "apply_writes (map (\<lambda>i. (f i, g i)) [0..<k]) d (f i) = g i"
  using assms
proof (induction k)
  case (Suc k)
  then have "f i \<noteq> f k" if "i \<noteq> k" using that by (auto dest!: inj_onD)
  moreover have "inj_on f {..<k}" using Suc.prems(1) by (rule inj_on_subset) simp
  ultimately show ?case using Suc by (cases "i = k") simp_all
qed simp

lemma keys_install: "fst ` set (install_writes st d) = set (hdr_blocks (d st))"
  by (force simp: install_writes_def in_set_conv_nth)

lemma replay_other: "n \<notin> set (hdr_blocks (d st)) \<Longrightarrow> replay st d n = d n"
  unfolding replay_def by (rule apply_writes_other) (simp add: keys_install)

lemma recover_ok:
  assumes c: "cinv s Map.empty {}" and d: "ldev s = ROOTDEV" "length (lh_block s) = 30"
    and w: "wf_log (lstart s) (lsize s) (disk s)"
  defines "ws \<equiv> recovery_writes (lstart s) (disk s)"
  shows "\<exists>s'. recover_from_log s = Inr s' \<and> linv s' Map.empty \<and> lh_n s' = 0 \<and> disk s' = apply_writes ws (disk s) \<and>
    writes s' = writes s @ ws \<and> lstart s' = lstart s \<and> lsize s' = lsize s \<and> outstanding s' = outstanding s \<and>
    committing s' = committing s \<and> pid s' = pid s \<and> log.more s' = log.more s"
proof -
  let ?st = "lstart s"
  have vd: "view s = disk s" using bc.clean[OF c] by auto
  have n: "sint (get32 (view s ?st) 0) \<in> {0..30}" using w by (auto simp: wf_log_def vd)
  obtain s1 where s1: "read_head s = Inr s1" "cinv s1 Map.empty {}" "view s1 = view s" "disk s1 = disk s" "writes s1 = writes s"
    "blocks s1 = hdr_blocks (disk s ?st)" "lh_n s1 = sint (get32 (disk s ?st) 0)" "length (lh_block s1) = 30"
    "lstart s1 = ?st" "lsize s1 = lsize s" "ldev s1 = ROOTDEV" "outstanding s1 = outstanding s" "committing s1 = committing s" "pid s1 = pid s"
    "log.more s1 = log.more s"
    using read_head_ok[OF c d _ _ n] vd by auto
  have g1: "lgood s1" using s1 w by (simp add: lgood_def wf_log_def larea_def)
  have len: "length (blocks s1) = nat (lh_n s1)" using lgoodD(6)[OF g1] .
  have ws: "map (\<lambda>i. (blocks s1 ! i, view s1 (lstart s1 + of_nat i + 1))) [0..<nat (lh_n s1)] = install_writes ?st (disk s)"
    unfolding install_writes_def using s1 vd len by (simp add: len[symmetric])
  obtain s2 where s2: "install_trans True s1 = Inr s2" "cinv s2 Map.empty {}" "view s2 = replay ?st (disk s)" "disk s2 = replay ?st (disk s)"
    "writes s2 = writes s @ install_writes ?st (disk s)" and r2: "(pid s2, bio.more s2) = (pid s1, bio.more s1)"
    using install_ok[OF g1, of True "nat (lh_n s1)"] s1(2) unfolding install_trans_def ws by (auto simp: s1 vd replay_def)
  note R = log_rest[OF r2]
  let ?t = "s2\<lparr>lh_n := 0\<rparr>"
  have b0: "blocks ?t = []" by (simp add: blocks_def)
  have gt: "lgood ?t" using lgoodD(1-5)[OF g1] R by (simp add: lgood_def blocks_def)
  have st: "replay ?st (disk s) ?st = disk s ?st"
    using lgoodD(12)[OF g1] s1 by (intro replay_other) simp
  obtain s3 where s3: "write_head ?t = Inr s3" "cinv s3 Map.empty {}" "disk s3 = (replay ?st (disk s))(?st := hdr [] (disk s ?st))"
    "writes s3 = writes s @ install_writes ?st (disk s) @ [(?st, hdr [] (disk s ?st))]" and r3: "(pid s3, bio.more s3) = (pid ?t, bio.more ?t)"
    using write_head_ok[OF gt, of "{}"] s2 R s1 st by (auto simp: b0)
  note R3 = log_rest[OF r3]
  have "recover_from_log s = Inr s3" using s1 s2 s3 by (simp add: recover_from_log_def)
  moreover have "disk s3 = apply_writes ws (disk s)" "writes s3 = writes s @ ws"
    using s3 by (simp_all add: ws_def recovery_writes_def replay_def)
  moreover have "linv s3 Map.empty"
    unfolding linv_def using gt lgood_rest[OF r3] s3 R3 R s1 b0 by (simp add: hdr_get)
  ultimately show ?thesis using R3 R s1 by auto
qed

section \<open>Commit\<close>

text \<open>The writes of a commit, in order: the log, the header, the home blocks, the empty header.\<close>

definition log_writes :: "'a log_scheme \<Rightarrow> (uint \<times> block) list" where
  "log_writes s = map (\<lambda>i. (lstart s + of_nat i + 1, view s (blocks s ! i))) [0..<length (blocks s)]"

definition home_writes :: "'a log_scheme \<Rightarrow> (uint \<times> block) list" where
  "home_writes s = map (\<lambda>i. (blocks s ! i, view s (blocks s ! i))) [0..<length (blocks s)]"

definition commit_writes :: "'a log_scheme \<Rightarrow> (uint \<times> block) list" where
  "commit_writes s = log_writes s @ [(lstart s, hdr (blocks s) (disk s (lstart s)))] @
     home_writes s @ [(lstart s, hdr [] (hdr (blocks s) (disk s (lstart s))))]"

lemma log_slots_inj: "k \<le> 30 \<Longrightarrow> inj_on (\<lambda>i. st + of_nat i + 1 :: uint) {..<k}"
proof (rule inj_onI)
  fix i j assume k: "k \<le> 30" "i \<in> {..<k}" "j \<in> {..<k}" "st + of_nat i + 1 = st + of_nat j + (1 :: uint)"
  then have "unat (of_nat i :: uint) = unat (of_nat j :: uint)" by simp
  moreover have "unat (of_nat i :: uint) = i" "unat (of_nat j :: uint) = j" using k(1-3) by (auto intro!: unat_of_nat_small)
  ultimately show "i = j" by simp
qed

lemma slot_not_start: "i < 30 \<Longrightarrow> st + of_nat i + 1 \<noteq> (st :: uint)"
proof
  assume i: "i < 30" "st + of_nat i + 1 = st"
  then have "of_nat (Suc i) = (0 :: uint)" by (simp add: add.assoc add.commute)
  moreover have "unat (of_nat (Suc i) :: uint) = Suc i" using i by (intro unat_of_nat_small) simp
  ultimately show False by simp
qed

lemma commit_ok:
  assumes l: "linv s Map.empty" and n: "0 < lh_n s"
  shows "\<exists>s'. commit s = Inr s' \<and> linv s' Map.empty \<and> lh_n s' = 0 \<and>
    disk s' = apply_writes (commit_writes s) (disk s) \<and> writes s' = writes s @ commit_writes s \<and>
    lstart s' = lstart s \<and> lsize s' = lsize s \<and> outstanding s' = outstanding s \<and> committing s' = committing s \<and> pid s' = pid s \<and>
    log.more s' = log.more s"
proof -
  let ?st = "lstart s" and ?bs = "blocks s"
  have g: "lgood s" and di: "distinct ?bs" and c: "cinv s Map.empty (set ?bs)" and z: "get32 (disk s ?st) 0 = 0"
    using l by (simp_all add: linv_def)
  note L = lgoodD[OF g] and room = card_blocks[OF g]
  have ll: "nat (lh_n s) = length ?bs" "length ?bs < 30" using L(6,7) by simp_all
  obtain s1 where s1: "write_log s = Inr s1" "cinv s1 Map.empty (set ?bs)" "view s1 = apply_writes (log_writes s) (view s)"
    "disk s1 = apply_writes (log_writes s) (disk s)" "writes s1 = writes s @ log_writes s" and r1: "(pid s1, bio.more s1) = (pid s, bio.more s)"
    using write_log_ok[OF g c order_refl] unfolding write_log_def log_writes_def ll by auto
  note R1 = log_rest[OF r1]
  have g1: "lgood s1" using g lgood_rest[OF r1] by simp
  have nst: "?st \<notin> fst ` set (log_writes s)" using slot_not_start ll by (force simp: log_writes_def)
  have vst: "view s ?st = disk s ?st" using bc.clean[OF c, of ?st] L(12) by simp
  then have st1: "view s1 ?st = disk s ?st" using apply_writes_other[OF nst] s1 by simp
  let ?h = "hdr ?bs (disk s ?st)"
  obtain s2 where s2: "write_head s1 = Inr s2" "cinv s2 Map.empty (set ?bs)" "view s2 = (view s1)(?st := ?h)"
    "disk s2 = (disk s1)(?st := ?h)" "writes s2 = writes s1 @ [(?st, ?h)]" and r2: "(pid s2, bio.more s2) = (pid s1, bio.more s1)"
    using write_head_ok[OF g1 s1(2)] R1 L(12) room st1 by auto
  note R2 = log_rest[OF r2]
  have g2: "lgood s2" using g1 lgood_rest[OF r2] by simp
  have "view s2 (?st + of_nat i + 1) = view s (?bs ! i)" if "i < length ?bs" for i
    using that ll slot_not_start[of i ?st] apply_writes_map[OF log_slots_inj, of "length ?bs" i ?st "\<lambda>i. view s (?bs ! i)"]
    unfolding s2(3) s1(3) log_writes_def by simp
  then have hw: "map (\<lambda>i. (blocks s2 ! i, view s2 (lstart s2 + of_nat i + 1))) [0..<nat (lh_n s2)] = home_writes s"
    using R1 R2 ll by (simp add: home_writes_def)
  obtain s3 where s3: "install_trans False s2 = Inr s3" "cinv s3 Map.empty {}" "view s3 = apply_writes (home_writes s) (view s2)"
    "disk s3 = apply_writes (home_writes s) (disk s2)" "writes s3 = writes s2 @ home_writes s" and r3: "(pid s3, bio.more s3) = (pid s2, bio.more s2)"
    using install_ok[OF g2, of False "nat (lh_n s2)"] s2(2) di R1 R2 ll unfolding install_trans_def hw by auto
  note R3 = log_rest[OF r3]
  let ?t = "s3\<lparr>lh_n := 0\<rparr>"
  have b0: "blocks ?t = []" by (simp add: blocks_def)
  have gt: "lgood ?t" using L(1-5) R1 R2 R3 by (simp add: lgood_def blocks_def)
  have "?st \<notin> fst ` set (home_writes s)" using L(12) nth_mem by (fastforce simp: home_writes_def)
  then have "view s3 ?st = ?h" using s3 s2 apply_writes_other by simp
  then obtain s4 where s4: "write_head ?t = Inr s4" "cinv s4 Map.empty {}" "disk s4 = (disk s3)(?st := hdr [] ?h)"
    "writes s4 = writes s3 @ [(?st, hdr [] ?h)]" and r4: "(pid s4, bio.more s4) = (pid ?t, bio.more ?t)"
    using write_head_ok[OF gt, of "{}"] s3 R1 R2 R3 by (auto simp: b0)
  note R4 = log_rest[OF r4]
  have "commit s = Inr s4" using n s1 s2 s3 s4 by (simp add: commit_def)
  moreover have "disk s4 = apply_writes (commit_writes s) (disk s)" "writes s4 = writes s @ commit_writes s"
    using s1 s2 s3 s4 by (simp_all add: commit_writes_def)
  moreover have "linv s4 Map.empty"
    unfolding linv_def using gt lgood_rest[OF r4] s4 R1 R2 R3 R4 b0 by (simp add: hdr_get)
  ultimately show ?thesis using R1 R2 R3 R4 by auto
qed

section \<open>Crashes\<close>

lemma apply_writes_same: "n \<in> fst ` set ws \<Longrightarrow> apply_writes ws d n = apply_writes ws d' n"
proof (induction ws rule: rev_induct)
  case (snoc w ws)
  then have "n \<in> fst ` set ws" if "n \<noteq> fst w" using that by auto
  then show ?case using snoc.IH by (cases w; cases "n = fst w") simp_all
qed simp

lemma prefix_keys: "prefix ws ws' \<Longrightarrow> fst ` set ws \<subseteq> fst ` set ws'"
  by (auto simp: prefix_def)

lemma install_cong:
  assumes "\<forall>n \<in> log_area st sz. d' n = d n" and w: "wf_log st sz d"
  shows "install_writes st d' = install_writes st d" and "wf_log st sz d'"
proof -
  have sz: "0 < sz" "length (hdr_blocks (d st)) < nat sz" using w by (auto simp: wf_log_def hdr_blocks_def)
  have "st \<in> log_area st sz" unfolding log_area_def by (rule image_eqI[of _ _ 0]) (use sz in simp_all)
  then have st: "d' st = d st" using assms(1) by blast
  have "d' (st + of_nat i + 1) = d (st + of_nat i + 1)" if "i < length (hdr_blocks (d st))" for i
  proof -
    have "st + of_nat i + 1 \<in> log_area st sz"
      unfolding log_area_def by (rule image_eqI[of _ _ "Suc i"]) (use sz that in simp_all)
    then show ?thesis using assms(1) by blast
  qed
  then show "install_writes st d' = install_writes st d" by (simp add: install_writes_def st)
  show "wf_log st sz d'" using w by (simp add: wf_log_def st)
qed

text \<open>Recovery stopped anywhere leaves a disk whose recovery gives the same.\<close>

lemma recovery_prefix:
  assumes w: "wf_log st sz d" and p: "prefix ws (recovery_writes st d)"
  shows "wf_log st sz (apply_writes ws d) \<and> (\<forall>n. n \<notin> log_area st sz \<longrightarrow> replay st (apply_writes ws d) n = replay st d n)"
proof -
  let ?W = "install_writes st d" and ?d = "apply_writes ws d"
  have K: "fst ` set ?W \<inter> log_area st sz = {}" using w by (simp add: keys_install wf_log_def)
  have sz: "0 < sz" using w by (simp add: wf_log_def)
  then have st: "st \<in> log_area st sz" unfolding log_area_def by (intro image_eqI[of _ _ 0]) simp_all
  show ?thesis
  proof (cases "prefix ws ?W")
    case True
    have "\<forall>n \<in> log_area st sz. ?d n = d n" using prefix_keys[OF True] K by (blast intro: apply_writes_other)
    note C = install_cong[OF this w]
    have "replay st ?d n = replay st d n" for n
    proof (cases "n \<in> fst ` set ?W")
      case True
      then show ?thesis unfolding replay_def C(1) by (rule apply_writes_same)
    next
      case False
      moreover have "n \<notin> fst ` set ws" using False prefix_keys[OF True] by blast
      ultimately show ?thesis unfolding replay_def C(1) by (simp add: apply_writes_other)
    qed
    then show ?thesis using C(2) by blast
  next
    case False
    then have ws: "ws = recovery_writes st d" using p by (auto simp: recovery_writes_def prefix_append prefix_Cons)
    then have d: "?d = (replay st d)(st := hdr [] (d st))" by (simp add: recovery_writes_def replay_def)
    have z: "get32 (?d st) 0 = 0" unfolding d by (simp add: hdr_get)
    have "replay st ?d = ?d" by (simp add: replay_def install_writes_def hdr_blocks_zero[OF z])
    moreover have "wf_log st sz ?d" unfolding wf_log_def z hdr_blocks_zero[OF z] using sz w by (simp add: wf_log_def)
    ultimately show ?thesis using st d by (metis fun_upd_other)
  qed
qed

text \<open>The disk just after the header is written: its recovery installs the transaction.\<close>

lemma logged_replay:
  assumes l: "linv s Map.empty"
  defines "d \<equiv> (apply_writes (log_writes s) (disk s))(lstart s := hdr (blocks s) (disk s (lstart s)))"
  shows "wf_log (lstart s) (lsize s) d" and "install_writes (lstart s) d = home_writes s"
    and "n \<notin> larea s \<Longrightarrow> replay (lstart s) d n = view s n"
    and "commit_writes s = log_writes s @ (lstart s, d (lstart s)) # recovery_writes (lstart s) d"
proof -
  let ?st = "lstart s" and ?bs = "blocks s"
  have g: "lgood s" and di: "distinct ?bs" and c: "cinv s Map.empty (set ?bs)" using l by (simp_all add: linv_def)
  note L = lgoodD[OF g]
  have ll: "length ?bs < 30" "int (length ?bs) = lh_n s" using L(3,6,7) by simp_all
  have st: "d ?st = hdr ?bs (disk s ?st)" by (simp add: d_def)
  have bs: "hdr_blocks (d ?st) = ?bs" unfolding st using ll by (intro hdr_blocks_hdr) simp
  have sl: "d (?st + of_nat i + 1) = view s (?bs ! i)" if "i < length ?bs" for i
    using that ll slot_not_start[of i ?st] apply_writes_map[OF log_slots_inj, of "length ?bs" i ?st "\<lambda>i. view s (?bs ! i)"]
    unfolding d_def log_writes_def by simp
  show "wf_log ?st (lsize s) d"
    using L(3-5,10) ll sint_nat_small[of "length ?bs"] bs unfolding wf_log_def st by (auto simp: hdr_get larea_def)
  show iw: "install_writes ?st d = home_writes s" unfolding install_writes_def home_writes_def bs using sl by simp
  show "commit_writes s = log_writes s @ (?st, d ?st) # recovery_writes ?st d"
    unfolding commit_writes_def recovery_writes_def iw st by simp
  show "replay ?st d n = view s n" if n: "n \<notin> larea s"
  proof (cases "n \<in> set ?bs")
    case True
    then obtain i where i: "i < length ?bs" "n = ?bs ! i" by (auto simp: in_set_conv_nth)
    have "inj_on (\<lambda>i. ?bs ! i) {..<length ?bs}" using di by (auto simp: inj_on_def nth_eq_iff_index_eq)
    then show ?thesis unfolding replay_def iw home_writes_def i(2) using i(1)
      by (rule apply_writes_map)
  next
    case False
    have "n \<notin> fst ` set (log_writes s)" using n L(6,9) by (auto simp: log_writes_def)
    moreover have "n \<noteq> ?st" using n L(11) by blast
    ultimately have "d n = disk s n" by (simp add: d_def apply_writes_other)
    also have "\<dots> = view s n" using bc.clean[OF c, of n] False by simp
    finally show ?thesis using False by (simp add: replay_other bs)
  qed
qed

lemma prefix_split: "prefix ws (xs @ y # zs) \<Longrightarrow> prefix ws xs \<or> (\<exists>ws'. ws = xs @ y # ws' \<and> prefix ws' zs)"
  by (auto simp: prefix_append prefix_Cons)

lemma commit_prefix:
  assumes l: "linv s Map.empty" and p: "prefix ws (commit_writes s)"
  defines "d \<equiv> apply_writes ws (disk s)"
  shows "wf_log (lstart s) (lsize s) d \<and>
    ((\<forall>n. n \<notin> larea s \<longrightarrow> replay (lstart s) d n = disk s n) \<or> (\<forall>n. n \<notin> larea s \<longrightarrow> replay (lstart s) d n = view s n))"
proof -
  let ?st = "lstart s" and ?e = "(apply_writes (log_writes s) (disk s))(lstart s := hdr (blocks s) (disk s (lstart s)))"
  note L = lgoodD[of s] and R = logged_replay[OF l]
  have g: "lgood s" and z: "get32 (disk s ?st) 0 = 0" using l by (simp_all add: linv_def)
  consider (log) "prefix ws (log_writes s)"
    | (header) ws' where "ws = log_writes s @ (?st, ?e ?st) # ws'" "prefix ws' (recovery_writes ?st ?e)"
    using prefix_split[OF p[unfolded R(4)]] by blast
  then show ?thesis
  proof cases
    case log
    have k: "fst ` set (log_writes s) \<subseteq> larea s - {?st}"
      using L(6,7,9)[OF g] slot_not_start by (auto simp: log_writes_def)
    then have same: "d n = disk s n" if "n \<notin> larea s - {?st}" for n
      using that prefix_keys[OF log] unfolding d_def by (intro apply_writes_other) blast
    then have z': "get32 (d ?st) 0 = 0" using z by simp
    have "replay ?st d = d" by (simp add: replay_def install_writes_def hdr_blocks_zero[OF z'])
    moreover have "wf_log ?st (lsize s) d" unfolding wf_log_def z' hdr_blocks_zero[OF z'] using L(3-5)[OF g] by simp
    ultimately show ?thesis using same by auto
  next
    case header
    then have "d = apply_writes ws' ?e" by (simp add: d_def)
    then show ?thesis using recovery_prefix[OF R(1) header(2)] R(3) unfolding larea_def by metis
  qed
qed

text \<open>The cache and the log of a machine that has just started, with the disk as it was left.\<close>

definition rebooted :: "'a log_scheme \<Rightarrow> bool" where
  "rebooted t \<longleftrightarrow> cinv t Map.empty {} \<and> length (lh_block t) = 30"

lemma initlog_ok:
  assumes r: "rebooted t" and w: "wf_log (logstart sb) (sint (nlog sb)) (disk t)"
  shows "\<exists>t'. initlog ROOTDEV sb t = Inr t' \<and> linv t' Map.empty \<and> lh_n t' = 0 \<and>
    (\<forall>n. n \<notin> log_area (logstart sb) (sint (nlog sb)) \<longrightarrow> disk t' n = replay (logstart sb) (disk t) n) \<and>
    disk t' = apply_writes (recovery_writes (logstart sb) (disk t)) (disk t) \<and>
    writes t' = writes t @ recovery_writes (logstart sb) (disk t) \<and> lstart t' = logstart sb \<and> lsize t' = sint (nlog sb) \<and>
    outstanding t' = outstanding t \<and> committing t' = committing t \<and> pid t' = pid t \<and> log.more t' = log.more t"
proof -
  let ?s = "t\<lparr>lstart := logstart sb, lsize := sint (nlog sb), ldev := ROOTDEV\<rparr>"
  have i: "initlog ROOTDEV sb t = recover_from_log ?s" by (simp add: initlog_def)
  have c: "cinv ?s Map.empty {}" "ldev ?s = ROOTDEV" "length (lh_block ?s) = 30" "wf_log (lstart ?s) (lsize ?s) (disk ?s)"
    using assms by (simp_all add: rebooted_def)
  have st: "logstart sb \<in> log_area (logstart sb) (sint (nlog sb))"
    unfolding log_area_def by (rule image_eqI[of _ _ 0]) (use w in \<open>simp_all add: wf_log_def\<close>)
  obtain s' where "recover_from_log ?s = Inr s'" "linv s' Map.empty" "lh_n s' = 0"
    "disk s' = apply_writes (recovery_writes (logstart sb) (disk t)) (disk t)" "writes s' = writes t @ recovery_writes (logstart sb) (disk t)"
    "lstart s' = logstart sb" "lsize s' = sint (nlog sb)" "outstanding s' = outstanding t" "committing s' = committing t" "pid s' = pid t"
    "log.more s' = log.more t"
    using recover_ok[OF c] by auto
  then show ?thesis unfolding i using st by (intro exI[of _ s']) (auto simp: recovery_writes_def replay_def)
qed

section \<open>Writing in a transaction\<close>

lemma linvD:
  assumes "linv s H"
  shows "lgood s" "distinct (blocks s)" "cinv s H (set (blocks s))" "get32 (disk s (lstart s)) 0 = 0" "ran H \<inter> larea s = {}"
  using assms by (simp_all add: linv_def)

lemma linv_rest:
  assumes "(pid s', bio.more s') = (pid s, bio.more s)" and "linv s H" and "cinv s' H' (set (blocks s))"
    and "disk s' (lstart s) = disk s (lstart s)" and "ran H' \<inter> larea s = {}"
  shows "linv s' H'"
  using assms(2-5) log_rest[OF assms(1)] lgood_rest[OF assms(1)] by (simp add: linv_def)

lemma absorb_index:
  assumes "lgood s"
  shows "absorb_index n s \<le> nat (lh_n s)" and "absorb_index n s = nat (lh_n s) \<longleftrightarrow> n \<notin> set (blocks s)"
    and "n \<in> set (blocks s) \<Longrightarrow> lh_block s ! absorb_index n s = n"
proof -
  have e: "absorb_index n s = length (takeWhile (\<lambda>m. m \<noteq> n) (blocks s))" by (simp add: absorb_index_def blocks_def)
  show le: "absorb_index n s \<le> nat (lh_n s)" using length_takeWhile_le[of "\<lambda>m. m \<noteq> n" "blocks s"] lgoodD(6)[OF assms] e by simp
  show iff: "absorb_index n s = nat (lh_n s) \<longleftrightarrow> n \<notin> set (blocks s)"
  proof
    assume "absorb_index n s = nat (lh_n s)"
    then have "takeWhile (\<lambda>m. m \<noteq> n) (blocks s) = blocks s"
      using e lgoodD(6)[OF assms] by (metis takeWhile_eq_take take_all order_refl)
    then show "n \<notin> set (blocks s)" by (auto simp: takeWhile_eq_all_conv)
  next
    assume "n \<notin> set (blocks s)"
    then have "takeWhile (\<lambda>m. m \<noteq> n) (blocks s) = blocks s" by (auto simp: takeWhile_eq_all_conv)
    then show "absorb_index n s = nat (lh_n s)" unfolding e by (simp only: lgoodD(6)[OF assms])
  qed
  assume n: "n \<in> set (blocks s)"
  then have lt: "absorb_index n s < nat (lh_n s)" using le iff by linarith
  then have "blocks s ! absorb_index n s = n"
    using nth_length_takeWhile[of "\<lambda>m. m \<noteq> n" "blocks s"] e lgoodD(6)[OF assms] by simp
  then show "lh_block s ! absorb_index n s = n" using lgoodD(8)[OF assms lt] by simp
qed

lemma log_write_ok:
  assumes l: "linv s H" and h: "H b = Some n" and o: "1 \<le> outstanding s" and r: "lh_n s < lsize s - 1"
  shows "\<exists>s'. log_write b s = Inr s' \<and> linv s' H \<and> view s' = view s \<and> disk s' = disk s \<and> writes s' = writes s \<and>
    blocks s' = (if n \<in> set (blocks s) then blocks s else blocks s @ [n]) \<and> lh_n s' = int (length (blocks s')) \<and>
    lstart s' = lstart s \<and> lsize s' = lsize s \<and> outstanding s' = outstanding s \<and> committing s' = committing s \<and>
    pid s' = pid s \<and> log.more s' = log.more s"
proof -
  note L = linvD[OF l] and A = absorb_index[OF linvD(1)[OF l], of n]
  note G = lgoodD[OF L(1)]
  have bn: "blockno (bufs s b) = n" using cinvD(6)[OF L(3) h] by (simp add: cached_def)
  have n: "n \<notin> larea s" using L(5) h by (auto simp: ran_def)
  let ?i = "absorb_index n s"
  have i: "?i < 30" using A(1) G(7) by simp
  define t where "t = s\<lparr>lh_block := (lh_block s)[?i := n]\<rparr>"
  have st: "set_block ?i n s = Inr t" using i G(2) by (simp add: set_block_def t_def)
  have lw: "log_write b s = (if int ?i = lh_n s then Inr ((bpin b t)\<lparr>lh_n := lh_n s + 1\<rparr>) else Inr t)"
    using r o G(5) st by (simp add: log_write_def bn Let_def t_def)
  show ?thesis
  proof (cases "n \<in> set (blocks s)")
    case True
    then have "?i < nat (lh_n s)" using A(1,2) by linarith
    then have "log_write b s = Inr t" using lw by simp
    moreover have "(lh_block s)[?i := n] = lh_block s" using list_update_id[of "lh_block s" ?i] A(3)[OF True] by simp
    then have "t = s" by (simp add: t_def)
    ultimately show ?thesis using True l G(3,6) by (intro exI[of _ s]) simp
  next
    case False
    then have i': "?i = nat (lh_n s)" using A(2) by simp
    define s' where "s' = (bpin b t)\<lparr>lh_n := lh_n s + 1\<rparr>"
    have e: "log_write b s = Inr s'" using lw i' G(3) by (simp add: s'_def)
    have bt: "(pid (bpin b t), bio.more (bpin b t)) = (pid t, bio.more t)" by simp
    note B = log_rest[OF bt]
    have bl: "blocks s' = blocks s @ [n]"
      unfolding blocks_def s'_def using B(7) i' G(2,3,7)
      by (simp add: t_def nat_add_distrib take_Suc_conv_app_nth)
    have c: "cinv t H (set (blocks s))" "view t = view s" using L(3) by (simp_all add: t_def)
    note P = bpin_ok[OF c(1) h False]
    have "linv s' H" unfolding linv_def lgood_def bl
      using P(1) L G n r False B by (auto simp: s'_def t_def larea_def)
    moreover have "lh_n s' = int (length (blocks s'))" unfolding bl using G(3,6) by (simp add: s'_def)
    ultimately show ?thesis using e bl False P(2) c(2) B by (intro exI[of _ s']) (simp add: s'_def t_def)
  qed
qed

section \<open>The interface of the log\<close>

text \<open>
  What the file system relies on inside a transaction: \<open>inv s H\<close> with the buffers \<open>dom H\<close> held,
  \<open>cur\<close> the current and \<open>base\<close> the committed contents of the blocks, \<open>logged s\<close> the blocks of the
  transaction, of which there may be \<open>cap s\<close> in all, and \<open>rest s\<close> what stays as it is. Blocks of the
  log's own area are not to be touched.
\<close>

locale transaction =
  fixes inv :: "'s \<Rightarrow> (nat \<rightharpoonup> uint) \<Rightarrow> bool"
    and cur :: "'s \<Rightarrow> uint \<Rightarrow> block" and base :: "'s \<Rightarrow> uint \<Rightarrow> block"
    and logged :: "'s \<Rightarrow> uint list" and cap :: "'s \<Rightarrow> nat" and reserved :: "'s \<Rightarrow> uint set" and rest :: "'s \<Rightarrow> 'r"
    and ld :: "nat \<Rightarrow> 's \<Rightarrow> block" and st :: "nat \<Rightarrow> block \<Rightarrow> 's \<Rightarrow> 's"
    and rd :: "uint \<Rightarrow> 's \<Rightarrow> (nat \<times> 's) res" and lw :: "nat \<Rightarrow> 's \<Rightarrow> 's res" and rls :: "nat \<Rightarrow> 's \<Rightarrow> 's res"
  assumes rd: "inv s H \<Longrightarrow> n \<notin> ran H \<Longrightarrow> n \<notin> reserved s \<Longrightarrow> card (dom H) + length (logged s) < NBUF \<Longrightarrow>
      \<exists>b s'. rd n s = Inr (b, s') \<and> H b = None \<and> inv s' (H(b \<mapsto> n)) \<and> cur s' = cur s \<and> base s' = base s \<and>
        logged s' = logged s \<and> cap s' = cap s \<and> reserved s' = reserved s \<and> rest s' = rest s"
    and ld: "inv s H \<Longrightarrow> H b = Some n \<Longrightarrow> ld b s = cur s n"
    and st: "inv s H \<Longrightarrow> H b = Some n \<Longrightarrow>
      inv (st b v s) H \<and> cur (st b v s) = (cur s)(n := v) \<and> base (st b v s) = base s \<and> logged (st b v s) = logged s \<and>
      cap (st b v s) = cap s \<and> reserved (st b v s) = reserved s \<and> rest (st b v s) = rest s"
    and lw: "inv s H \<Longrightarrow> H b = Some n \<Longrightarrow> length (logged s) < cap s \<Longrightarrow>
      \<exists>s'. lw b s = Inr s' \<and> inv s' H \<and> cur s' = cur s \<and> base s' = base s \<and>
        logged s' = (if n \<in> set (logged s) then logged s else logged s @ [n]) \<and> cap s' = cap s \<and>
        reserved s' = reserved s \<and> rest s' = rest s"
    and rls: "inv s H \<Longrightarrow> H b = Some n \<Longrightarrow> n \<in> set (logged s) \<or> cur s n = base s n \<Longrightarrow>
      \<exists>s'. rls b s = Inr s' \<and> inv s' (H(b := None)) \<and> cur s' = cur s \<and> base s' = base s \<and>
        logged s' = logged s \<and> cap s' = cap s \<and> reserved s' = reserved s \<and> rest s' = rest s"
    and clean: "inv s H \<Longrightarrow> n \<notin> ran H \<Longrightarrow> n \<notin> set (logged s) \<Longrightarrow> cur s n = base s n"
begin

definition same :: "'s \<Rightarrow> 's \<Rightarrow> bool" where
  "same s s' \<longleftrightarrow> base s' = base s \<and> cap s' = cap s \<and> reserved s' = reserved s \<and> rest s' = rest s"

lemma same_refl [simp]: "same s s"
  by (simp add: same_def)

lemma same_trans: "same s s' \<Longrightarrow> same s' s'' \<Longrightarrow> same s s''"
  by (simp add: same_def)

text \<open>Reading a block and giving its buffer back.\<close>

lemma read_block:
  assumes i: "inv s H" and n: "n \<notin> ran H" "n \<notin> reserved s" and room: "card (dom H) + length (logged s) < NBUF"
  shows "\<exists>b s1 s2. rd n s = Inr (b, s1) \<and> ld b s1 = cur s n \<and> same s s1 \<and> rls b s1 = Inr s2 \<and> inv s2 H \<and>
    cur s2 = cur s \<and> logged s2 = logged s \<and> same s s2"
proof -
  obtain b s1 where 1: "rd n s = Inr (b, s1)" "H b = None" "inv s1 (H(b \<mapsto> n))" "cur s1 = cur s" "base s1 = base s" "logged s1 = logged s"
    "cap s1 = cap s" "reserved s1 = reserved s" "rest s1 = rest s"
    using rd[OF i n room] by auto
  have "n \<in> set (logged s1) \<or> cur s1 n = base s1 n" using clean[OF i n(1)] 1 by auto
  then obtain s2 where 2: "rls b s1 = Inr s2" "inv s2 (H(b \<mapsto> n, b := None))" "cur s2 = cur s1" "base s2 = base s1" "logged s2 = logged s1"
    "cap s2 = cap s1" "reserved s2 = reserved s1" "rest s2 = rest s1"
    using rls[OF 1(3), of b n] by auto
  have "H(b \<mapsto> n, b := None) = H" using 1(2) by auto
  then show ?thesis using 1 2 ld[OF 1(3), of b n] by (intro exI[of _ b] exI[of _ s1] exI[of _ s2]) (simp add: same_def)
qed

text \<open>Changing a block: \<^verbatim>\<open>bread\<close>, assignment, \<^verbatim>\<open>log_write\<close>, \<^verbatim>\<open>brelse\<close>.\<close>

lemma update_block:
  assumes i: "inv s H" and n: "n \<notin> ran H" "n \<notin> reserved s" and room: "card (dom H) + length (logged s) < NBUF"
    and cap: "length (logged s) < cap s"
  shows "\<exists>b s1 s2 s3. rd n s = Inr (b, s1) \<and> ld b s1 = cur s n \<and> same s s1 \<and> lw b (st b v s1) = Inr s2 \<and> rls b s2 = Inr s3 \<and> inv s3 H \<and>
    cur s3 = (cur s)(n := v) \<and> logged s3 = (if n \<in> set (logged s) then logged s else logged s @ [n]) \<and> same s s3"
proof -
  obtain b s1 where 1: "rd n s = Inr (b, s1)" "H b = None" "inv s1 (H(b \<mapsto> n))" "cur s1 = cur s" "base s1 = base s" "logged s1 = logged s"
    "cap s1 = cap s" "reserved s1 = reserved s" "rest s1 = rest s"
    using rd[OF i n room] by auto
  let ?t = "st b v s1"
  have t: "inv ?t (H(b \<mapsto> n))" "cur ?t = (cur s)(n := v)" "base ?t = base s" "logged ?t = logged s" "cap ?t = cap s"
    "reserved ?t = reserved s" "rest ?t = rest s" using st[OF 1(3), of b n v] 1 by simp_all
  obtain s2 where 2: "lw b ?t = Inr s2" "inv s2 (H(b \<mapsto> n))" "cur s2 = (cur s)(n := v)" "base s2 = base s"
    "logged s2 = (if n \<in> set (logged s) then logged s else logged s @ [n])" "cap s2 = cap s" "reserved s2 = reserved s" "rest s2 = rest s"
    using lw[OF t(1), of b n] t cap by auto
  have "n \<in> set (logged s2)" using 2(5) by simp
  then obtain s3 where 3: "rls b s2 = Inr s3" "inv s3 (H(b \<mapsto> n, b := None))" "cur s3 = cur s2" "base s3 = base s2" "logged s3 = logged s2"
    "cap s3 = cap s2" "reserved s3 = reserved s2" "rest s3 = rest s2"
    using rls[OF 2(2), of b n] by auto
  have "H(b \<mapsto> n, b := None) = H" using 1(2) by auto
  then show ?thesis using 1 2 3 ld[OF 1(3), of b n]
    by (intro exI[of _ b] exI[of _ s1] exI[of _ s2] exI[of _ s3]) (simp add: same_def)
qed

end

definition log_cap :: "'a log_scheme \<Rightarrow> nat" where
  "log_cap s = (if outstanding s < 1 then 0 else nat (lsize s - 1))"

definition lrest :: "'a log_scheme \<Rightarrow> nat \<times> uint \<times> int \<times> int \<times> bool \<times> uint \<times> 'a" where
  "lrest s = (pid s, lstart s, lsize s, outstanding s, committing s, ldev s, log.more s)"

lemma lrest_eq: "(pid s', bio.more s') = (pid s, bio.more s) \<Longrightarrow> lrest s' = lrest s \<and> log_cap s' = log_cap s \<and> larea s' = larea s"
  using log_rest[of s' s] lgood_rest[of s' s] by (simp add: lrest_def log_cap_def)

interpretation tx: transaction linv view disk blocks log_cap larea lrest "\<lambda>b s. data (bufs s b)" set_data
  "bread ROOTDEV" log_write brelse
proof (unfold_locales, goal_cases)
  case (1 s H n)
  note L = linvD[OF 1(1)]
  have "card (set (blocks s)) \<le> length (blocks s)" by (rule card_length)
  then have "card (dom H) + card (set (blocks s)) < NBUF" using 1(4) by linarith
  then obtain b s' where b: "bread ROOTDEV n s = Inr (b, s')" "H b = None" "cinv s' (H(b \<mapsto> n)) (set (blocks s))" "view s' = view s"
    "disk s' = disk s" "writes s' = writes s" "(pid s', bio.more s') = (pid s, bio.more s)"
    using bc.rd[OF L(3) 1(2)] by auto
  have "ran (H(b \<mapsto> n)) \<inter> larea s = {}" using L(5) 1(3) b(2) by auto
  then have "linv s' (H(b \<mapsto> n))" using linv_rest[OF b(7) 1(1) b(3)] b(5) by simp
  then show ?case using b log_rest[OF b(7)] lrest_eq[OF b(7)] by auto
next
  case (2 s H b n)
  then show ?case using bc.ld linvD(3) by blast
next
  case (3 s H b n v)
  have r: "(pid (set_data b v s), bio.more (set_data b v s)) = (pid s, bio.more s)" by simp
  show ?case using bc.st[OF linvD(3)[OF 3(1)] 3(2), of v] linv_rest[OF r 3(1)] linvD(5)[OF 3(1)] log_rest[OF r] lrest_eq[OF r] by simp
next
  case (4 s H b n)
  note G = lgoodD[OF linvD(1)[OF 4(1)]]
  have o: "1 \<le> outstanding s" and c: "lh_n s < lsize s - 1" using 4(3) G(3,6) by (auto simp: log_cap_def split: if_splits)
  obtain s' where "log_write b s = Inr s'" and s': "linv s' H" "view s' = view s" "disk s' = disk s"
    "blocks s' = (if n \<in> set (blocks s) then blocks s else blocks s @ [n])"
    "lstart s' = lstart s" "lsize s' = lsize s" "outstanding s' = outstanding s" "committing s' = committing s"
    "pid s' = pid s" "log.more s' = log.more s" using log_write_ok[OF 4(1,2) o c] by auto
  moreover have "ldev s' = ldev s" using G(1) lgoodD(1)[OF linvD(1)[OF s'(1)]] by simp
  ultimately show ?case by (intro exI[of _ s']) (simp add: lrest_def log_cap_def larea_def)
next
  case (5 s H b n)
  note L = linvD[OF 5(1)]
  obtain s' where b: "brelse b s = Inr s'" "cinv s' (H(b := None)) (set (blocks s))" "view s' = view s"
    "disk s' = disk s" "writes s' = writes s" "(pid s', bio.more s') = (pid s, bio.more s)"
    using bc.rls[OF L(3) 5(2,3)] by auto
  have "ran (H(b := None)) \<subseteq> ran H" by (auto simp: ran_def)
  then have "ran (H(b := None)) \<inter> larea s = {}" using L(5) by blast
  then have "linv s' (H(b := None))" using linv_rest[OF b(6) 5(1) b(2)] b(4) by simp
  then show ?case using b log_rest[OF b(6)] lrest_eq[OF b(6)] by auto
next
  case (6 s H n)
  then show ?case using bc.clean linvD(3) by blast
qed

section \<open>Properties\<close>

text \<open>A log of 30 blocks at block 2, as \<^verbatim>\<open>mkfs\<close> makes it, on a disk of zeros.\<close>

definition sb0 :: superblock where
  "sb0 = \<lparr>magic = 0x10203040, fssize = 2000, nblocks = 1954, ninodes = 200, nlog = 30, logstart = 2, inodestart = 32, bmapstart = 45\<rparr>"

definition boot_log :: log where
  "boot_log = binit \<lparr>bufs = (\<lambda>_. zero_buf), bnext = (\<lambda>_. 0), bprev = (\<lambda>_. 0), disk = (\<lambda>_ _. 0), writes = [], pid = 1,
     lstart = 0, lsize = 0, outstanding = 0, committing = False, ldev = 0, lh_n = 0, lh_block = replicate 30 0\<rparr>"

lemma nget_zero: "nget n (\<lambda>_. 0) a = 0"
  by (induction n arbitrary: a) simp_all

lemma get32_zero [simp]: "get32 (\<lambda>_. 0) a = 0"
  by (simp add: get32_def nget_zero)

lemma sb0_simps [simp]: "logstart sb0 = 2" "sint (nlog sb0) = 30"
  by (simp_all add: sb0_def)

lemma boot_log_ok: "rebooted boot_log" "disk boot_log = (\<lambda>_ _. 0)" "outstanding boot_log = 0" "\<not> committing boot_log"
  and wf_zero: "wf_log 2 30 (\<lambda>_ _. 0)"
proof -
  define s0 :: log where "s0 = \<lparr>bufs = (\<lambda>_. zero_buf), bnext = (\<lambda>_. 0), bprev = (\<lambda>_. 0), disk = (\<lambda>_ _. 0), writes = [], pid = 1,
     lstart = 0, lsize = 0, outstanding = 0, committing = False, ldev = 0, lh_n = 0, lh_block = replicate 30 0\<rparr>"
  have b: "boot_log = binit s0" by (simp add: boot_log_def s0_def)
  have r: "(pid (binit s0), bio.more (binit s0)) = (pid s0, bio.more s0)" by simp
  note R = log_rest[OF r]
  have "cinv (binit s0) Map.empty {}" by (rule binit_cinv) (simp add: s0_def)
  then show "rebooted boot_log" unfolding rebooted_def b using R by (simp add: s0_def)
  show "disk boot_log = (\<lambda>_ _. 0)" "outstanding boot_log = 0" "\<not> committing boot_log" unfolding b using R by (simp_all add: s0_def)
  show "wf_log 2 30 (\<lambda>_ _. 0)" by (simp add: wf_log_def hdr_blocks_def)
qed

lemma linv_outstanding: "linv (s\<lparr>outstanding := k\<rparr>) H = linv s H"
  by (simp add: linv_def lgood_def larea_def blocks_def)

lemma example_tx:
  "\<exists>s :: log. linv s Map.empty \<and> blocks s = [50] \<and> lh_n s = 1 \<and> outstanding s = 1 \<and> \<not> committing s \<and> lstart s = 2 \<and> lsize s = 30 \<and>
     disk s 50 = (\<lambda>_. 0) \<and> view s 50 = (\<lambda>_. 7)"
proof -
  obtain t :: log where t: "linv t Map.empty" "lh_n t = 0" "disk t = (\<lambda>_ _. 0)(2 := hdr [] (\<lambda>_. 0))" "lstart t = 2" "lsize t = 30" "outstanding t = 0" "\<not> committing t"
    using initlog_ok[OF boot_log_ok(1), of sb0] wf_zero boot_log_ok
    by (auto simp: log_area_def replay_def install_writes_def hdr_blocks_def recovery_writes_def)
  let ?s = "t\<lparr>outstanding := 1\<rparr>"
  have l: "linv ?s Map.empty" using t(1) by (simp add: linv_outstanding)
  have b: "blocks ?s = []" using t(2) by (simp add: blocks_def)
  have a: "50 \<notin> larea ?s"
  proof
    assume "50 \<in> larea ?s"
    then obtain i where i: "i < 30" "(50 :: uint) = 2 + of_nat i" using t by (auto simp: larea_def log_area_def)
    then have "(of_nat i :: uint) = 48" by (simp add: algebra_simps)
    then have "unat (of_nat i :: uint) = unat (48 :: uint)" by (rule arg_cong)
    then have "unat (of_nat i :: uint) = 48" by simp
    moreover have "unat (of_nat i :: uint) = i" using i by (intro unat_of_nat_small) simp
    ultimately show False using i by simp
  qed
  obtain s where s: "linv s Map.empty" "view s = (view ?s)(50 := (\<lambda>_. 7))" "blocks s = [50]" "disk s = disk ?s" "lrest s = lrest ?s"
    using tx.update_block[OF l, of 50 "\<lambda>_. 7"] a t b by (auto simp: log_cap_def tx.same_def)
  moreover have "lh_n s = 1" using lgoodD(3,6)[OF linvD(1)[OF s(1)]] s(3) by simp
  ultimately show ?thesis using t by (intro exI[of _ s]) (simp add: lrest_def)
qed

lemma linv_committing: "linv (s\<lparr>committing := k\<rparr>) H = linv s H"
  by (simp add: linv_def lgood_def larea_def blocks_def)

lemma end_op_last:
  assumes l: "linv s Map.empty" and o: "outstanding s = 1" "\<not> committing s"
  shows "\<exists>s'. end_op s = Inr s' \<and> linv s' Map.empty \<and> lh_n s' = 0 \<and>
    writes s' = writes s @ (if 0 < lh_n s then commit_writes s else []) \<and>
    disk s' = apply_writes (if 0 < lh_n s then commit_writes s else []) (disk s) \<and>
    lstart s' = lstart s \<and> lsize s' = lsize s \<and> outstanding s' = 0 \<and> \<not> committing s' \<and> pid s' = pid s \<and> log.more s' = log.more s"
proof -
  let ?s = "s\<lparr>outstanding := 0, committing := True\<rparr>"
  have l': "linv ?s Map.empty" using l by (simp add: linv_outstanding linv_committing)
  have w: "commit_writes ?s = commit_writes s"
    by (simp add: commit_writes_def log_writes_def home_writes_def blocks_def)
  show ?thesis
  proof (cases "0 < lh_n s")
    case True
    then obtain s' where s': "commit ?s = Inr s'" "linv s' Map.empty" "lh_n s' = 0" "disk s' = apply_writes (commit_writes s) (disk s)"
      "writes s' = writes s @ commit_writes s" "lstart s' = lstart s" "lsize s' = lsize s" "outstanding s' = 0" "pid s' = pid s" "log.more s' = log.more s"
      using commit_ok[OF l'] w by auto
    then show ?thesis using True o
      by (intro exI[of _ "s'\<lparr>committing := False\<rparr>"]) (simp add: end_op_def linv_committing)
  next
    case False
    then have "lh_n s = 0" using lgoodD(3)[OF linvD(1)[OF l]] by simp
    then show ?thesis using False o l
      by (intro exI[of _ "s\<lparr>outstanding := 0, committing := False\<rparr>"]) (simp add: end_op_def commit_def linv_committing linv_outstanding)
  qed
qed

lemma wf_linv:
  assumes l: "linv s Map.empty"
  shows "wf_log (lstart s) (lsize s) (disk s)" and "replay (lstart s) (disk s) = disk s"
proof -
  have z: "get32 (disk s (lstart s)) 0 = 0" using linvD(4)[OF l] .
  show "wf_log (lstart s) (lsize s) (disk s)" using lgoodD(3-5)[OF linvD(1)[OF l]] by (simp add: wf_log_def z hdr_blocks_zero[OF z])
  show "replay (lstart s) (disk s) = disk s" by (simp add: replay_def install_writes_def hdr_blocks_zero[OF z])
qed

text \<open>
  C1. Crash safety. When the last operation of a transaction ends, \<^verbatim>\<open>end_op\<close> returns with every block of
  the transaction on the disk. If the machine stops after any number of its disk writes and starts
  again, \<^verbatim>\<open>initlog\<close> returns with either all blocks as they were before the transaction or all blocks
  as the transaction left them.
\<close>

theorem crash_atomic:
  fixes s :: "'a log_scheme"
  assumes "linv s Map.empty" and "outstanding s = 1" and "\<not> committing s"
    and "logstart sb = lstart s" and "sint (nlog sb) = lsize s"
  shows "\<exists>s' W. end_op s = Inr s' \<and> writes s' = writes s @ W \<and> linv s' Map.empty \<and> lh_n s' = 0 \<and>
    (\<forall>n. n \<notin> larea s \<longrightarrow> disk s' n = view s n) \<and>
    (\<forall>ws (t :: 'a log_scheme). prefix ws W \<and> rebooted t \<and> disk t = apply_writes ws (disk s) \<longrightarrow>
      (\<exists>t'. initlog ROOTDEV sb t = Inr t' \<and> linv t' Map.empty \<and>
         ((\<forall>n. n \<notin> larea s \<longrightarrow> disk t' n = disk s n) \<or> (\<forall>n. n \<notin> larea s \<longrightarrow> disk t' n = view s n))))"
proof -
  define W where "W = (if 0 < lh_n s then commit_writes s else [])"
  obtain s' where s': "end_op s = Inr s'" "linv s' Map.empty" "lh_n s' = 0" "writes s' = writes s @ W" "disk s' = apply_writes W (disk s)"
    using end_op_last[OF assms(1-3)] unfolding W_def by blast
  have "prefix ws W \<Longrightarrow> prefix ws (commit_writes s)" for ws by (simp add: W_def split: if_splits)
  note P = commit_prefix[OF assms(1) this]
  have cr: "\<exists>t'. initlog ROOTDEV sb t = Inr t' \<and> linv t' Map.empty \<and>
      ((\<forall>n. n \<notin> larea s \<longrightarrow> disk t' n = disk s n) \<or> (\<forall>n. n \<notin> larea s \<longrightarrow> disk t' n = view s n))"
    if a: "prefix ws W" "rebooted t" "disk t = apply_writes ws (disk s)" for ws and t :: "'a log_scheme"
    using initlog_ok[OF a(2), of sb] P[OF a(1)] unfolding a(3)[symmetric] assms(4,5) larea_def by metis
  have "disk s' n = view s n" if n: "n \<notin> larea s" for n
  proof (cases "0 < lh_n s")
    case True
    have "n \<noteq> lstart s" using n lgoodD(11)[OF linvD(1)[OF assms(1)]] by blast
    then show ?thesis using logged_replay(2-4)[OF assms(1)] n True s'(5)
      by (auto simp: W_def recovery_writes_def replay_def)
  next
    case False
    then have "blocks s = []" by (simp add: blocks_def)
    then show ?thesis using bc.clean[OF linvD(3)[OF assms(1)], of n] False s'(5) by (simp add: W_def)
  qed
  then show ?thesis using s' cr by (intro exI[of _ s'] exI[of _ W]) blast
qed

theorem crash_atomic_witness:
  "\<exists>s s' :: log. end_op s = Inr s' \<and> disk s 50 = (\<lambda>_. 0) \<and> disk s' 50 = (\<lambda>_. 7) \<and>
     (\<exists>W. writes s' = writes s @ W \<and> (\<forall>ws (t :: log). prefix ws W \<and> rebooted t \<and> disk t = apply_writes ws (disk s) \<longrightarrow>
        (\<exists>t'. initlog ROOTDEV sb0 t = Inr t')))"
proof -
  obtain s :: log where s: "linv s Map.empty" "blocks s = [50]" "outstanding s = 1" "\<not> committing s" "lstart s = 2" "lsize s = 30"
    "disk s 50 = (\<lambda>_. 0)" "view s 50 = (\<lambda>_. 7)" using example_tx by blast
  have "50 \<notin> larea s" using lgoodD(10)[OF linvD(1)[OF s(1)], of 50] s(2) by simp
  moreover have pre: "logstart sb0 = lstart s" "sint (nlog sb0) = lsize s" using s(5,6) by simp_all
  ultimately obtain s' W where e: "end_op s = Inr s'" "writes s' = writes s @ W" "disk s' 50 = view s 50"
    and r: "\<And>ws (t :: log). prefix ws W \<and> rebooted t \<and> disk t = apply_writes ws (disk s) \<Longrightarrow> \<exists>t'. initlog ROOTDEV sb0 t = Inr t'"
    using crash_atomic[OF s(1,3,4) pre] by metis
  show ?thesis by (rule exI[of _ s], rule exI[of _ s'], intro conjI, rule e(1), rule s(7), simp add: e(3) s(8), rule exI[of _ W]) (use e r in blast)
qed

text \<open>
  C21. A crash during recovery is harmless: started again after any number of the disk writes of
  \<^verbatim>\<open>initlog\<close>, \<^verbatim>\<open>initlog\<close> returns with the same file system blocks.
\<close>

theorem recovery_restart:
  fixes t :: "'a log_scheme"
  assumes "rebooted t" and "wf_log (logstart sb) (sint (nlog sb)) (disk t)"
  shows "\<exists>t' W. initlog ROOTDEV sb t = Inr t' \<and> writes t' = writes t @ W \<and>
    (\<forall>ws (u :: 'a log_scheme). prefix ws W \<and> rebooted u \<and> disk u = apply_writes ws (disk t) \<longrightarrow>
      (\<exists>u'. initlog ROOTDEV sb u = Inr u' \<and> linv u' Map.empty \<and>
         (\<forall>n. n \<notin> log_area (logstart sb) (sint (nlog sb)) \<longrightarrow> disk u' n = disk t' n)))"
proof -
  let ?W = "recovery_writes (logstart sb) (disk t)" and ?A = "log_area (logstart sb) (sint (nlog sb))"
  obtain t' where t': "initlog ROOTDEV sb t = Inr t'" "writes t' = writes t @ ?W"
    "\<forall>n. n \<notin> ?A \<longrightarrow> disk t' n = replay (logstart sb) (disk t) n" using initlog_ok[OF assms] by blast
  have "\<exists>u'. initlog ROOTDEV sb u = Inr u' \<and> linv u' Map.empty \<and> (\<forall>n. n \<notin> ?A \<longrightarrow> disk u' n = disk t' n)"
    if u: "prefix ws ?W" "rebooted u" "disk u = apply_writes ws (disk t)" for ws and u :: "'a log_scheme"
    using recovery_prefix[OF assms(2) u(1)] initlog_ok[OF u(2), of sb] t'(3) unfolding u(3)[symmetric] by metis
  then show ?thesis using t' by (intro exI[of _ t'] exI[of _ ?W]) blast
qed

theorem recovery_restart_witness:
  "\<exists>t'. initlog ROOTDEV sb0 boot_log = Inr t' \<and>
     (\<exists>u'. initlog ROOTDEV sb0 boot_log = Inr u' \<and> (\<forall>n. n \<notin> log_area 2 30 \<longrightarrow> disk u' n = disk t' n))"
proof -
  have "prefix [] W" for W :: "(uint \<times> block) list" by simp
  then show ?thesis using recovery_restart[OF boot_log_ok(1), of sb0] wf_zero boot_log_ok(1,2)
    by (metis sb0_simps apply_writes_simps(1))
qed

text \<open>
  \<^verbatim>\<open>log_write\<close> of a held block outside the log, inside an operation and with room in the log, records the
  block once however often it is called and changes no contents; without room or outside an
  operation it panics.
\<close>

theorem log_write_correct:
  assumes "linv s H" and "H b = Some n"
  shows "(1 \<le> outstanding s \<and> lh_n s < lsize s - 1 \<longrightarrow>
      (\<exists>s'. log_write b s = Inr s' \<and> linv s' H \<and> view s' = view s \<and> disk s' = disk s \<and>
         blocks s' = (if n \<in> set (blocks s) then blocks s else blocks s @ [n]) \<and>
         (lh_n s' < lsize s - 1 \<longrightarrow> log_write b s' = Inr s'))) \<and>
    (lsize s - 1 \<le> lh_n s \<longrightarrow> log_write b s = Inl (Panic ''too big a transaction'')) \<and>
    (lh_n s < lsize s - 1 \<and> outstanding s < 1 \<longrightarrow> log_write b s = Inl (Panic ''log_write outside of trans''))"
proof (intro conjI impI)
  assume a: "1 \<le> outstanding s \<and> lh_n s < lsize s - 1"
  then obtain s' where s': "log_write b s = Inr s'" "linv s' H" "view s' = view s" "disk s' = disk s"
    "blocks s' = (if n \<in> set (blocks s) then blocks s else blocks s @ [n])" "outstanding s' = outstanding s" "lsize s' = lsize s"
    using log_write_ok[OF assms] by blast
  have "log_write b s' = Inr s'" if "lh_n s' < lsize s - 1"
  proof -
    note A = absorb_index[OF linvD(1)[OF s'(2)], of n] and G = lgoodD[OF linvD(1)[OF s'(2)]]
    have n: "n \<in> set (blocks s')" using s'(5) by simp
    have i: "absorb_index n s' < nat (lh_n s')" using A(1,2) n by linarith
    have "(lh_block s')[absorb_index n s' := n] = lh_block s'"
      using list_update_id[of "lh_block s'" "absorb_index n s'"] A(3)[OF n] by simp
    then have "set_block (absorb_index n s') n s' = Inr s'" using i G(2,7) by (simp add: set_block_def)
    moreover have "blockno (bufs s' b) = n" using cinvD(6)[OF linvD(3)[OF s'(2)] assms(2)] by (simp add: cached_def)
    ultimately show ?thesis using that a s'(6,7) G(5) i by (simp add: log_write_def)
  qed
  then show "\<exists>s'. log_write b s = Inr s' \<and> linv s' H \<and> view s' = view s \<and> disk s' = disk s \<and>
         blocks s' = (if n \<in> set (blocks s) then blocks s else blocks s @ [n]) \<and>
         (lh_n s' < lsize s - 1 \<longrightarrow> log_write b s' = Inr s')"
    using s' by blast
qed (use lgoodD(5)[OF linvD(1)[OF assms(1)]] in \<open>simp_all add: log_write_def\<close>)

lemma home_block: "lstart s = 2 \<Longrightarrow> lsize s = 30 \<Longrightarrow> 32 \<le> n \<Longrightarrow> n < 2 ^ 32 \<Longrightarrow> of_nat n \<notin> larea s"
proof
  assume n: "lstart s = 2" "lsize s = 30" "32 \<le> n" "n < 2 ^ 32" and "of_nat n \<in> larea s"
  then obtain i where i: "i < 30" "(of_nat n :: uint) = of_nat (2 + i)" by (auto simp: larea_def log_area_def)
  then have "unat (of_nat n :: uint) = unat (of_nat (2 + i) :: uint)" by simp
  moreover have "unat (of_nat n :: uint) = n" using n by (intro unat_of_nat_small) simp
  moreover have "unat (of_nat (2 + i) :: uint) = 2 + i" using i by (intro unat_of_nat_small) simp
  ultimately show False using n i by simp
qed

theorem log_write_correct_witness:
  "\<exists>(s :: log) b s'. linv s [b \<mapsto> 51] \<and> log_write b s = Inr s' \<and> blocks s' = [50, 51]"
proof -
  obtain s :: log where s: "linv s Map.empty" "blocks s = [50]" "lh_n s = 1" "outstanding s = 1" "lstart s = 2" "lsize s = 30"
    using example_tx by blast
  have "51 \<notin> larea s" using home_block[OF s(5,6), of 51] by simp
  then obtain b t where t: "linv t [b \<mapsto> 51]" "blocks t = [50]" "lrest t = lrest s" using tx.rd[OF s(1), of 51] s(2) by auto
  have "lh_n t = 1" using lgoodD(3,6)[OF linvD(1)[OF t(1)]] t(2) by simp
  then obtain s' where "log_write b t = Inr s'" "blocks s' = [50, 51]"
    using log_write_correct[OF t(1), of b 51] t(2,3) s by (auto simp: lrest_def)
  then show ?thesis using t(1) by blast
qed

section \<open>Operations in any order\<close>

text \<open>
  The states the log goes through after boot: operations begin, change blocks outside the log, read
  blocks, and end, in any order that none of the calls refuses.
\<close>

inductive log_run :: "superblock \<Rightarrow> log \<Rightarrow> bool" for sb where
  boot: "rebooted t \<Longrightarrow> outstanding t = 0 \<Longrightarrow> \<not> committing t \<Longrightarrow> wf_log (logstart sb) (sint (nlog sb)) (disk t) \<Longrightarrow>
    initlog ROOTDEV sb t = Inr s \<Longrightarrow> log_run sb s"
| begin_op: "log_run sb s \<Longrightarrow> begin_op s = Inr s' \<Longrightarrow> log_run sb s'"
| change: "log_run sb s \<Longrightarrow> n \<notin> larea s \<Longrightarrow> bread ROOTDEV n s = Inr (b, s1) \<Longrightarrow> log_write b (set_data b v s1) = Inr s2 \<Longrightarrow>
    brelse b s2 = Inr s' \<Longrightarrow> log_run sb s'"
| look: "log_run sb s \<Longrightarrow> n \<notin> larea s \<Longrightarrow> bread ROOTDEV n s = Inr (b, s1) \<Longrightarrow> brelse b s1 = Inr s' \<Longrightarrow> log_run sb s'"
| end_op: "log_run sb s \<Longrightarrow> 1 \<le> outstanding s \<Longrightarrow> end_op s = Inr s' \<Longrightarrow> log_run sb s'"

lemma log_write_Inr: "log_write b s = Inr s' \<Longrightarrow> 1 \<le> outstanding s \<and> lh_n s < lsize s - 1"
  by (auto simp: log_write_def split: if_splits)

definition run_inv :: "log \<Rightarrow> bool" where
  "run_inv s \<longleftrightarrow> linv s Map.empty \<and> 0 \<le> outstanding s \<and> outstanding s \<le> 3 \<and> \<not> committing s \<and> (outstanding s = 0 \<longrightarrow> lh_n s = 0)"

lemma linv_length: "linv s H \<Longrightarrow> int (length (blocks s)) = lh_n s \<and> length (blocks s) < 30"
  using lgoodD(3,6,7)[OF linvD(1), of s H] by simp

lemma run_inv_change:
  assumes i: "run_inv s" and n: "n \<notin> larea s" and b: "bread ROOTDEV n s = Inr (b, s1)"
    and w: "log_write b (set_data b v s1) = Inr s2" and r: "brelse b s2 = Inr s'"
  shows "run_inv s' \<and> view s' = (view s)(n := v) \<and> blocks s' = (if n \<in> set (blocks s) then blocks s else blocks s @ [n]) \<and> lrest s' = lrest s"
proof -
  have l: "linv s Map.empty" using i by (simp add: run_inv_def)
  have "(pid (set_data b v s1), bio.more (set_data b v s1)) = (pid s, bio.more s)" using bread_more[OF b] by simp
  note R = log_rest[OF this]
  have cap: "length (blocks s) < log_cap s" using log_write_Inr[OF w] R linv_length[OF l] by (simp add: log_cap_def) linarith
  have room: "card (dom Map.empty) + length (blocks s) < NBUF" using linv_length[OF l] by simp
  have nr: "n \<notin> ran Map.empty" by simp
  obtain b' t q2 q3 where q: "bread ROOTDEV n s = Inr (b', t)" "log_write b' (set_data b' v t) = Inr q2" "brelse b' q2 = Inr q3"
    "linv q3 Map.empty" "view q3 = (view s)(n := v)" "blocks q3 = (if n \<in> set (blocks s) then blocks s else blocks s @ [n])" "tx.same s q3"
    using tx.update_block[OF l nr n room cap] by blast
  have "b' = b" "t = s1" using q(1) b by simp_all
  with q have "linv s' Map.empty" "view s' = (view s)(n := v)" "blocks s' = (if n \<in> set (blocks s) then blocks s else blocks s @ [n])" "lrest s' = lrest s"
    using w r by (simp_all add: tx.same_def)
  then show ?thesis using i log_write_Inr[OF w] R by (auto simp: run_inv_def lrest_def)
qed

lemma run_inv_look:
  assumes i: "run_inv s" and n: "n \<notin> larea s" and b: "bread ROOTDEV n s = Inr (b, s1)" and r: "brelse b s1 = Inr s'"
  shows "run_inv s' \<and> lrest s' = lrest s"
proof -
  have l: "linv s Map.empty" using i by (simp add: run_inv_def)
  have room: "card (dom Map.empty) + length (blocks s) < NBUF" using linv_length[OF l] by simp
  have nr: "n \<notin> ran Map.empty" by simp
  have s': "linv s' Map.empty" "blocks s' = blocks s" "lrest s' = lrest s"
    using tx.read_block[OF l nr n room] b r by (auto simp: tx.same_def)
  then show ?thesis using i linv_length[OF l] linv_length[OF s'(1)] by (auto simp: run_inv_def lrest_def)
qed

lemma run_inv_end:
  assumes i: "run_inv s" and o: "1 \<le> outstanding s" and e: "end_op s = Inr s'"
  shows "run_inv s' \<and> lstart s' = lstart s \<and> lsize s' = lsize s"
proof (cases "outstanding s = 1")
  case True
  then show ?thesis using end_op_last[of s] i e by (auto simp: run_inv_def)
next
  case False
  then have "s' = s\<lparr>outstanding := outstanding s - 1\<rparr>" using i e by (simp add: end_op_def run_inv_def)
  then show ?thesis using i o False by (simp add: run_inv_def linv_outstanding)
qed

lemma run_inv_begin:
  assumes i: "run_inv s" and e: "begin_op s = Inr s'"
  shows "run_inv s' \<and> lstart s' = lstart s \<and> lsize s' = lsize s"
proof -
  have e': "s' = s\<lparr>outstanding := outstanding s + 1\<rparr>" "lh_n s + (outstanding s + 1) * 10 \<le> 30"
    using e by (auto simp: begin_op_def split: if_splits)
  have "0 \<le> lh_n s" using i lgoodD(3) linvD(1) by (auto simp: run_inv_def)
  then show ?thesis using i e' by (simp add: run_inv_def linv_outstanding)
qed

lemma log_run_invariant_aux:
  assumes "log_run sb s"
  shows "run_inv s \<and> lstart s = logstart sb \<and> lsize s = sint (nlog sb)"
  using assms
proof induction
  case (boot t s)
  then show ?case using initlog_ok[OF boot(1,4)] by (auto simp: run_inv_def)
next
  case (begin_op s s')
  then show ?case using run_inv_begin[of s s'] by simp
next
  case (change s n b s1 v s2 s')
  then show ?case using run_inv_change[of s n b s1 v s2 s'] by (auto simp: lrest_def)
next
  case (look s n b s1 s')
  then show ?case using run_inv_look[of s n b s1 s'] by (auto simp: lrest_def)
next
  case (end_op s s')
  then show ?case using run_inv_end[of s s'] by auto
qed


text \<open>A run that logs 29 blocks with three operations under way.\<close>

lemma three_begun: "\<exists>s. log_run sb0 s \<and> outstanding s = 3 \<and> blocks s = []"
proof -
  obtain s where s: "initlog ROOTDEV sb0 boot_log = Inr s" "lh_n s = 0" "outstanding s = 0" "\<not> committing s"
    using initlog_ok[OF boot_log_ok(1), of sb0] wf_zero boot_log_ok by auto
  have r: "log_run sb0 s" by (rule log_run.boot[OF boot_log_ok(1,3,4) _ s(1)]) (simp add: wf_zero boot_log_ok(2))
  let ?o = "\<lambda>k. s\<lparr>outstanding := k\<rparr>"
  have b: "begin_op s = Inr (?o 1)" "begin_op (?o 1) = Inr (?o 2)" "begin_op (?o 2) = Inr (?o 3)"
    using s by (simp_all add: begin_op_def)
  have "log_run sb0 (?o 3)" using r b log_run.begin_op by blast
  then show ?thesis using s by (intro exI[of _ "?o 3"]) (simp add: blocks_def)
qed

lemma run_write:
  assumes r: "log_run sb0 s" and o: "1 \<le> outstanding s" and n: "of_nat n \<notin> set (blocks s)" "32 \<le> n" "n < 2 ^ 32" and l: "length (blocks s) < 29"
  shows "\<exists>s'. log_run sb0 s' \<and> outstanding s' = outstanding s \<and> blocks s' = blocks s @ [of_nat n]"
proof -
  note I = log_run_invariant_aux[OF r]
  have li: "linv s Map.empty" and g: "lstart s = 2" "lsize s = 30" using I by (simp_all add: run_inv_def)
  have a: "of_nat n \<notin> larea s" using home_block[OF g n(2,3)] .
  have room: "card (dom Map.empty) + length (blocks s) < NBUF" and cap: "length (blocks s) < log_cap s"
    using l o g by (simp_all add: log_cap_def)
  have nr: "of_nat n \<notin> ran Map.empty" by simp
  obtain b s1 s2 s' where w: "bread ROOTDEV (of_nat n) s = Inr (b, s1)" "log_write b (set_data b (\<lambda>_. 0) s1) = Inr s2" "brelse b s2 = Inr s'"
    "blocks s' = blocks s @ [of_nat n]" "lrest s' = lrest s"
    using tx.update_block[OF li nr a room cap, of "\<lambda>_. 0"] n(1) by (auto simp: tx.same_def)
  have "log_run sb0 s'" by (rule log_run.change[OF r a w(1,2,3)])
  then show ?thesis using w by (intro exI[of _ s']) (simp add: lrest_def)
qed

lemma many_logged:
  assumes "k \<le> 29"
  shows "\<exists>s. log_run sb0 s \<and> outstanding s = 3 \<and> blocks s = map of_nat [50..<50 + k]"
  using assms
proof (induction k)
  case 0
  then show ?case using three_begun by simp
next
  case (Suc k)
  then obtain s where s: "log_run sb0 s" "outstanding s = 3" "blocks s = map of_nat [50..<50 + k]" by auto
  have "of_nat (50 + k) \<noteq> (of_nat i :: uint)" if "i \<in> {50..<50 + k}" for i
  proof
    assume e: "of_nat (50 + k) = (of_nat i :: uint)"
    have "unat (of_nat (50 + k) :: uint) = 50 + k" "unat (of_nat i :: uint) = i"
      using that Suc.prems by (auto simp del: of_nat_add intro!: unat_of_nat_small)
    then show False using e that by simp
  qed
  then have "of_nat (50 + k) \<notin> set (blocks s)" unfolding s(3) set_map set_upt by blast
  then obtain s' where "log_run sb0 s'" "outstanding s' = 3" "blocks s' = map of_nat [50..<50 + k] @ [of_nat (50 + k)]"
    using run_write[OF s(1), of "50 + k"] s(2,3) Suc.prems by (auto simp del: of_nat_add)
  moreover have "[50..<50 + Suc k] = [50..<50 + k] @ [50 + k]" unfolding add_Suc_right by (rule upt_Suc_append) simp
  ultimately show ?case by (metis list.map(1,2) map_append)
qed

text \<open>
  C32. The admission test of \<^verbatim>\<open>begin_op\<close> does not keep \<^verbatim>\<open>log_write\<close> from panicking: a run with three admitted
  operations, which may log \<^verbatim>\<open>MAXOPBLOCKS\<close> blocks each, reaches a state with 29 blocks in the
  log that \<^verbatim>\<open>mkfs\<close> makes, where \<^verbatim>\<open>log_write\<close> of a thirtieth block stops the kernel.
\<close>

theorem log_admission_gap:
  "\<exists>s b s'. log_run sb0 s \<and> outstanding s = 3 \<and> lh_n s < outstanding s * MAXOPBLOCKS \<and> 100 \<notin> larea s \<and>
     bread ROOTDEV 100 s = Inr (b, s') \<and> log_write b s' = Inl (Panic ''too big a transaction'')"
proof -
  obtain s where s: "log_run sb0 s" "outstanding s = 3" "blocks s = map of_nat [50..<79]" using many_logged[of 29] by auto
  note I = log_run_invariant_aux[OF s(1)]
  have li: "linv s Map.empty" and g: "lstart s = 2" "lsize s = 30" using I by (simp_all add: run_inv_def)
  have n: "lh_n s = 29" using linv_length[OF li] s(3) by simp
  have a: "100 \<notin> larea s" using home_block[OF g, of 100] by simp
  have room: "card (dom Map.empty) + length (blocks s) < NBUF" using s(3) by simp
  obtain b s' where w: "bread ROOTDEV 100 s = Inr (b, s')" using tx.rd[OF li _ a room] by auto
  have "lh_n s' = 29" "lsize s' = 30" using log_rest[OF bread_more[OF w]] n g by simp_all
  then show ?thesis using s n a w by (intro exI[of _ s] exI[of _ b] exI[of _ s']) (simp add: log_write_def)
qed


end
