(* ===== verification/Strings.thy ===== *)
theory Strings
  imports Prelude
begin

text \<open>
  \<^verbatim>\<open>kernel/string.c\<close>. The routines that write memory (\<^verbatim>\<open>memset\<close>,
  \<^verbatim>\<open>memmove\<close>, \<^verbatim>\<open>memcpy\<close>) map a memory to a memory. A pointer that is only
  read is a \<open>cstr\<close>, the bytes found from it on; a routine that fills a buffer from such a
  pointer returns the list of the bytes it writes, in the order of the buffer.
\<close>

type_synonym cstr = "nat \<Rightarrow> uchar"

section \<open>Definitions\<close>

fun memset_upto :: "mem \<Rightarrow> uint64 \<Rightarrow> uchar \<Rightarrow> nat \<Rightarrow> mem" where
  "memset_upto m dst c 0 = m"
| "memset_upto m dst c (Suc i) = (memset_upto m dst c i)(dst + of_nat i := c)"

definition memset :: "mem \<Rightarrow> uint64 \<Rightarrow> uint \<Rightarrow> uint \<Rightarrow> mem" where
  "memset m dst c n = memset_upto m dst (ucast c) (unat n)"

fun memcmp :: "cstr \<Rightarrow> cstr \<Rightarrow> nat \<Rightarrow> int" where
  "memcmp s1 s2 0 = 0"
| "memcmp s1 s2 (Suc n) =
     (if s1 0 \<noteq> s2 0 then int (unat (s1 0)) - int (unat (s2 0))
      else memcmp (\<lambda>i. s1 (Suc i)) (\<lambda>i. s2 (Suc i)) n)"

text \<open>The two loops of \<^verbatim>\<open>memmove\<close>: upwards from \<open>s\<close>, \<open>d\<close>, and downwards to them.\<close>

fun copy_up :: "mem \<Rightarrow> uint64 \<Rightarrow> uint64 \<Rightarrow> nat \<Rightarrow> mem" where
  "copy_up m d s 0 = m"
| "copy_up m d s (Suc n) = copy_up (m(d := m s)) (d + 1) (s + 1) n"

fun copy_down :: "mem \<Rightarrow> uint64 \<Rightarrow> uint64 \<Rightarrow> nat \<Rightarrow> mem" where
  "copy_down m d s 0 = m"
| "copy_down m d s (Suc n) = copy_down (m(d - 1 := m (s - 1))) (d - 1) (s - 1) n"

definition memmove :: "mem \<Rightarrow> uint64 \<Rightarrow> uint64 \<Rightarrow> uint \<Rightarrow> mem" where
  "memmove m dst src n =
     (if n = 0 then m
      else if src < dst \<and> src + ucast n > dst
      then copy_down m (dst + ucast n) (src + ucast n) (unat n)
      else copy_up m dst src (unat n))"

definition memcpy :: "mem \<Rightarrow> uint64 \<Rightarrow> uint64 \<Rightarrow> uint \<Rightarrow> mem" where
  "memcpy m dst src n = memmove m dst src n"

fun strncmp :: "cstr \<Rightarrow> cstr \<Rightarrow> nat \<Rightarrow> int" where
  "strncmp p q 0 = 0"
| "strncmp p q (Suc n) =
     (if p 0 \<noteq> 0 \<and> p 0 = q 0 then strncmp (\<lambda>i. p (Suc i)) (\<lambda>i. q (Suc i)) n
      else int (unat (p 0)) - int (unat (q 0)))"

fun strncpy :: "cstr \<Rightarrow> nat \<Rightarrow> uchar list" where
  "strncpy t 0 = []"
| "strncpy t (Suc n) =
     (if t 0 \<noteq> 0 then t 0 # strncpy (\<lambda>i. t (Suc i)) n else t 0 # replicate n 0)"

text \<open>
  A NUL that \<^verbatim>\<open>safestrcpy\<close> copies is followed by the final \<^verbatim>\<open>*s = 0\<close>, so two
  zero bytes are written then.
\<close>

fun safestrcpy :: "cstr \<Rightarrow> nat \<Rightarrow> uchar list" where
  "safestrcpy t 0 = []"
| "safestrcpy t (Suc 0) = [0]"
| "safestrcpy t (Suc (Suc n)) =
     (if t 0 \<noteq> 0 then t 0 # safestrcpy (\<lambda>i. t (Suc i)) (Suc n) else [t 0, 0])"

partial_function (option) strlen_from :: "cstr \<Rightarrow> nat \<Rightarrow> nat option" where
  "strlen_from s n = (if s n = 0 then Some n else strlen_from s (Suc n))"

definition strlen :: "cstr \<Rightarrow> nat option" where
  "strlen s = strlen_from s 0"

section \<open>Memory\<close>

lemma add_of_nat_eq_iff:
  "n < 2 ^ 64 \<Longrightarrow> (x::uint64) = a + of_nat n \<longleftrightarrow> unat (x - a) = n"
proof -
  assume n: "n < 2 ^ 64"
  have "x = a + of_nat n \<longleftrightarrow> x - a = of_nat n" by (auto simp: algebra_simps)
  also have "\<dots> \<longleftrightarrow> unat (x - a) = n" using n by (auto simp: unat_of_nat_small word_unat_eq_iff)
  finally show ?thesis .
qed

lemma rng_Suc_last: "n < 2 ^ 64 \<Longrightarrow> x \<in> rng a (Suc n) \<longleftrightarrow> x \<in> rng a n \<or> x = a + of_nat n"
  by (simp add: rng_def add_of_nat_eq_iff less_Suc_eq)

lemma memset_upto_apply:
  "n < 2 ^ 64 \<Longrightarrow> memset_upto m d c n x = (if x \<in> rng d n then c else m x)"
  by (induction n) (auto simp: rng_Suc_last)

lemma memset_apply: "memset m d c n x = (if x \<in> rng d (unat n) then ucast c else m x)"
proof -
  have "unat n < 2 ^ 64" using unat_lt32[of n] by simp
  then show ?thesis unfolding memset_def by (rule memset_upto_apply)
qed

text \<open>
  The loops copy correctly when no byte is overwritten before it is read: upwards, the
  \<open>k\<close>-th read comes after the writes \<open>0, \<dots>, k - 1\<close>; downwards, after the later ones.
\<close>

lemma copy_up_apply:
  assumes "n < 2 ^ 64" and "\<And>j k. j < k \<Longrightarrow> k < n \<Longrightarrow> s + of_nat k \<noteq> d + of_nat j"
  shows "copy_up m d s n x = (if x \<in> rng d n then m (s + (x - d)) else m x)"
  using assms
proof (induction n arbitrary: m d s)
  case 0
  then show ?case by simp
next
  case (Suc n)
  have sep: "s + 1 + of_nat k \<noteq> d + 1 + of_nat j" if "j < k" "k < n" for j k
    using Suc.prems(2)[of j k] that by simp
  have keep: "s + (x - d) \<noteq> d" if "x \<in> rng (d + 1) n"
  proof -
    have ne: "x \<noteq> d" using that Suc.prems(1) by (auto dest: in_rng_next)
    then have "0 < unat (x - d)" by (simp add: unat_gt_0)
    moreover have "unat (x - d) < Suc n" using that unat_step[OF ne] by (simp add: rng_def)
    ultimately show ?thesis using Suc.prems(2)[of 0 "unat (x - d)"] by simp
  qed
  have "copy_up (m(d := m s)) (d + 1) (s + 1) n x =
      (if x \<in> rng (d + 1) n then (m(d := m s)) (s + 1 + (x - (d + 1))) else (m(d := m s)) x)"
    using Suc.prems(1) sep by (intro Suc.IH) auto
  moreover have "s + 1 + (x - (d + 1)) = s + (x - d)" by simp
  ultimately show ?case using Suc.prems(1) keep by (auto simp: rng_Suc)
qed

lemma copy_down_apply:
  assumes "n < 2 ^ 64" and "\<And>j k. j < k \<Longrightarrow> k < n \<Longrightarrow> s + of_nat j \<noteq> d + of_nat k"
  shows "copy_down m (d + of_nat n) (s + of_nat n) n x = (if x \<in> rng d n then m (s + (x - d)) else m x)"
  using assms
proof (induction n arbitrary: m)
  case 0
  then show ?case by simp
next
  case (Suc n)
  let ?m = "m(d + of_nat n := m (s + of_nat n))"
  have keep: "s + (x - d) \<noteq> d + of_nat n" if "x \<in> rng d n"
  proof -
    have "unat (x - d) < n" using that by (simp add: rng_def)
    then show ?thesis using Suc.prems(2)[of "unat (x - d)" n] by simp
  qed
  have IH: "copy_down ?m (d + of_nat n) (s + of_nat n) n x = (if x \<in> rng d n then ?m (s + (x - d)) else ?m x)"
    using Suc.prems by (intro Suc.IH) auto
  have "copy_down m (d + of_nat (Suc n)) (s + of_nat (Suc n)) (Suc n) x =
      copy_down ?m (d + of_nat n) (s + of_nat n) n x"
    by simp
  then show ?case unfolding IH using Suc.prems(1) keep by (auto simp: rng_Suc_last)
qed

lemma unat_add_nat: "unat (a::uint64) + k < 2 ^ 64 \<Longrightarrow> unat (a + of_nat k) = unat a + k"
  by (simp add: unat_plus_if' unat_of_nat_small)

lemma ucast_uint_nat: "(ucast (n :: uint) :: uint64) = of_nat (unat n)"
  by simp

lemma memmove_apply:
  assumes "unat src + unat n < 2 ^ 64" and "unat dst + unat n < 2 ^ 64"
  shows "memmove m dst src n x = (if x \<in> rng dst (unat n) then m (src + (x - dst)) else m x)"
proof -
  have n64: "unat n < 2 ^ 64" using assms(1) by simp
  have s: "unat (src + of_nat k) = unat src + k" and d: "unat (dst + of_nat k) = unat dst + k"
    if "k \<le> unat n" for k
    using that assms by (simp_all add: unat_add_nat del: of_nat_numeral)
  consider (zero) "n = 0" | (down) "n \<noteq> 0" "src < dst \<and> src + ucast n > dst"
    | (up) "n \<noteq> 0" "\<not> (src < dst \<and> src + ucast n > dst)" by blast
  then show ?thesis
  proof cases
    case zero
    then show ?thesis by (simp add: memmove_def)
  next
    case down
    then have lt: "unat src < unat dst" by (simp add: word_less_nat_alt)
    have "src + of_nat j \<noteq> dst + of_nat k" if "j < k" "k < unat n" for j k
    proof
      assume "src + of_nat j = dst + of_nat k"
      then have "unat (src + of_nat j) = unat (dst + of_nat k)" by (rule arg_cong)
      then show False using s[of j] d[of k] lt that by linarith
    qed
    then have "copy_down m (dst + of_nat (unat n)) (src + of_nat (unat n)) (unat n) x =
        (if x \<in> rng dst (unat n) then m (src + (x - dst)) else m x)"
      by (intro copy_down_apply n64)
    then show ?thesis using down by (simp add: memmove_def)
  next
    case up
    have ge: "unat dst \<le> unat src \<or> unat src + unat n \<le> unat dst"
      using up(2) s[of "unat n"] by (auto simp: word_less_nat_alt)
    have "src + of_nat k \<noteq> dst + of_nat j" if "j < k" "k < unat n" for j k
    proof
      assume "src + of_nat k = dst + of_nat j"
      then have "unat (src + of_nat k) = unat (dst + of_nat j)" by (rule arg_cong)
      then show False using s[of k] d[of j] ge that by linarith
    qed
    then have "copy_up m dst src (unat n) x = (if x \<in> rng dst (unat n) then m (src + (x - dst)) else m x)"
      by (intro copy_up_apply n64)
    then show ?thesis using up unfolding memmove_def by (simp only: if_False)
  qed
qed

section \<open>C strings\<close>

text \<open>The string a buffer of \<open>n\<close> bytes holds: up to the first NUL, or all of it.\<close>

definition cstring :: "cstr \<Rightarrow> nat \<Rightarrow> uchar list" where
  "cstring p n = takeWhile (\<lambda>c. c \<noteq> 0) (map p [0..<n])"

lemma cstring_0 [simp]: "cstring p 0 = []"
  by (simp add: cstring_def)

lemma cstring_Suc: "cstring p (Suc n) = (if p 0 = 0 then [] else p 0 # cstring (\<lambda>i. p (Suc i)) n)"
  by (simp add: cstring_def map_upt_Suc del: upt_Suc)

lemma length_cstring: "length (cstring p n) \<le> n"
  unfolding cstring_def using length_takeWhile_le[of _ "map p [0..<n]"] by simp

lemma strncmp_eq_0: "strncmp p q n = 0 \<longleftrightarrow> cstring p n = cstring q n"
  by (induction n arbitrary: p q) (auto simp: cstring_Suc word_uint_eq_iff)

lemma strncpy_eq: "strncpy t n = cstring t n @ replicate (n - length (cstring t n)) 0"
  by (induction n arbitrary: t) (auto simp: cstring_Suc)

lemma length_strncpy [simp]: "length (strncpy t n) = n"
  by (induction n arbitrary: t) auto

lemma cstring_strncpy: "cstring (\<lambda>i. strncpy t n ! i) n = cstring t n"
  by (induction n arbitrary: t) (auto simp: cstring_Suc)

lemma safestrcpy_terminated:
  "0 < n \<Longrightarrow> length (safestrcpy t n) \<le> n \<and> cstring (\<lambda>i. safestrcpy t n ! i) (length (safestrcpy t n)) = cstring t (n - 1)
     \<and> 0 \<in> set (safestrcpy t n)"
proof (induction t n rule: safestrcpy.induct)
  case (3 t n)
  then show ?case by (cases "t 0 = 0") (auto simp: cstring_Suc)
qed (auto simp: cstring_Suc)

lemma strlen_from_first: "s (n + k) = 0 \<Longrightarrow> (\<And>j. j < k \<Longrightarrow> s (n + j) \<noteq> 0) \<Longrightarrow> strlen_from s n = Some (n + k)"
proof (induction k arbitrary: n)
  case 0
  then show ?case by (simp add: strlen_from.simps)
next
  case (Suc k)
  have "s (Suc n + j) \<noteq> 0" if "j < k" for j using Suc.prems(2)[of "Suc j"] that by simp
  then have "strlen_from s (Suc n) = Some (Suc n + k)"
    using Suc.prems(1) by (intro Suc.IH) simp_all
  moreover have "s n \<noteq> 0" using Suc.prems(2)[of 0] by simp
  ultimately show ?case by (simp add: strlen_from.simps[of s n])
qed

lemma strlen_eq: "s k = 0 \<Longrightarrow> (\<And>j. j < k \<Longrightarrow> s j \<noteq> 0) \<Longrightarrow> strlen s = Some k"
  using strlen_from_first[of s 0 k] by (simp add: strlen_def)

section \<open>Properties\<close>

text \<open>
  C29. \<^verbatim>\<open>memmove\<close> copies the \<open>n\<close> source bytes as they were before the call to the
  destination, whatever the overlap of the two ranges, and changes no other byte, for ranges
  that do not run past the end of the address space.
\<close>

theorem memmove_correct:
  assumes "unat src + unat n < 2 ^ 64" and "unat dst + unat n < 2 ^ 64"
  shows "memmove m dst src n = (\<lambda>x. if x \<in> rng dst (unat n) then m (src + (x - dst)) else m x)"
  using assms by (intro ext memmove_apply)

theorem memmove_correct_witness:
  "memmove (\<lambda>a. ucast a) 101 100 3 = (\<lambda>x. if x \<in> rng 101 3 then ucast (100 + (x - 101)) else ucast x)"
  using memmove_correct[of 100 3 101 "\<lambda>a. ucast a"] by simp

end
