(* ===== verification/Kalloc.thy ===== *)
theory Kalloc
  imports Strings
begin

text \<open>
  \<^verbatim>\<open>kernel/kalloc.c\<close>: the physical page allocator. The free pages form a linked list
  threaded through the pages themselves (\<^verbatim>\<open>struct run\<close>): \<open>freelist\<close> is the address of
  the first one and the first eight bytes of each hold the address of the next. The state is
  the physical memory with that list head; \<open>kend\<close> is the linker's symbol \<^verbatim>\<open>end\<close>, which no
  operation changes. \<open>page_pool\<close> is the contract the rest of the kernel relies on: a pool of
  whole pages in which an allocated page is private to its owner.
\<close>

section \<open>State and operations\<close>

abbreviation KERNBASE :: uint64 where "KERNBASE \<equiv> 0x80000000"

abbreviation PHYSTOP :: uint64 where "PHYSTOP \<equiv> 0x88000000"

record phys =
  pmem :: mem
  freelist :: uint64
  kend :: uint64

definition kfree :: "uint64 \<Rightarrow> phys \<Rightarrow> phys res" where
  "kfree pa s =
     (if pa mod PGSIZE \<noteq> 0 \<or> pa < kend s \<or> pa \<ge> PHYSTOP then Inl (Panic ''kfree'')
      else
        let m = memset (pmem s) pa 1 4096;
            m = store64 m pa (freelist s)
        in Inr (s\<lparr>pmem := m, freelist := pa\<rparr>))"

definition kalloc :: "phys \<Rightarrow> uint64 \<times> phys" where
  "kalloc s =
     (let r = freelist s in
      if r \<noteq> 0
      then let s = s\<lparr>freelist := load64 (pmem s) r\<rparr>
           in (r, s\<lparr>pmem := memset (pmem s) r 5 4096\<rparr>)
      else (r, s))"

text \<open>
  The loop of \<^verbatim>\<open>freerange\<close>. Its counter can wrap around when \<open>pa_end\<close> lies in the last
  page of the address space, so the number of rounds is bounded by fuel; \<open>freerange\<close> gives
  one round for every page below \<open>pa_end\<close>.
\<close>

fun freerange_loop :: "nat \<Rightarrow> uint64 \<Rightarrow> uint64 \<Rightarrow> phys \<Rightarrow> phys res" where
  "freerange_loop 0 p pa_end s = (if p + PGSIZE \<le> pa_end then Inl OutOfFuel else Inr s)"
| "freerange_loop (Suc fuel) p pa_end s =
     (if p + PGSIZE \<le> pa_end
      then bindE (kfree p s) (\<lambda>s. freerange_loop fuel (p + PGSIZE) pa_end s)
      else Inr s)"

definition freerange :: "uint64 \<Rightarrow> uint64 \<Rightarrow> phys \<Rightarrow> phys res" where
  "freerange pa_start pa_end s =
     freerange_loop (unat pa_end div 4096) (PGROUNDUP pa_start) pa_end s"

definition kinit :: "phys \<Rightarrow> phys res" where
  "kinit s = freerange (kend s) PHYSTOP s"

section \<open>The free list\<close>

text \<open>\<open>runs m r ps\<close>: following the list from \<open>r\<close> visits the pages \<open>ps\<close> and ends in NULL.\<close>

fun runs :: "mem \<Rightarrow> uint64 \<Rightarrow> uint64 list \<Rightarrow> bool" where
  "runs m r [] \<longleftrightarrow> r = 0"
| "runs m r (p # ps) \<longleftrightarrow> r = p \<and> p \<noteq> 0 \<and> runs m (load64 m p) ps"

definition usable :: "phys \<Rightarrow> uint64 \<Rightarrow> bool" where
  "usable s p \<longleftrightarrow> aligned p \<and> p \<noteq> 0 \<and> kend s \<le> p \<and> p < PHYSTOP"

definition pool :: "phys \<Rightarrow> uint64 list \<Rightarrow> bool" where
  "pool s ps \<longleftrightarrow> runs (pmem s) (freelist s) ps \<and> distinct ps \<and> (\<forall>p \<in> set ps. usable s p)"

lemma runs_unique: "runs m r ps \<Longrightarrow> runs m r qs \<Longrightarrow> ps = qs"
proof (induction ps arbitrary: r qs)
  case Nil
  then show ?case by (cases qs) auto
next
  case (Cons p ps)
  then show ?case by (cases qs) auto
qed

lemma runs_0 [simp]: "runs m 0 ps \<longleftrightarrow> ps = []"
  by (cases ps) auto

lemma runs_cong:
  "(\<And>p x. p \<in> set ps \<Longrightarrow> x \<in> rng p 8 \<Longrightarrow> m x = m' x) \<Longrightarrow> runs m r ps \<longleftrightarrow> runs m' r ps"
proof (induction ps arbitrary: r)
  case Nil
  then show ?case by simp
next
  case (Cons p ps)
  have "load64 m p = load64 m' p" using Cons.prems by (intro load64_cong) auto
  moreover have "runs m (load64 m' p) ps \<longleftrightarrow> runs m' (load64 m' p) ps"
    using Cons.prems by (intro Cons.IH) auto
  ultimately show ?case by simp
qed

lemma word_in_page: "rng p 8 \<subseteq> rng p 4096"
  by (auto simp: rng_def)

text \<open>Changes inside pages that are not free keep the pool.\<close>

lemma pool_cong:
  assumes "pool s ps" and "freelist s' = freelist s" and "kend s' = kend s"
    and "\<And>p x. p \<in> set ps \<Longrightarrow> x \<in> rng p 4096 \<Longrightarrow> pmem s' x = pmem s x"
  shows "pool s' ps"
proof -
  have "runs (pmem s') (freelist s) ps \<longleftrightarrow> runs (pmem s) (freelist s) ps"
    using assms(4) word_in_page by (intro runs_cong) blast
  then show ?thesis using assms(1-3) by (simp add: pool_def usable_def)
qed

lemma kfree_ok: "usable s pa \<Longrightarrow> \<exists>s'. kfree pa s = Inr s'"
  by (auto simp: kfree_def usable_def aligned_def Let_def not_less not_le)

lemma kfree_Inr_usable: "kfree pa s = Inr s' \<Longrightarrow> kend s \<noteq> 0 \<Longrightarrow> usable s pa"
  by (auto simp: kfree_def usable_def aligned_def Let_def not_less not_le split: if_splits)

lemma kfree_frame:
  assumes "kfree pa s = Inr s'"
  shows "freelist s' = pa" and "kend s' = kend s" and "x \<notin> rng pa 4096 \<Longrightarrow> pmem s' x = pmem s x"
    and "load64 (pmem s') pa = freelist s"
proof -
  have "x \<notin> rng pa 4096 \<Longrightarrow> x \<notin> rng pa 8" using word_in_page[of pa] by blast
  then show "freelist s' = pa" and "kend s' = kend s" and "x \<notin> rng pa 4096 \<Longrightarrow> pmem s' x = pmem s x"
    and "load64 (pmem s') pa = freelist s"
    using assms by (auto simp: kfree_def Let_def memset_apply split: if_splits)
qed

lemma pool_kfree:
  assumes "pool s ps" and "usable s pa" and "pa \<notin> set ps" and "kfree pa s = Inr s'"
  shows "pool s' (pa # ps)"
proof -
  have "pmem s' x = pmem s x" if "p \<in> set ps" "x \<in> rng p 8" for p x
  proof -
    have "p \<noteq> pa" "aligned p" "aligned pa" using assms that by (auto simp: pool_def usable_def)
    then have "x \<notin> rng pa 4096" using page_disjoint[of p pa] that word_in_page by blast
    then show ?thesis using kfree_frame(3)[OF assms(4)] by blast
  qed
  then have "runs (pmem s') (freelist s) ps"
    using assms(1) by (subst runs_cong[of ps _ "pmem s"]) (auto simp: pool_def)
  then show ?thesis
    using assms kfree_frame[OF assms(4)] by (auto simp: pool_def usable_def)
qed

lemma pool_kalloc:
  assumes "pool s ps" and "kalloc s = (r, s')"
  shows "ps = [] \<Longrightarrow> r = 0 \<and> s' = s"
    and "ps = p # qs \<Longrightarrow> r = p \<and> pool s' qs"
proof -
  show "ps = [] \<Longrightarrow> r = 0 \<and> s' = s"
    using assms by (auto simp: pool_def kalloc_def)
  assume ps: "ps = p # qs"
  then have p: "freelist s = p" "p \<noteq> 0" "runs (pmem s) (load64 (pmem s) p) qs"
    using assms(1) by (auto simp: pool_def)
  then have s': "r = p" "s' = s\<lparr>freelist := load64 (pmem s) p, pmem := memset (pmem s) p 5 4096\<rparr>"
    using assms(2) by (auto simp: kalloc_def Let_def)
  have "pmem s' x = pmem s x" if "q \<in> set qs" "x \<in> rng q 8" for q x
  proof -
    have "q \<noteq> p" "aligned q" "aligned p" using assms(1) ps that by (auto simp: pool_def usable_def)
    then have "x \<notin> rng p 4096" using page_disjoint[of q p] that word_in_page by blast
    then show ?thesis by (simp add: s' memset_apply)
  qed
  then have "runs (pmem s') (load64 (pmem s) p) qs"
    using p by (subst runs_cong[of qs _ "pmem s"]) auto
  then show "r = p \<and> pool s' qs"
    using assms(1) ps s' by (auto simp: pool_def usable_def)
qed

lemma kalloc_frame:
  assumes "kalloc s = (r, s')"
  shows "kend s' = kend s" and "r \<noteq> 0 \<Longrightarrow> x \<in> rng r 4096 \<Longrightarrow> pmem s' x = 5"
    and "x \<notin> rng r 4096 \<Longrightarrow> pmem s' x = pmem s x" and "r = 0 \<Longrightarrow> s' = s"
  using assms by (auto simp: kalloc_def Let_def memset_apply split: if_splits)

section \<open>The contract of the allocator\<close>

locale page_pool =
  fixes alloc :: "'s \<Rightarrow> uint64 \<times> 's"
    and free :: "uint64 \<Rightarrow> 's \<Rightarrow> 's res"
    and byte :: "'s \<Rightarrow> uint64 \<Rightarrow> uchar"
    and avail :: "'s \<Rightarrow> uint64 list \<Rightarrow> bool"
    and owned :: "'s \<Rightarrow> uint64 \<Rightarrow> bool"
  assumes avail_owned: "avail s ps \<Longrightarrow> distinct ps \<and> (\<forall>p \<in> set ps. owned s p)"
    and owned_page: "owned s p \<Longrightarrow> aligned p \<and> p \<noteq> 0"
    and alloc_Nil: "avail s [] \<Longrightarrow> alloc s = (0, s)"
    and alloc_Cons: "avail s (p # ps) \<Longrightarrow> \<exists>s'. alloc s = (p, s') \<and> avail s' ps"
    and alloc_frame: "alloc s = (r, s') \<Longrightarrow> x \<notin> rng r 4096 \<Longrightarrow> byte s' x = byte s x"
    and alloc_owned: "alloc s = (r, s') \<Longrightarrow> owned s' p = owned s p"
    and free_avail: "avail s ps \<Longrightarrow> owned s p \<Longrightarrow> p \<notin> set ps \<Longrightarrow>
      \<exists>s'. free p s = Inr s' \<and> avail s' (p # ps)"
    and free_frame: "free p s = Inr s' \<Longrightarrow> x \<notin> rng p 4096 \<Longrightarrow> byte s' x = byte s x"
begin

lemma alloc_fresh:
  assumes "avail s ps" and "alloc s = (r, s')" and "r \<noteq> 0"
  shows "ps = r # tl ps" and "avail s' (tl ps)" and "owned s r" and "r \<notin> set (tl ps)"
proof -
  have "ps \<noteq> []" using assms alloc_Nil[of s] by auto
  then obtain p qs where ps: "ps = p # qs" by (cases ps) auto
  then show "ps = r # tl ps" and "avail s' (tl ps)"
    using alloc_Cons[of s p qs] assms by auto
  then show "owned s r" and "r \<notin> set (tl ps)"
    using avail_owned[OF assms(1)] by (metis distinct.simps(2) list.set_intros(1))+
qed

lemma alloc_other_page:
  assumes "avail s ps" and "alloc s = (r, s')" and "r \<noteq> 0" and "aligned q" and "q \<noteq> r"
    and "x \<in> rng q 4096"
  shows "byte s' x = byte s x"
proof -
  have "aligned r" using alloc_fresh(3)[OF assms(1-3)] owned_page by blast
  then have "x \<notin> rng r 4096" using page_disjoint[of q r] assms(4-6) by blast
  then show ?thesis by (rule alloc_frame[OF assms(2)])
qed

text \<open>A page that is given back is the next one handed out, and the pool is as before.\<close>

lemma free_alloc:
  assumes "avail s ps" and "owned s p" and "p \<notin> set ps" and "free p s = Inr s'"
  shows "\<exists>s''. alloc s' = (p, s'') \<and> avail s'' ps"
  using free_avail[OF assms(1-3)] assms(4) alloc_Cons by auto

end

interpretation kmem: page_pool kalloc kfree pmem pool usable
proof
  fix s ps p x r s'
  show "pool s ps \<Longrightarrow> distinct ps \<and> (\<forall>p \<in> set ps. usable s p)" by (simp add: pool_def)
  show "usable s p \<Longrightarrow> aligned p \<and> p \<noteq> 0" by (simp add: usable_def)
  show "pool s [] \<Longrightarrow> kalloc s = (0, s)" by (simp add: pool_def kalloc_def)
  show "pool s (p # ps) \<Longrightarrow> \<exists>s'. kalloc s = (p, s') \<and> pool s' ps"
    by (cases "kalloc s") (auto dest: pool_kalloc(2))
  show "kalloc s = (r, s') \<Longrightarrow> x \<notin> rng r 4096 \<Longrightarrow> pmem s' x = pmem s x" by (rule kalloc_frame(3))
  show "kalloc s = (r, s') \<Longrightarrow> usable s' p = usable s p" by (simp add: usable_def kalloc_frame(1))
  show "pool s ps \<Longrightarrow> usable s p \<Longrightarrow> p \<notin> set ps \<Longrightarrow> \<exists>s'. kfree p s = Inr s' \<and> pool s' (p # ps)"
    using kfree_ok pool_kfree by blast
  show "kfree p s = Inr s' \<Longrightarrow> x \<notin> rng p 4096 \<Longrightarrow> pmem s' x = pmem s x" by (rule kfree_frame(3))
qed

section \<open>Initialisation\<close>

lemma freerange_loop_pool:
  assumes "pool s ps" and "aligned p" and "0 < kend s" and "kend s \<le> p" and "p \<le> PHYSTOP"
    and "pa_end \<le> PHYSTOP" and "\<And>q. q \<in> set ps \<Longrightarrow> q < p"
    and "unat pa_end \<le> unat p + 4096 * fuel + 4095"
  shows "\<exists>s' qs. freerange_loop fuel p pa_end s = Inr s' \<and> kend s' = kend s \<and> pool s' qs \<and>
    set qs = set ps \<union> {q. aligned q \<and> p \<le> q \<and> unat q + 4096 \<le> unat pa_end}"
  using assms
proof (induction fuel arbitrary: p s ps)
  case 0
  have "\<not> p + PGSIZE \<le> pa_end"
    using 0 by (auto simp: word_le_nat_alt unat_plus_if')
  moreover have "{q. aligned q \<and> p \<le> q \<and> unat q + 4096 \<le> unat pa_end} = {}"
    using 0 by (auto simp: word_le_nat_alt)
  ultimately show ?case using 0 by auto
next
  case (Suc fuel)
  have up: "unat (p + PGSIZE) = unat p + 4096"
    using Suc.prems(5) by (simp add: word_le_nat_alt unat_plus_if')
  show ?case
  proof (cases "p + PGSIZE \<le> pa_end")
    case False
    then have "{q. aligned q \<and> p \<le> q \<and> unat q + 4096 \<le> unat pa_end} = {}"
      using up by (auto simp: word_le_nat_alt)
    then show ?thesis using False Suc.prems by auto
  next
    case True
    have us: "usable s p"
      using Suc.prems True up by (auto simp: usable_def word_le_nat_alt word_less_nat_alt)
    have "p \<notin> set ps" using Suc.prems(7) by blast
    then obtain s1 where s1: "kfree p s = Inr s1" "pool s1 (p # ps)"
      using kmem.free_avail[OF Suc.prems(1) us] by blast
    have k1: "kend s1 = kend s" using kfree_frame(2)[OF s1(1)] .
    have "\<exists>s' qs. freerange_loop fuel (p + PGSIZE) pa_end s1 = Inr s' \<and> kend s' = kend s1 \<and> pool s' qs \<and>
      set qs = set (p # ps) \<union> {q. aligned q \<and> p + PGSIZE \<le> q \<and> unat q + 4096 \<le> unat pa_end}"
    proof (rule Suc.IH[OF s1(2)])
      show "aligned (p + PGSIZE)" using Suc.prems(2) by (simp add: aligned_add)
      show "0 < kend s1" and "kend s1 \<le> p + PGSIZE" and "p + PGSIZE \<le> PHYSTOP" and "pa_end \<le> PHYSTOP"
        using Suc.prems True k1 up by (auto simp: word_le_nat_alt)
      show "q < p + PGSIZE" if "q \<in> set (p # ps)" for q
        using that Suc.prems(7)[of q] up by (auto simp: word_less_nat_alt)
      show "unat pa_end \<le> unat (p + PGSIZE) + 4096 * fuel + 4095"
        using Suc.prems(8) up by simp
    qed
    moreover have "{q. aligned q \<and> p \<le> q \<and> unat q + 4096 \<le> unat pa_end} =
      insert p {q. aligned q \<and> p + PGSIZE \<le> q \<and> unat q + 4096 \<le> unat pa_end}"
    proof -
      have "p + PGSIZE \<le> q" if q: "aligned q" "p \<le> q" "q \<noteq> p" for q
      proof -
        obtain j k where "unat p = 4096 * j" "unat q = 4096 * k"
          using q(1) Suc.prems(2) by (meson alignedE)
        moreover have "unat p < unat q" using q by (simp add: word_le_nat_alt word_unat_eq_iff)
        ultimately show ?thesis using up by (simp add: word_le_nat_alt)
      qed
      moreover have "p \<le> p + PGSIZE" using up by (simp add: word_le_nat_alt)
      ultimately show ?thesis using True up Suc.prems(2) by (auto simp: word_le_nat_alt)
    qed
    ultimately show ?thesis using True s1(1) k1 by auto
  qed
qed

lemma kinit_ok:
  assumes "freelist s = 0" and "0 < kend s" and "kend s \<le> PHYSTOP"
  shows "\<exists>s' ps. kinit s = Inr s' \<and> pool s' ps \<and> kend s' = kend s \<and>
    set ps = {p. aligned p \<and> kend s \<le> p \<and> p < PHYSTOP}"
proof -
  have e: "unat (kend s) \<le> 0x88000000" using assms(3) by (simp add: word_le_nat_alt)
  then have u: "unat (PGROUNDUP (kend s)) = (unat (kend s) + 4095) div 4096 * 4096"
    by (simp add: unat_PGROUNDUP)
  let ?p = "PGROUNDUP (kend s)"
  have "\<exists>s' qs. freerange_loop (unat PHYSTOP div 4096) ?p PHYSTOP s = Inr s' \<and> kend s' = kend s \<and> pool s' qs \<and>
    set qs = set [] \<union> {q. aligned q \<and> ?p \<le> q \<and> unat q + 4096 \<le> unat PHYSTOP}"
  proof (rule freerange_loop_pool)
    show "pool s []" using assms(1) by (simp add: pool_def)
    show "kend s \<le> ?p" using u by (simp add: word_le_nat_alt)
    show "?p \<le> PHYSTOP" using e u by (simp add: word_le_nat_alt)
  qed (use assms in auto)
  moreover have "?p \<le> q \<and> unat q + 4096 \<le> unat PHYSTOP \<longleftrightarrow> kend s \<le> q \<and> q < PHYSTOP" if "aligned q" for q
  proof -
    obtain k where "unat q = 4096 * k" using \<open>aligned q\<close> by (rule alignedE)
    then show ?thesis using u by (auto simp: word_le_nat_alt word_less_nat_alt)
  qed
  ultimately show ?thesis unfolding kinit_def freerange_def by (auto 0 3 cong: conj_cong)
qed

section \<open>Properties\<close>

text \<open>
  C26. \<^verbatim>\<open>kinit\<close> returns, for any end of the kernel image below \<^verbatim>\<open>PHYSTOP\<close>: every
  page between the two is then on the free list, once, and nothing else is.
\<close>

theorem kinit_pool:
  assumes "freelist s = 0" and "0 < kend s" and "kend s \<le> PHYSTOP"
  shows "\<exists>s' ps. kinit s = Inr s' \<and> pool s' ps \<and> kend s' = kend s \<and>
    set ps = {p. aligned p \<and> kend s \<le> p \<and> p < PHYSTOP}"
  using assms by (rule kinit_ok)

definition phys_boot :: phys where
  "phys_boot = \<lparr>pmem = (\<lambda>_. 0), freelist = 0, kend = 0x80021d40\<rparr>"

theorem kinit_pool_witness:
  "freelist phys_boot = 0 \<and> (\<exists>s' ps. kinit phys_boot = Inr s' \<and> pool s' ps \<and> kend s' = kend phys_boot \<and>
    set ps = {p. aligned p \<and> kend phys_boot \<le> p \<and> p < PHYSTOP})"
  using kinit_pool[of phys_boot] by (simp add: phys_boot_def)

text \<open>
  C28. \<^verbatim>\<open>kalloc\<close> returns NULL, changing nothing, exactly when no page is free; otherwise it
  hands out a page that is no longer free, filled with the junk byte 5, and leaves every byte
  outside that page and the rest of the pool as they were.
\<close>

theorem kalloc_spec:
  assumes "pool s ps" and "kalloc s = (r, s')"
  shows "if ps = [] then r = 0 \<and> s' = s
    else ps = r # tl ps \<and> pool s' (tl ps) \<and> usable s r \<and> r \<notin> set (tl ps) \<and>
      (\<forall>x. pmem s' x = (if x \<in> rng r 4096 then 5 else pmem s x))"
proof (cases ps)
  case Nil
  then show ?thesis using pool_kalloc(1)[OF assms] by simp
next
  case (Cons p qs)
  then have "r = p" using pool_kalloc(2)[OF assms] by blast
  then have r: "r \<noteq> 0" using assms(1) Cons by (auto simp: pool_def)
  then show ?thesis
    using Cons kmem.alloc_fresh[OF assms r] kalloc_frame[OF assms(2)] by auto
qed

lemma load64_zero [simp]: "load64 (\<lambda>_. 0) a = 0"
  by (simp add: load64_def numeral_eq_Suc)

definition phys_one :: phys where
  "phys_one = \<lparr>pmem = (\<lambda>_. 0), freelist = 0x87fff000, kend = 0x80021d40\<rparr>"

lemma pool_phys_one: "pool phys_one [0x87fff000]"
  by (simp add: pool_def phys_one_def usable_def aligned_def)

theorem kalloc_spec_witness:
  "\<exists>s'. kalloc phys_one = (0x87fff000, s') \<and> pool s' [] \<and> pmem s' 0x87fff123 = 5"
proof -
  obtain r s' where k: "kalloc phys_one = (r, s')" by fastforce
  then have "r = 0x87fff000 \<and> pool s' [] \<and> (\<forall>x. pmem s' x = (if x \<in> rng r 4096 then 5 else pmem phys_one x))"
    using kalloc_spec[OF pool_phys_one k] by simp
  then show ?thesis using k by (auto simp: rng_def)
qed

text \<open>
  C27. \<^verbatim>\<open>kfree\<close> of an allocated page succeeds and makes it the next page that
  \<^verbatim>\<open>kalloc\<close> returns, after which the pool is what it was; a misaligned or out-of-range
  address panics.
\<close>

theorem kfree_kalloc:
  assumes "pool s ps" and "usable s p" and "p \<notin> set ps"
  shows "\<exists>s' s''. kfree p s = Inr s' \<and> kalloc s' = (p, s'') \<and> pool s'' ps \<and>
    (\<forall>x. x \<notin> rng p 4096 \<longrightarrow> pmem s'' x = pmem s x)"
proof -
  obtain s' where s': "kfree p s = Inr s'" using kfree_ok assms(2) by blast
  obtain s'' where s'': "kalloc s' = (p, s'')" "pool s'' ps" using kmem.free_alloc[OF assms s'] by blast
  have "pmem s'' x = pmem s x" if "x \<notin> rng p 4096" for x
    using kmem.alloc_frame[OF s''(1) that] kmem.free_frame[OF s' that] by simp
  then show ?thesis using s' s'' by blast
qed

theorem kfree_kalloc_witness:
  "\<exists>s' s''. kfree 0x87ffe000 phys_one = Inr s' \<and> kalloc s' = (0x87ffe000, s'') \<and> pool s'' [0x87fff000] \<and>
    (\<forall>x. x \<notin> rng 0x87ffe000 4096 \<longrightarrow> pmem s'' x = pmem phys_one x)"
  using kfree_kalloc[OF pool_phys_one, of "0x87ffe000"] by (simp add: usable_def phys_one_def aligned_def)

end
