(* ===== verification/PageTable.thy ===== *)
theory PageTable
  imports Kalloc
begin

text \<open>
  The Sv39 page tables of \<^verbatim>\<open>kernel/vm.c\<close> with the macros of \<^verbatim>\<open>kernel/riscv.h\<close>:
  \<^verbatim>\<open>walk\<close>, \<^verbatim>\<open>walkaddr\<close>, \<^verbatim>\<open>mappages\<close>, \<^verbatim>\<open>uvmunmap\<close>. A page table is a
  three-level tree of pages in physical memory; \<open>ptp\<close> names its pages by their paths of
  indices, \<open>ptree\<close> says that the tree does not share pages and owns them, and \<open>leaf\<close> is the
  abstract page table: the PTE found for a virtual address. The lemmas show how the operations
  act on \<open>leaf\<close>.
\<close>

section \<open>Page table entries (kernel/riscv.h)\<close>

abbreviation PTE_V :: uint64 where "PTE_V \<equiv> 1"
abbreviation PTE_R :: uint64 where "PTE_R \<equiv> 2"
abbreviation PTE_W :: uint64 where "PTE_W \<equiv> 4"
abbreviation PTE_X :: uint64 where "PTE_X \<equiv> 8"
abbreviation PTE_U :: uint64 where "PTE_U \<equiv> 16"

definition PA2PTE :: "uint64 \<Rightarrow> uint64" where
  "PA2PTE pa = push_bit 10 (drop_bit 12 pa)"

definition PTE2PA :: "uint64 \<Rightarrow> uint64" where
  "PTE2PA pte = push_bit 12 (drop_bit 10 pte)"

definition PTE_FLAGS :: "uint64 \<Rightarrow> uint64" where
  "PTE_FLAGS pte = pte AND 0x3FF"

definition PX :: "nat \<Rightarrow> uint64 \<Rightarrow> nat" where
  "PX level va = unat (drop_bit (12 + 9 * level) va AND 0x1FF)"

abbreviation MAXVA :: uint64 where "MAXVA \<equiv> 0x4000000000"

section \<open>Walking, mapping and unmapping\<close>

text \<open>
  \<open>walk_loop l\<close> is the loop of \<^verbatim>\<open>walk\<close> with \<open>l\<close> levels to go; the address of a PTE is
  the address of its page table plus eight times the index.
\<close>

fun walk_loop :: "nat \<Rightarrow> uint64 \<Rightarrow> uint64 \<Rightarrow> bool \<Rightarrow> phys \<Rightarrow> uint64 \<times> phys" where
  "walk_loop 0 pagetable va alloc s = (pagetable + 8 * of_nat (PX 0 va), s)"
| "walk_loop (Suc l) pagetable va alloc s =
     (let pte = pagetable + 8 * of_nat (PX (Suc l) va); v = load64 (pmem s) pte in
      if v AND PTE_V \<noteq> 0 then walk_loop l (PTE2PA v) va alloc s
      else if \<not> alloc then (0, s)
      else
        let (page, s) = kalloc s in
        if page = 0 then (0, s)
        else
          let s = s\<lparr>pmem := memset (pmem s) page 0 4096\<rparr>;
              s = s\<lparr>pmem := store64 (pmem s) pte (PA2PTE page OR PTE_V)\<rparr>
          in walk_loop l page va alloc s)"

definition walk :: "uint64 \<Rightarrow> uint64 \<Rightarrow> bool \<Rightarrow> phys \<Rightarrow> (uint64 \<times> phys) res" where
  "walk pagetable va alloc s =
     (if va \<ge> MAXVA then Inl (Panic ''walk'') else Inr (walk_loop 2 pagetable va alloc s))"

definition walkaddr :: "uint64 \<Rightarrow> uint64 \<Rightarrow> phys \<Rightarrow> uint64 res" where
  "walkaddr pagetable va s =
     (if va \<ge> MAXVA then Inr 0
      else bindE (walk pagetable va False s) (\<lambda>(pte, s).
        if pte = 0 then Inr 0
        else
          let v = load64 (pmem s) pte in
          if v AND PTE_V = 0 then Inr 0
          else if v AND PTE_U = 0 then Inr 0
          else Inr (PTE2PA v)))"

lemma walk_Inr_less: "walk pagetable va alloc s = Inr r \<Longrightarrow> unat va < 2 ^ 38"
  by (auto simp: walk_def word_le_nat_alt not_le split: if_splits)

text \<open>
  The loop of \<^verbatim>\<open>mappages\<close> ends because \<^verbatim>\<open>walk\<close> panics at \<^verbatim>\<open>MAXVA\<close>.
\<close>

function mappages_loop :: "uint64 \<Rightarrow> uint64 \<Rightarrow> uint64 \<Rightarrow> uint64 \<Rightarrow> uint64 \<Rightarrow> phys \<Rightarrow> (int \<times> phys) res" where
  "mappages_loop pagetable a final pa perm s =
     bindE (walk pagetable a True s) (\<lambda>(pte, s).
       if pte = 0 then Inr (-1, s)
       else if load64 (pmem s) pte AND PTE_V \<noteq> 0 then Inl (Panic ''mappages: remap'')
       else
         let s = s\<lparr>pmem := store64 (pmem s) pte (PA2PTE pa OR perm OR PTE_V)\<rparr> in
         if a = final then Inr (0, s)
         else mappages_loop pagetable (a + PGSIZE) final (pa + PGSIZE) perm s)"
  by pat_completeness auto
termination
proof (relation "measure (\<lambda>(pagetable, a, final, pa, perm, s). 2 ^ 38 - unat a)", simp)
  fix pagetable a final pa perm s r pte s' s''
  assume "walk pagetable a True s = Inr r"
  then have "unat a < 2 ^ 38" by (rule walk_Inr_less)
  then show "((pagetable, a + PGSIZE, final, pa + PGSIZE, perm, s''), (pagetable, a, final, pa, perm, s))
      \<in> measure (\<lambda>(pagetable, a, final, pa, perm, s). 2 ^ 38 - unat a)"
    by (simp add: unat_plus_if')
qed

declare mappages_loop.simps [simp del]

definition mappages :: "uint64 \<Rightarrow> uint64 \<Rightarrow> uint64 \<Rightarrow> uint64 \<Rightarrow> uint64 \<Rightarrow> phys \<Rightarrow> (int \<times> phys) res" where
  "mappages pagetable va sz pa perm s =
     (if va mod PGSIZE \<noteq> 0 then Inl (Panic ''mappages: va not aligned'')
      else if sz mod PGSIZE \<noteq> 0 then Inl (Panic ''mappages: size not aligned'')
      else if sz = 0 then Inl (Panic ''mappages: size'')
      else mappages_loop pagetable va (va + sz - PGSIZE) pa perm s)"

definition kvmmap :: "uint64 \<Rightarrow> uint64 \<Rightarrow> uint64 \<Rightarrow> uint64 \<Rightarrow> uint64 \<Rightarrow> phys \<Rightarrow> phys res" where
  "kvmmap kpgtbl va pa sz perm s =
     bindE (mappages kpgtbl va sz pa perm s) (\<lambda>(r, s).
       if r \<noteq> 0 then Inl (Panic ''kvmmap'') else Inr s)"

function uvmunmap_loop :: "uint64 \<Rightarrow> uint64 \<Rightarrow> uint64 \<Rightarrow> bool \<Rightarrow> phys \<Rightarrow> phys res" where
  "uvmunmap_loop pagetable a stop do_free s =
     (if a < stop
      then bindE (walk pagetable a False s) (\<lambda>(pte, s).
        if pte = 0 then Inl (Panic ''uvmunmap: walk'')
        else
          let v = load64 (pmem s) pte in
          if v AND PTE_V = 0 then Inl (Panic ''uvmunmap: not mapped'')
          else if PTE_FLAGS v = PTE_V then Inl (Panic ''uvmunmap: not a leaf'')
          else bindE (if do_free then kfree (PTE2PA v) s else Inr s) (\<lambda>s.
            uvmunmap_loop pagetable (a + PGSIZE) stop do_free (s\<lparr>pmem := store64 (pmem s) pte 0\<rparr>)))
      else Inr s)"
  by pat_completeness auto
termination
proof (relation "measure (\<lambda>(pagetable, a, stop, do_free, s). 2 ^ 38 - unat a)", simp)
  fix pagetable a stop do_free s r pte s' v s'' s3
  assume "walk pagetable a False s = Inr r"
  then have "unat a < 2 ^ 38" by (rule walk_Inr_less)
  then show "((pagetable, a + PGSIZE, stop, do_free, s''\<lparr>pmem := store64 (pmem s'') pte 0\<rparr>), (pagetable, a, stop, do_free, s))
      \<in> measure (\<lambda>(pagetable, a, stop, do_free, s). 2 ^ 38 - unat a)"
    by (simp add: unat_plus_if')
qed

declare uvmunmap_loop.simps [simp del]

definition uvmunmap :: "uint64 \<Rightarrow> uint64 \<Rightarrow> uint64 \<Rightarrow> bool \<Rightarrow> phys \<Rightarrow> phys res" where
  "uvmunmap pagetable va npages do_free s =
     (if va mod PGSIZE \<noteq> 0 then Inl (Panic ''uvmunmap: not aligned'')
      else uvmunmap_loop pagetable va (va + npages * PGSIZE) do_free s)"

section \<open>Entries and indices\<close>

lemma aligned_take_bit: "aligned a \<longleftrightarrow> take_bit 12 a = 0"
  by (simp add: aligned_def take_bit_eq_mod)

lemma aligned_bit: "aligned a \<Longrightarrow> n < 12 \<Longrightarrow> \<not> bit a n"
  by (metis aligned_take_bit bit_0_eq bit_take_bit_iff bot_apply bot_bool_def)

lemma aligned_PTE2PA [simp]: "aligned (PTE2PA v)"
  unfolding aligned_take_bit PTE2PA_def
  by (rule bit_word_eqI) (simp add: bit_take_bit_iff bit_push_bit_iff del: push_bit_numeral)

lemma flag_bit: "take_bit 10 f = f \<Longrightarrow> 10 \<le> n \<Longrightarrow> \<not> bit (f::uint64) n"
  by (metis bit_take_bit_iff not_less)

lemma PTE2PA_PA2PTE: "aligned a \<Longrightarrow> take_bit 10 f = f \<Longrightarrow> PTE2PA (PA2PTE a OR f) = a"
proof (rule bit_word_eqI)
  fix n assume a: "aligned a" "take_bit 10 f = f"
  show "bit (PTE2PA (PA2PTE a OR f)) n = bit a n" if "n < LENGTH(64)"
    using that aligned_bit[OF a(1), of n] flag_bit[OF a(2), of "n - 2"]
    by (cases "n < 12")
      (auto simp: PTE2PA_def PA2PTE_def bit_push_bit_iff bit_drop_bit_eq bit_or_iff
        simp del: push_bit_numeral dest: bit_imp_le_length)
qed

lemma PTE_FLAGS_PA2PTE: "take_bit 10 f = f \<Longrightarrow> PTE_FLAGS (PA2PTE a OR f) = f"
proof (rule bit_word_eqI)
  fix n assume f: "take_bit 10 f = f"
  have m: "(0x3FF :: uint64) = mask 10" by (simp add: mask_eq_exp_minus_1)
  show "bit (PTE_FLAGS (PA2PTE a OR f)) n = bit f n" if "n < LENGTH(64)"
    using that flag_bit[OF f, of n] unfolding PTE_FLAGS_def m PA2PTE_def
    by (cases "n < 10") (auto simp: bit_push_bit_iff bit_and_iff bit_mask_iff bit_or_iff simp del: push_bit_numeral)
qed

lemma and_1_neq: "(v::uint64) AND 1 \<noteq> 0 \<longleftrightarrow> bit v 0"
  by (simp add: and_one_eq odd_iff_mod_2_eq_one bit_0)

lemma PTE_V_set [simp]: "(v OR PTE_V) AND PTE_V \<noteq> 0"
  by (simp add: and_1_neq bit_or_iff)

lemma PX_eq: "PX level va = unat va div 2 ^ (12 + 9 * level) mod 512"
proof -
  have m: "(0x1FF :: uint64) = mask 9" by (simp add: mask_eq_exp_minus_1)
  have "PX level va = unat (take_bit 9 (drop_bit (12 + 9 * level) va))"
    unfolding PX_def m take_bit_eq_mask ..
  also have "\<dots> = take_bit 9 (drop_bit (12 + 9 * level) (unat va))"
    by (simp only: unsigned_take_bit_eq unat_drop_bit_eq)
  finally show ?thesis by (simp add: take_bit_eq_mod drop_bit_eq_div)
qed

lemma PX_less [simp]: "PX level va < 512"
  by (simp add: PX_eq)

lemma PX_inj:
  assumes "aligned a" "aligned b" "unat a < 2 ^ 39" "unat b < 2 ^ 39"
    and "PX 2 a = PX 2 b" "PX 1 a = PX 1 b" "PX 0 a = PX 0 b"
  shows "a = b"
proof -
  have digits: "unat x = 4096 * (PX 0 x + 512 * PX 1 x + 262144 * PX 2 x)"
    if "aligned x" "unat x < 2 ^ 39" for x
  proof -
    obtain k where k: "unat x = 4096 * k" using \<open>aligned x\<close> by (rule alignedE)
    have "PX 0 x = k mod 512" "PX 1 x = k div 512 mod 512" "PX 2 x = k div 262144 mod 512"
      using k by (simp_all add: PX_eq div_mult2_eq[symmetric])
    moreover have "k div 262144 < 512" using k that(2) by (intro less_mult_imp_div_less) simp
    moreover have "k div 512 div 512 = k div 262144" by (simp add: div_mult2_eq[symmetric])
    ultimately have d: "PX 0 x = k mod 512" "PX 1 x = k div 512 mod 512" "PX 2 x = k div 512 div 512"
      by simp_all
    have "k = 512 * (k div 512) + k mod 512" by simp
    moreover have "k div 512 = 512 * (k div 512 div 512) + k div 512 mod 512" by simp
    ultimately have "PX 0 x + 512 * PX 1 x + 262144 * PX 2 x = k" unfolding d by linarith
    then show ?thesis using k by simp
  qed
  have "unat a = unat b" using digits[OF assms(1,3)] digits[OF assms(2,4)] assms(5-7) by simp
  then show ?thesis by (simp add: word_unat_eq_iff)
qed

section \<open>The tree of page-table pages\<close>

text \<open>
  A path of indices leads from the root to a page-table page; the paths of length two lead to
  the pages that hold the leaf PTEs.
\<close>

definition ent :: "mem \<Rightarrow> uint64 \<Rightarrow> nat \<Rightarrow> uint64 option" where
  "ent m a i =
     (let v = load64 m (a + 8 * of_nat i) in if v AND PTE_V \<noteq> 0 then Some (PTE2PA v) else None)"

fun ptp :: "mem \<Rightarrow> uint64 \<Rightarrow> nat list \<Rightarrow> uint64 option" where
  "ptp m r [] = Some r"
| "ptp m r (i # is) = (case ent m r i of None \<Rightarrow> None | Some a \<Rightarrow> ptp m a is)"

definition is_path :: "nat list \<Rightarrow> bool" where
  "is_path p \<longleftrightarrow> length p \<le> 2 \<and> (\<forall>i \<in> set p. i < 512)"

definition ptpages :: "mem \<Rightarrow> uint64 \<Rightarrow> uint64 set" where
  "ptpages m r = {a. \<exists>p. is_path p \<and> ptp m r p = Some a}"

text \<open>\<open>slotv m r p i\<close> is entry \<open>i\<close> of the page at path \<open>p\<close>. Entries above the last level are pointers.\<close>

definition slotv :: "mem \<Rightarrow> uint64 \<Rightarrow> nat list \<Rightarrow> nat \<Rightarrow> uint64" where
  "slotv m r p i = (case ptp m r p of None \<Rightarrow> 0 | Some a \<Rightarrow> load64 m (a + 8 * of_nat i))"

definition pointer :: "uint64 \<Rightarrow> bool" where
  "pointer v \<longleftrightarrow> v AND PTE_V = 0 \<or> v AND (PTE_R OR PTE_W OR PTE_X) = 0"

text \<open>
  \<open>ptree s r ps\<close>: \<open>ps\<close> are the free pages, and the pages of the table at \<open>r\<close> are allocated
  and reached by one path each, through entries that are pointers and not leaves.
\<close>

definition ptree :: "phys \<Rightarrow> uint64 \<Rightarrow> uint64 list \<Rightarrow> bool" where
  "ptree s r ps \<longleftrightarrow> pool s ps \<and>
     (\<forall>p a. is_path p \<longrightarrow> ptp (pmem s) r p = Some a \<longrightarrow> usable s a \<and> a \<notin> set ps) \<and>
     (\<forall>p q a. is_path p \<longrightarrow> is_path q \<longrightarrow> ptp (pmem s) r p = Some a \<longrightarrow> ptp (pmem s) r q = Some a \<longrightarrow> p = q) \<and>
     (\<forall>p i. is_path (p @ [i]) \<longrightarrow> pointer (slotv (pmem s) r p i))"

fun vpath :: "nat \<Rightarrow> uint64 \<Rightarrow> nat list" where
  "vpath 0 va = []"
| "vpath (Suc l) va = PX (Suc l) va # vpath l va"

definition leaf :: "mem \<Rightarrow> uint64 \<Rightarrow> uint64 \<Rightarrow> uint64" where
  "leaf m r va = slotv m r (vpath 2 va) (PX 0 va)"

lemma is_path_vpath [simp]: "is_path (vpath 2 va)"
  by (simp add: is_path_def numeral_2_eq_2)

lemma is_path_Nil [simp]: "is_path []"
  by (simp add: is_path_def)

lemma is_path_prefix: "is_path (p @ q) \<Longrightarrow> is_path p"
  by (auto simp: is_path_def)

lemma is_path_snoc: "is_path (p @ [i]) \<longleftrightarrow> length p \<le> 1 \<and> is_path p \<and> i < 512"
  by (auto simp: is_path_def)

lemma ptp_append: "ptp m r (p @ q) = (case ptp m r p of None \<Rightarrow> None | Some a \<Rightarrow> ptp m a q)"
  by (induction p arbitrary: r) (auto split: option.splits)

lemma ptp_snoc: "ptp m r (p @ [i]) = (case ptp m r p of None \<Rightarrow> None | Some a \<Rightarrow> ent m a i)"
  by (simp add: ptp_append split: option.splits)

lemma ptpagesI: "ptp m r p = Some a \<Longrightarrow> is_path p \<Longrightarrow> a \<in> ptpages m r"
  by (auto simp: ptpages_def)

lemma ptreeD:
  assumes "ptree s r ps" and "is_path p" and "ptp (pmem s) r p = Some a"
  shows "usable s a" and "aligned a" and "a \<noteq> 0" and "a \<notin> set ps"
  using assms by (auto simp: ptree_def usable_def)

lemma ptree_inj:
  "ptree s r ps \<Longrightarrow> is_path p \<Longrightarrow> is_path q \<Longrightarrow> ptp (pmem s) r p = Some a \<Longrightarrow> ptp (pmem s) r q = Some a \<Longrightarrow> p = q"
  by (simp add: ptree_def)

text \<open>Memory that agrees on the pages of the table gives the same table.\<close>

lemma ent_cong: "i < 512 \<Longrightarrow> (\<And>x. x \<in> rng a 4096 \<Longrightarrow> m' x = m x) \<Longrightarrow> ent m' a i = ent m a i"
proof -
  assume i: "i < 512" and eq: "\<And>x. x \<in> rng a 4096 \<Longrightarrow> m' x = m x"
  have "load64 m' (a + 8 * of_nat i) = load64 m (a + 8 * of_nat i)"
    using eq slot_in_page[OF i, of a] by (intro load64_cong) blast
  then show ?thesis by (simp add: ent_def)
qed

lemma ptp_cong:
  assumes "\<And>a x. a \<in> ptpages m r \<Longrightarrow> x \<in> rng a 4096 \<Longrightarrow> m' x = m x" and "is_path p"
  shows "ptp m' r p = ptp m r p"
  using assms(2)
proof (induction p rule: rev_induct)
  case Nil
  show ?case by simp
next
  case (snoc i p)
  have IH: "ptp m' r p = ptp m r p" using snoc is_path_prefix by blast
  have "ent m' a i = ent m a i" if "ptp m r p = Some a" for a
  proof (rule ent_cong)
    show "i < 512" using snoc.prems by (simp add: is_path_snoc)
    show "m' x = m x" if "x \<in> rng a 4096" for x
      using assms(1)[of a x] \<open>ptp m r p = Some a\<close> snoc.prems that
      by (auto simp: ptpages_def is_path_snoc)
  qed
  then show ?case by (simp add: ptp_snoc IH split: option.splits)
qed

lemma slotv_cong:
  assumes "\<And>a x. a \<in> ptpages m r \<Longrightarrow> x \<in> rng a 4096 \<Longrightarrow> m' x = m x" and "is_path p" and "i < 512"
  shows "slotv m' r p i = slotv m r p i"
proof -
  have p: "ptp m' r p = ptp m r p" using assms(1,2) by (rule ptp_cong)
  have "load64 m' (a + 8 * of_nat i) = load64 m (a + 8 * of_nat i)" if "ptp m r p = Some a" for a
    using assms(1)[OF ptpagesI[OF that assms(2)]] slot_in_page[OF assms(3), of a]
    by (intro load64_cong) blast
  then show ?thesis by (simp add: slotv_def p split: option.splits)
qed

lemma leaf_cong:
  assumes "\<And>a x. a \<in> ptpages m r \<Longrightarrow> x \<in> rng a 4096 \<Longrightarrow> m' x = m x"
  shows "leaf m' r va = leaf m r va"
  unfolding leaf_def using assms is_path_vpath PX_less by (rule slotv_cong)

lemma ptree_cong:
  assumes "ptree s r ps" and "freelist s' = freelist s" and "kend s' = kend s"
    and "\<And>a x. a \<in> ptpages (pmem s) r \<Longrightarrow> x \<in> rng a 4096 \<Longrightarrow> pmem s' x = pmem s x"
    and "\<And>a x. a \<in> set ps \<Longrightarrow> x \<in> rng a 4096 \<Longrightarrow> pmem s' x = pmem s x"
  shows "ptree s' r ps"
proof -
  have pool: "pool s ps" using assms(1) by (simp add: ptree_def)
  have "pool s' ps" using pool assms(2,3,5) by (rule pool_cong)
  moreover have "ptp (pmem s') r p = ptp (pmem s) r p" if "is_path p" for p
    using assms(4) that by (rule ptp_cong)
  moreover have "usable s' a = usable s a" for a using assms(3) by (simp add: usable_def)
  moreover have "slotv (pmem s') r p i = slotv (pmem s) r p i" if "is_path (p @ [i])" for p i
    using assms(4) that by (intro slotv_cong) (simp_all add: is_path_snoc)
  ultimately show ?thesis using assms(1) unfolding ptree_def by presburger
qed

section \<open>Writing an entry\<close>

lemma pool_pmem:
  assumes "pool s ps" and "\<And>p x. p \<in> set ps \<Longrightarrow> x \<in> rng p 4096 \<Longrightarrow> m x = pmem s x"
  shows "pool (s\<lparr>pmem := m\<rparr>) ps"
  by (rule pool_cong[OF assms(1)]) (simp_all add: assms(2))

lemma load64_other_slot:
  assumes "aligned a" "aligned b" "i < 512" "j < 512" "a \<noteq> b \<or> i \<noteq> j"
  shows "load64 (store64 m (a + 8 * of_nat i) v) (b + 8 * of_nat j) = load64 m (b + 8 * of_nat j)"
proof (rule load64_store64_other)
  show "rng (a + 8 * of_nat i) 8 \<inter> rng (b + 8 * of_nat j) 8 = {}"
  proof (cases "a = b")
    case True
    then show ?thesis using assms slot_disjoint by blast
  next
    case False
    then show ?thesis
      using assms page_disjoint[of a b] slot_in_page[of i a] slot_in_page[of j b] by blast
  qed
qed

lemma ent_other_slot:
  "aligned a \<Longrightarrow> aligned b \<Longrightarrow> i < 512 \<Longrightarrow> j < 512 \<Longrightarrow> a \<noteq> b \<or> i \<noteq> j \<Longrightarrow>
   ent (store64 m (a + 8 * of_nat i) v) b j = ent m b j"
  by (simp add: ent_def load64_other_slot)

lemma store64_other_page:
  assumes "i < 512" "x \<notin> rng a 4096"
  shows "store64 m (a + 8 * of_nat i) v x = m x"
  using assms slot_in_page[of i a] by (intro store64_outside) blast

lemma ptp_store:
  assumes t: "ptree s r ps" and p: "is_path p" "ptp (pmem s) r p = Some a" and i: "i < 512"
    and q: "is_path q" "\<And>z. q \<noteq> p @ i # z"
  shows "ptp (store64 (pmem s) (a + 8 * of_nat i) v) r q = ptp (pmem s) r q"
  using q
proof (induction q rule: rev_induct)
  case Nil
  show ?case by simp
next
  case (snoc j q)
  have q': "is_path q" "j < 512" using snoc.prems(1) by (simp_all add: is_path_snoc)
  have IH: "ptp (store64 (pmem s) (a + 8 * of_nat i) v) r q = ptp (pmem s) r q"
    using snoc.prems(2) by (intro snoc.IH q') (metis append.assoc append_Cons)
  have "ent (store64 (pmem s) (a + 8 * of_nat i) v) b j = ent (pmem s) b j" if b: "ptp (pmem s) r q = Some b" for b
  proof (rule ent_other_slot)
    show "aligned a" and "aligned b" using ptreeD(2)[OF t] p q' b by blast+
    show "a \<noteq> b \<or> i \<noteq> j"
    proof (cases "a = b")
      case True
      then have "p = q" using ptree_inj[OF t p(1) q'(1) p(2)] b by simp
      then show ?thesis using snoc.prems(2)[of "[]"] by auto
    qed simp
  qed (use i q' in auto)
  then show ?case by (simp add: ptp_snoc IH split: option.splits)
qed

lemma slotv_store:
  assumes t: "ptree s r ps" and p: "is_path p" "ptp (pmem s) r p = Some a" and i: "i < 512"
    and q: "is_path q" "\<And>z. q \<noteq> p @ i # z" and j: "j < 512" and ne: "q \<noteq> p \<or> j \<noteq> i"
  shows "slotv (store64 (pmem s) (a + 8 * of_nat i) v) r q j = slotv (pmem s) r q j"
proof (cases "ptp (pmem s) r q")
  case (Some b)
  have "load64 (store64 (pmem s) (a + 8 * of_nat i) v) (b + 8 * of_nat j) = load64 (pmem s) (b + 8 * of_nat j)"
  proof (rule load64_other_slot)
    show "aligned a" and "aligned b" using ptreeD(2)[OF t] p q Some by blast+
    show "a \<noteq> b \<or> i \<noteq> j" using ne ptree_inj[OF t p(1) q(1) p(2)] Some by blast
  qed (use i j in auto)
  then show ?thesis using ptp_store[OF t p i q, of v] Some by (simp add: slotv_def)
qed (simp add: slotv_def ptp_store[OF t p i q, of v])

text \<open>Storing a leaf PTE changes one value of \<open>leaf\<close> and nothing else.\<close>

lemma store_leaf:
  assumes t: "ptree s r ps" and a: "ptp (pmem s) r (vpath 2 va) = Some a"
    and m'_def: "m' = store64 (pmem s) (a + 8 * of_nat (PX 0 va)) v"
  shows "is_path q \<Longrightarrow> ptp m' r q = ptp (pmem s) r q"
    and "leaf m' r vb = (if vpath 2 vb = vpath 2 va \<and> PX 0 vb = PX 0 va then v else leaf (pmem s) r vb)"
    and "ptree (s\<lparr>pmem := m'\<rparr>) r ps"
proof -
  have pa: "is_path (vpath 2 va)" by simp
  show keep: "ptp m' r q = ptp (pmem s) r q" if "is_path q" for q
    unfolding m'_def
  proof (rule ptp_store[OF t pa a PX_less that])
    show "q \<noteq> vpath 2 va @ PX 0 va # z" for z
      using that by (auto simp: is_path_def numeral_2_eq_2)
  qed
  have slots: "slotv m' r q j = slotv (pmem s) r q j"
    if "is_path q" "j < 512" "q \<noteq> vpath 2 va \<or> j \<noteq> PX 0 va" for q j
    unfolding m'_def
  proof (rule slotv_store[OF t pa a PX_less that(1) _ that(2,3)])
    show "q \<noteq> vpath 2 va @ PX 0 va # z" for z
      using that(1) by (auto simp: is_path_def numeral_2_eq_2)
  qed
  show "leaf m' r vb = (if vpath 2 vb = vpath 2 va \<and> PX 0 vb = PX 0 va then v else leaf (pmem s) r vb)"
    using slots[OF is_path_vpath PX_less, of vb 0 vb] keep[OF pa] a by (auto simp: leaf_def slotv_def m'_def)
  have al: "aligned a" and fr: "a \<notin> set ps" using ptreeD[OF t pa a] by auto
  have "m' x = pmem s x" if "q \<in> set ps" "x \<in> rng q 4096" for q x
  proof -
    have "aligned q" "q \<noteq> a" using that t fr by (auto simp: ptree_def pool_def usable_def)
    then have "x \<notin> rng a 4096" using page_disjoint[of q a] al that by blast
    then show ?thesis unfolding m'_def by (intro store64_other_page) simp_all
  qed
  then have "pool (s\<lparr>pmem := m'\<rparr>) ps"
    using t by (intro pool_pmem) (simp_all add: ptree_def)
  moreover have "usable (s\<lparr>pmem := m'\<rparr>) b = usable s b" for b by (simp add: usable_def)
  moreover have "slotv m' r q j = slotv (pmem s) r q j" if "is_path (q @ [j])" for q j
    using that by (intro slots) (auto simp: is_path_snoc numeral_2_eq_2)
  ultimately show "ptree (s\<lparr>pmem := m'\<rparr>) r ps"
    using t keep by (simp add: ptree_def)
qed

section \<open>Growing the tree\<close>

text \<open>A fresh zeroed page is linked below an invalid entry: \<open>leaf\<close> stays as it is.\<close>

lemma zero_page: "i < 512 \<Longrightarrow> (\<And>x. x \<in> rng n 4096 \<Longrightarrow> m x = 0) \<Longrightarrow> load64 m (n + 8 * of_nat i) = 0"
proof -
  assume "i < 512" and z: "\<And>x. x \<in> rng n 4096 \<Longrightarrow> m x = 0"
  then have "load64 m (n + 8 * of_nat i) = load64 (\<lambda>_. 0) (n + 8 * of_nat i)"
    using slot_in_page[of i n] by (intro load64_cong) blast
  then show ?thesis by simp
qed

definition grow_step :: "phys \<Rightarrow> phys \<Rightarrow> uint64 \<Rightarrow> uint64 \<Rightarrow> uint64 list \<Rightarrow> nat list \<Rightarrow> nat \<Rightarrow> uint64 \<Rightarrow> bool" where
  "grow_step s s1 r n ps p i a \<longleftrightarrow>
     ptree s r (n # ps) \<and> is_path (p @ [i]) \<and> ptp (pmem s) r p = Some a \<and>
     ent (pmem s) a i = None \<and> kalloc s = (n, s1)"

abbreviation zeroed :: "phys \<Rightarrow> uint64 \<Rightarrow> mem" where
  "zeroed s1 n \<equiv> memset (pmem s1) n 0 4096"

abbreviation linked :: "phys \<Rightarrow> uint64 \<Rightarrow> uint64 \<Rightarrow> nat \<Rightarrow> mem" where
  "linked s1 n a i \<equiv> store64 (zeroed s1 n) (a + 8 * of_nat i) (PA2PTE n OR PTE_V)"

lemma grow_stepD:
  assumes "grow_step s s1 r n ps p i a"
  shows "ptree s r (n # ps)" and "is_path (p @ [i])" and "ptp (pmem s) r p = Some a"
    and "ent (pmem s) a i = None" and "kalloc s = (n, s1)"
    and "i < 512" and "is_path p" and "length p \<le> 1"
    and "usable s n" and "aligned n" and "n \<noteq> 0" and "n \<notin> set ps"
    and "aligned a" and "a \<noteq> n" and "pool s1 ps" and "kend s1 = kend s"
proof -
  show t: "ptree s r (n # ps)" and p: "is_path (p @ [i])" and a: "ptp (pmem s) r p = Some a"
    and "ent (pmem s) a i = None" and k: "kalloc s = (n, s1)"
    using assms by (auto simp: grow_step_def)
  show "i < 512" and p': "is_path p" and "length p \<le> 1" using p by (auto simp: is_path_snoc)
  show "usable s n" and "aligned n" and "n \<noteq> 0" and "n \<notin> set ps"
    using t by (auto simp: ptree_def pool_def usable_def)
  show "aligned a" and "a \<noteq> n" using ptreeD[OF t p' a] by auto
  show "pool s1 ps" using pool_kalloc(2)[OF _ k] t by (auto simp: ptree_def)
  show "kend s1 = kend s" by (rule kalloc_frame(1)[OF k])
qed

lemma zeroed_apply:
  "grow_step s s1 r n ps p i a \<Longrightarrow> zeroed s1 n x = (if x \<in> rng n 4096 then 0 else pmem s x)"
  using kalloc_frame(3)[OF grow_stepD(5), of s s1 r n ps p i a x] by (simp add: memset_apply)

lemma zeroed_pages:
  assumes g: "grow_step s s1 r n ps p i a" and b: "b \<in> ptpages (pmem s) r" and x: "x \<in> rng b 4096"
  shows "zeroed s1 n x = pmem s x"
proof -
  obtain q where "is_path q" "ptp (pmem s) r q = Some b" using b by (auto simp: ptpages_def)
  then have "aligned b" "b \<noteq> n" using ptreeD[OF grow_stepD(1)[OF g]] by auto
  then have "x \<notin> rng n 4096" using page_disjoint[of b n] grow_stepD(10)[OF g] x by blast
  then show ?thesis by (simp only: zeroed_apply[OF g] if_False)
qed

lemma zeroed_ptp:
  assumes g: "grow_step s s1 r n ps p i a" and "is_path q"
  shows "ptp (zeroed s1 n) r q = ptp (pmem s) r q"
  using zeroed_pages[OF g] assms(2) by (rule ptp_cong)

lemma zeroed_slotv:
  assumes g: "grow_step s s1 r n ps p i a" and "is_path q" "j < 512"
  shows "slotv (zeroed s1 n) r q j = slotv (pmem s) r q j"
  using zeroed_pages[OF g] assms(2,3) by (rule slotv_cong)

lemma zeroed_tree:
  assumes g: "grow_step s s1 r n ps p i a"
  shows "ptree (s1\<lparr>pmem := zeroed s1 n\<rparr>) r ps"
proof -
  have "zeroed s1 n x = pmem s1 x" if "q \<in> set ps" "x \<in> rng q 4096" for q x
  proof -
    have "aligned q" "q \<noteq> n"
      using that grow_stepD(12,15)[OF g] by (auto simp: pool_def usable_def)
    then have "x \<notin> rng n 4096" using page_disjoint[of q n] grow_stepD(10)[OF g] that by blast
    then show ?thesis by (simp add: memset_apply)
  qed
  then have "pool (s1\<lparr>pmem := zeroed s1 n\<rparr>) ps" by (rule pool_pmem[OF grow_stepD(15)[OF g]])
  moreover have "usable (s1\<lparr>pmem := zeroed s1 n\<rparr>) b = usable s b" for b
    using grow_stepD(16)[OF g] by (simp add: usable_def)
  ultimately show ?thesis
    using grow_stepD(1)[OF g] zeroed_ptp[OF g] zeroed_slotv[OF g] by (simp add: ptree_def is_path_snoc)
qed

lemma linked_ptp:
  assumes g: "grow_step s s1 r n ps p i a" and q: "is_path q"
  shows "ptp (linked s1 n a i) r q = (if q = p @ [i] then Some n else ptp (pmem s) r q)"
proof -
  note d = grow_stepD[OF g]
  have tab: "ptp (pmem s) r (p @ [i]) = None" using d(3,4) by (simp add: ptp_snoc)
  have "ptp (pmem (s1\<lparr>pmem := zeroed s1 n\<rparr>)) r p = Some a" using zeroed_ptp[OF g d(7)] d(3) by simp
  note st = ptp_store[OF zeroed_tree[OF g] d(7) this d(6), where v = "PA2PTE n OR PTE_V", simplified]
  have p2: "ptp (linked s1 n a i) r p = Some a"
    using st[OF d(7)] d(3) zeroed_ptp[OF g d(7)] by auto
  have e2: "ent (linked s1 n a i) a i = Some n"
    using PTE2PA_PA2PTE[OF d(10), of PTE_V] by (simp add: ent_def)
  show ?thesis
  proof (cases "\<exists>z. q = p @ i # z")
    case False
    then show ?thesis using st[OF q] zeroed_ptp[OF g q] by auto
  next
    case True
    then obtain z where z: "q = p @ i # z" by blast
    show ?thesis
    proof (cases z)
      case Nil
      then show ?thesis using z p2 e2 by (simp add: ptp_snoc)
    next
      case (Cons j w)
      then have w: "w = []" "p = []" "j < 512" using z q by (auto simp: is_path_def)
      have "ent (linked s1 n a i) n j = ent (zeroed s1 n) n j"
        using ent_other_slot[of a n i j] d w by simp
      also have "\<dots> = None"
        using zero_page[OF w(3), of n "zeroed s1 n"] by (simp add: ent_def zeroed_apply[OF g])
      finally show ?thesis using z Cons w p2 e2 tab by (simp split: option.splits)
    qed
  qed
qed

lemma linked_other:
  assumes g: "grow_step s s1 r n ps p i a" and "x \<notin> rng n 4096" and "x \<notin> rng a 4096"
  shows "linked s1 n a i x = pmem s x"
  using store64_other_page[OF grow_stepD(6)[OF g], of x a] assms(2,3) by (simp add: zeroed_apply[OF g])

lemma linked_slotv:
  assumes g: "grow_step s s1 r n ps p i a" and q: "is_path q" and j: "j < 512"
  shows "slotv (linked s1 n a i) r q j =
    (if q = p @ [i] then 0 else if q = p \<and> j = i then PA2PTE n OR PTE_V else slotv (pmem s) r q j)"
proof -
  note d = grow_stepD[OF g]
  have za: "ptp (pmem (s1\<lparr>pmem := zeroed s1 n\<rparr>)) r p = Some a" using zeroed_ptp[OF g d(7)] d(3) by simp
  consider "q = p @ [i]" | "q = p" "j = i" | "q \<noteq> p @ [i]" "q \<noteq> p \<or> j \<noteq> i" by blast
  then show ?thesis
  proof cases
    case 1
    have "load64 (linked s1 n a i) (n + 8 * of_nat j) = load64 (zeroed s1 n) (n + 8 * of_nat j)"
      using load64_other_slot[of a n i j] d j by simp
    also have "\<dots> = 0" by (rule zero_page[OF j]) (simp add: zeroed_apply[OF g])
    finally show ?thesis using linked_ptp[OF g q] 1 by (simp add: slotv_def)
  next
    case 2
    then show ?thesis using linked_ptp[OF g q] d(3) by (simp add: slotv_def)
  next
    case 3
    show ?thesis
    proof (cases "\<exists>z. q = p @ i # z")
      case True
      then have "ptp (linked s1 n a i) r q = None" "ptp (pmem s) r q = None"
        using linked_ptp[OF g q] 3 d(3,4) by (auto simp: ptp_append)
      then show ?thesis using 3 by (auto simp: slotv_def)
    next
      case False
      then have "slotv (linked s1 n a i) r q j = slotv (zeroed s1 n) r q j"
        using slotv_store[OF zeroed_tree[OF g] d(7) za d(6) q _ j 3(2), where v = "PA2PTE n OR PTE_V"] by auto
      then show ?thesis using 3 zeroed_slotv[OF g q j] by auto
    qed
  qed
qed

lemma flag_bits:
  "bit PTE_V k \<longleftrightarrow> k = 0" "bit PTE_R k \<longleftrightarrow> k = 1" "bit PTE_W k \<longleftrightarrow> k = 2" "bit PTE_X k \<longleftrightarrow> k = 3"
  "bit PTE_U k \<longleftrightarrow> k = 4"
proof -
  have e: "bit (2 ^ m :: uint64) k \<longleftrightarrow> k = m" if "m < 64" for m
    using that by (auto simp: bit_exp_iff possible_bit_def)
  show "bit PTE_V k \<longleftrightarrow> k = 0" "bit PTE_R k \<longleftrightarrow> k = 1" "bit PTE_W k \<longleftrightarrow> k = 2" "bit PTE_X k \<longleftrightarrow> k = 3"
    "bit PTE_U k \<longleftrightarrow> k = 4"
    using e[of 0] e[of 1] e[of 2] e[of 3] e[of 4] by simp_all
qed

lemma pointer_PA2PTE: "pointer (PA2PTE n OR PTE_V)"
proof -
  have "(PA2PTE n OR PTE_V) AND (PTE_R OR PTE_W OR PTE_X) = 0"
    unfolding PA2PTE_def by (rule bit_word_eqI)
      (auto simp only: bit_and_iff bit_or_iff bit_push_bit_iff flag_bits bit_0_eq)
  then show ?thesis by (simp add: pointer_def)
qed

lemma linked_tree:
  assumes g: "grow_step s s1 r n ps p i a"
  shows "ptree (s1\<lparr>pmem := linked s1 n a i\<rparr>) r ps"
proof -
  note d = grow_stepD[OF g]
  let ?s = "s1\<lparr>pmem := linked s1 n a i\<rparr>"
  have same: "linked s1 n a i x = zeroed s1 n x" if "q \<in> set ps" "x \<in> rng q 4096" for q x
  proof -
    have "q \<noteq> a" using ptreeD(4)[OF d(1) d(7) d(3)] that by auto
    moreover have "aligned q" using that d(15) by (auto simp: pool_def usable_def)
    ultimately have "x \<notin> rng a 4096" using page_disjoint[of q a] d(13) that by blast
    then show ?thesis by (rule store64_other_page[OF d(6)])
  qed
  have z: "pool (s1\<lparr>pmem := zeroed s1 n\<rparr>) ps" using zeroed_tree[OF g] by (simp add: ptree_def)
  have "pool ?s ps" using pool_pmem[OF z, of "linked s1 n a i"] same by simp
  moreover have us: "usable ?s b = usable s b" for b using d(16) by (simp add: usable_def)
  moreover have "usable s b \<and> b \<notin> set ps" if "is_path q" "ptp (linked s1 n a i) r q = Some b" for q b
    using that linked_ptp[OF g that(1)] d(9,12) ptreeD[OF d(1) that(1)] by (auto split: if_splits)
  moreover have "q = q'" if "is_path q" "is_path q'" "ptp (linked s1 n a i) r q = Some b"
    "ptp (linked s1 n a i) r q' = Some b" for q q' b
    using that linked_ptp[OF g that(1)] linked_ptp[OF g that(2)]
      ptreeD(4)[OF d(1) that(1)] ptreeD(4)[OF d(1) that(2)] ptree_inj[OF d(1) that(1,2)]
    by (auto split: if_splits)
  moreover have "pointer (slotv (linked s1 n a i) r q j)" if "is_path (q @ [j])" for q j
    using that d(1) linked_slotv[OF g, of q j] pointer_PA2PTE[of n] by (auto simp: ptree_def is_path_snoc pointer_def)
  ultimately show ?thesis by (simp add: ptree_def)
qed

lemma linked_leaf:
  assumes g: "grow_step s s1 r n ps p i a"
  shows "leaf (linked s1 n a i) r va = leaf (pmem s) r va"
proof -
  note d = grow_stepD[OF g]
  have "vpath 2 va \<noteq> p" using d(8) by (auto simp: numeral_2_eq_2)
  moreover have "slotv (pmem s) r (p @ [i]) j = 0" for j using d(3,4) by (simp add: slotv_def ptp_snoc)
  ultimately show ?thesis using linked_slotv[OF g is_path_vpath PX_less, of va 0 va] by (auto simp: leaf_def)
qed

section \<open>walk\<close>

lemma walk_noalloc:
  "walk_loop l r va False s =
     ((case ptp (pmem s) r (vpath l va) of None \<Rightarrow> 0 | Some a \<Rightarrow> a + 8 * of_nat (PX 0 va)), s)"
  by (induction l arbitrary: r) (auto simp: Let_def ent_def)

text \<open>
  With allocation, \<^verbatim>\<open>walk\<close> extends the tree with pages of the pool, keeps every leaf PTE, and
  fails only when the pool is used up.
\<close>

definition extends :: "phys \<Rightarrow> uint64 \<Rightarrow> uint64 list \<Rightarrow> phys \<Rightarrow> uint64 list \<Rightarrow> bool" where
  "extends s r ps s' ps' \<longleftrightarrow> ptree s' r ps' \<and> kend s' = kend s \<and> (\<exists>qs. ps = qs @ ps') \<and>
     (\<forall>va. leaf (pmem s') r va = leaf (pmem s) r va) \<and>
     (\<forall>q a. is_path q \<longrightarrow> ptp (pmem s) r q = Some a \<longrightarrow> ptp (pmem s') r q = Some a) \<and>
     (\<forall>x. (\<forall>a \<in> ptpages (pmem s) r \<union> set ps. x \<notin> rng a 4096) \<longrightarrow> pmem s' x = pmem s x) \<and>
     ptpages (pmem s') r \<union> set ps' = ptpages (pmem s) r \<union> set ps"

lemma extends_refl: "ptree s r ps \<Longrightarrow> extends s r ps s ps"
  by (auto simp: extends_def)

lemma extends_trans:
  assumes "extends s r ps s' ps'" and "extends s' r ps' s'' ps''"
  shows "extends s r ps s'' ps''"
proof -
  have sub: "ptpages (pmem s') r \<union> set ps' = ptpages (pmem s) r \<union> set ps"
    using assms(1) by (auto simp: extends_def)
  have "pmem s'' x = pmem s x" if "\<forall>a \<in> ptpages (pmem s) r \<union> set ps. x \<notin> rng a 4096" for x
  proof -
    have "pmem s'' x = pmem s' x" using assms(2) that sub unfolding extends_def by blast
    also have "\<dots> = pmem s x" using assms(1) that unfolding extends_def by blast
    finally show ?thesis .
  qed
  moreover have "ptpages (pmem s'') r \<union> set ps'' = ptpages (pmem s) r \<union> set ps"
    using assms(2) sub unfolding extends_def by blast
  ultimately show ?thesis using assms unfolding extends_def by fastforce
qed

lemma extends_grow:
  assumes g: "grow_step s s1 r n ps p i a"
  shows "extends s r (n # ps) (s1\<lparr>pmem := linked s1 n a i\<rparr>) ps"
proof -
  note d = grow_stepD[OF g]
  have ap: "a \<in> ptpages (pmem s) r" using d(3,7) by (auto simp: ptpages_def)
  have "ptp (linked s1 n a i) r q = Some b" if "is_path q" "ptp (pmem s) r q = Some b" for q b
    using that linked_ptp[OF g that(1)] d(3,4) by (auto simp: ptp_snoc)
  moreover have "ptpages (linked s1 n a i) r = insert n (ptpages (pmem s) r)"
  proof
    show "ptpages (linked s1 n a i) r \<subseteq> insert n (ptpages (pmem s) r)"
      using linked_ptp[OF g] by (fastforce simp: ptpages_def split: if_splits)
    show "insert n (ptpages (pmem s) r) \<subseteq> ptpages (linked s1 n a i) r"
      using linked_ptp[OF g d(2)] d(2) calculation by (auto simp: ptpages_def)
  qed
  moreover have "linked s1 n a i x = pmem s x"
    if "\<forall>b \<in> ptpages (pmem s) r \<union> set (n # ps). x \<notin> rng b 4096" for x
    using that ap by (intro linked_other[OF g]) auto
  ultimately show ?thesis
    using linked_tree[OF g] linked_leaf[OF g] d(16) by (simp add: extends_def)
qed

lemma slot_nonzero:
  assumes "aligned b" "b \<noteq> 0" "k < 512"
  shows "b + 8 * of_nat k \<noteq> 0"
proof -
  have "b + 8 * of_nat k \<in> rng (b + 8 * of_nat k) 8" by simp
  then have "b + 8 * of_nat k \<in> rng b 4096" using slot_in_page[OF assms(3)] by (rule set_mp[rotated])
  then have "unat (b + 8 * of_nat k) = unat b + 8 * k"
    using page_unat(1)[OF assms(1), of "b + 8 * of_nat k"] by (simp only: add_diff_cancel_left' unat_slot[OF assms(3)])
  moreover have "unat b \<noteq> 0" using assms(2) by (simp add: unat_eq_0)
  ultimately show ?thesis by (metis add_is_0 unat_0)
qed

lemma walk_alloc:
  assumes "ptree s r ps" and "is_path (p @ vpath l va)" and "ptp (pmem s) r p = Some a"
    and "walk_loop l a va True s = (pte, s')"
  shows "\<exists>ps'. extends s r ps s' ps' \<and> length ps \<le> length ps' + l \<and>
    (if pte = 0 then ps' = [] else
      \<exists>b. ptp (pmem s') r (p @ vpath l va) = Some b \<and> pte = b + 8 * of_nat (PX 0 va))"
  using assms
proof (induction l arbitrary: s ps p a)
  case 0
  then have "aligned a" "a \<noteq> 0" using ptreeD[OF 0(1) _ 0(3)] by auto
  then have "pte \<noteq> 0" using 0 slot_nonzero by auto
  then show ?case using 0 extends_refl by auto
next
  case (Suc l)
  let ?i = "PX (Suc l) va"
  have path: "is_path (p @ [?i])" using Suc.prems(2) is_path_prefix[of "p @ [?i]"] by simp
  have app: "p @ vpath (Suc l) va = (p @ [?i]) @ vpath l va" by simp
  show ?case
  proof (cases "ent (pmem s) a ?i")
    case (Some b)
    then have "walk_loop l b va True s = (pte, s')" using Suc.prems(4) by (auto simp: ent_def Let_def split: if_splits)
    moreover have "ptp (pmem s) r (p @ [?i]) = Some b" using Suc.prems(3) Some by (simp add: ptp_snoc)
    ultimately show ?thesis
      using Suc.IH[of s ps "p @ [?i]" b] Suc.prems(1,2) unfolding app by fastforce
  next
    case None
    obtain n s1 where k: "kalloc s = (n, s1)" by fastforce
    have pl: "pool s ps" using Suc.prems(1) by (simp add: ptree_def)
    show ?thesis
    proof (cases "n = 0")
      case True
      then have "ps = []" using pool_kalloc(2)[OF pl k] pl by (cases ps) (auto simp: pool_def usable_def)
      moreover have "pte = 0 \<and> s' = s"
        using Suc.prems(4) None k True kalloc_frame(4)[OF k] by (auto simp: ent_def Let_def split: if_splits)
      ultimately show ?thesis using extends_refl[OF Suc.prems(1)] by auto
    next
      case False
      then have ps: "ps = n # tl ps" using kmem.alloc_fresh(1)[OF pl k] by blast
      then have g: "grow_step s s1 r n (tl ps) p ?i a"
        using Suc.prems(1,3) path None k by (simp add: grow_step_def)
      let ?s = "s1\<lparr>pmem := linked s1 n a ?i\<rparr>"
      have w: "walk_loop l n va True ?s = (pte, s')"
        using Suc.prems(4) None k False by (auto simp: ent_def Let_def split: if_splits)
      have ex: "extends s r ps ?s (tl ps)" using extends_grow[OF g] ps by simp
      have "ptp (pmem ?s) r (p @ [?i]) = Some n" using linked_ptp[OF g path] by simp
      then obtain ps' where e: "extends ?s r (tl ps) s' ps'" and l: "length (tl ps) \<le> length ps' + l"
        and c: "if pte = 0 then ps' = [] else
          \<exists>b. ptp (pmem s') r ((p @ [?i]) @ vpath l va) = Some b \<and> pte = b + 8 * of_nat (PX 0 va)"
        using Suc.IH[of ?s "tl ps" "p @ [?i]" n] linked_tree[OF g] Suc.prems(2) w unfolding app by blast
      have "extends s r ps s' ps'" by (rule extends_trans[OF ex e])
      moreover have "length ps \<le> length ps' + Suc l" using ps l by (metis add_Suc_right length_Cons not_less_eq_eq)
      ultimately show ?thesis using c unfolding app by blast
    qed
  qed
qed

section \<open>mappages\<close>

text \<open>\<open>evolves\<close> is \<open>extends\<close> without the promise on the leaf PTEs.\<close>

definition evolves :: "phys \<Rightarrow> uint64 \<Rightarrow> uint64 list \<Rightarrow> phys \<Rightarrow> uint64 list \<Rightarrow> bool" where
  "evolves s r ps s' ps' \<longleftrightarrow> ptree s' r ps' \<and> kend s' = kend s \<and> (\<exists>qs. ps = qs @ ps') \<and>
     (\<forall>x. (\<forall>a \<in> ptpages (pmem s) r \<union> set ps. x \<notin> rng a 4096) \<longrightarrow> pmem s' x = pmem s x) \<and>
     ptpages (pmem s') r \<union> set ps' = ptpages (pmem s) r \<union> set ps"

lemma extends_evolves: "extends s r ps s' ps' \<Longrightarrow> evolves s r ps s' ps'"
  by (simp add: extends_def evolves_def)

lemma evolves_trans:
  assumes "evolves s r ps s' ps'" and "evolves s' r ps' s'' ps''"
  shows "evolves s r ps s'' ps''"
proof -
  have sub: "ptpages (pmem s') r \<union> set ps' = ptpages (pmem s) r \<union> set ps"
    using assms(1) by (auto simp: evolves_def)
  have "pmem s'' x = pmem s x" if "\<forall>a \<in> ptpages (pmem s) r \<union> set ps. x \<notin> rng a 4096" for x
  proof -
    have "pmem s'' x = pmem s' x" using assms(2) that sub unfolding evolves_def by blast
    also have "\<dots> = pmem s x" using assms(1) that unfolding evolves_def by blast
    finally show ?thesis .
  qed
  moreover have "ptpages (pmem s'') r \<union> set ps'' = ptpages (pmem s) r \<union> set ps"
    using assms(2) sub unfolding evolves_def by blast
  ultimately show ?thesis using assms unfolding evolves_def by fastforce
qed

definition user_va :: "uint64 \<Rightarrow> bool" where
  "user_va va \<longleftrightarrow> aligned va \<and> va < MAXVA"

lemma user_va_unat: "user_va va \<longleftrightarrow> aligned va \<and> unat va < 2 ^ 38"
  by (simp add: user_va_def word_less_nat_alt)

text \<open>
  \<^verbatim>\<open>MAXVA\<close> is half of what the three levels can address; \<open>sv39\<close> are the pages of both halves.
\<close>

definition sv39 :: "uint64 \<Rightarrow> bool" where
  "sv39 va \<longleftrightarrow> aligned va \<and> unat va < 2 ^ 39"

lemma user_va_sv39 [simp]: "user_va va \<Longrightarrow> sv39 va"
  by (simp add: user_va_unat sv39_def)

lemma same_slot:
  assumes "sv39 a" "sv39 b"
  shows "vpath 2 a = vpath 2 b \<and> PX 0 a = PX 0 b \<longleftrightarrow> a = b"
  using PX_inj[of a b] assms by (auto simp: sv39_def numeral_2_eq_2)

lemma evolves_store_leaf:
  assumes t: "ptree s r ps" and b: "ptp (pmem s) r (vpath 2 a) = Some b" and a: "user_va a"
    and s': "s' = s\<lparr>pmem := store64 (pmem s) (b + 8 * of_nat (PX 0 a)) v\<rparr>"
  shows "evolves s r ps s' ps"
    and "sv39 vb \<Longrightarrow> leaf (pmem s') r vb = (if vb = a then v else leaf (pmem s) r vb)"
proof -
  note st = store_leaf[OF t b refl, where v = v]
  have bp: "b \<in> ptpages (pmem s) r" using b is_path_vpath by (rule ptpagesI)
  have "pmem s' x = pmem s x" if "x \<notin> rng b 4096" for x
    using store64_other_page[OF PX_less that] s' by simp
  moreover have "ptpages (pmem s') r = ptpages (pmem s) r"
    using st(1) s' by (auto simp: ptpages_def)
  ultimately show "evolves s r ps s' ps" using st(3) s' bp by (auto simp: evolves_def)
  show "leaf (pmem s') r vb = (if vb = a then v else leaf (pmem s) r vb)" if "sv39 vb"
    using st(2)[of vb] same_slot[OF that user_va_sv39[OF a]] s' by simp
qed

lemma map_one:
  assumes t: "ptree s r ps" and a: "user_va a" and w: "walk r a True s = Inr (pte, s1)"
  shows "\<exists>ps'. extends s r ps s1 ps' \<and> length ps \<le> length ps' + 2 \<and> (if pte = 0 then ps' = [] else
    load64 (pmem s1) pte = leaf (pmem s) r a \<and>
    evolves s r ps (s1\<lparr>pmem := store64 (pmem s1) pte v\<rparr>) ps' \<and>
    (\<forall>vb. sv39 vb \<longrightarrow> leaf (store64 (pmem s1) pte v) r vb = (if vb = a then v else leaf (pmem s) r vb)))"
proof -
  have "walk_loop 2 r a True s = (pte, s1)" using w by (auto simp: walk_def split: if_splits)
  then obtain ps' where ps': "extends s r ps s1 ps'" "length ps \<le> length ps' + 2"
    and c: "if pte = 0 then ps' = [] else
      \<exists>b. ptp (pmem s1) r ([] @ vpath 2 a) = Some b \<and> pte = b + 8 * of_nat (PX 0 a)"
    using walk_alloc[OF t, of "[]" 2 a r pte s1] by auto
  have t1: "ptree s1 r ps'" and lf: "\<And>va. leaf (pmem s1) r va = leaf (pmem s) r va"
    using ps'(1) by (auto simp: extends_def)
  show ?thesis
  proof (cases "pte = 0")
    case True
    then show ?thesis using ps' c by auto
  next
    case False
    then obtain b where b: "ptp (pmem s1) r (vpath 2 a) = Some b" and pte: "pte = b + 8 * of_nat (PX 0 a)"
      using c by auto
    have "load64 (pmem s1) pte = leaf (pmem s) r a" using b pte lf[of a] by (simp add: leaf_def slotv_def)
    moreover have "evolves s r ps (s1\<lparr>pmem := store64 (pmem s1) pte v\<rparr>) ps'"
      using evolves_trans[OF extends_evolves[OF ps'(1)]] evolves_store_leaf(1)[OF t1 b a refl, of v] pte by simp
    moreover have "\<forall>vb. sv39 vb \<longrightarrow> leaf (store64 (pmem s1) pte v) r vb = (if vb = a then v else leaf (pmem s) r vb)"
      using evolves_store_leaf(2)[OF t1 b a refl, of _ v] pte lf by simp
    ultimately show ?thesis using ps' False by auto
  qed
qed

lemma page_seq:
  assumes "aligned a" "unat a + 4096 * i < 2 ^ 38"
  shows "unat (a + 4096 * of_nat i) = unat a + 4096 * i" and "user_va (a + 4096 * of_nat i)"
proof -
  have "unat (a + of_nat (4096 * i)) = unat a + 4096 * i"
    using assms(2) by (intro unat_add_nat) simp
  then show u: "unat (a + 4096 * of_nat i) = unat a + 4096 * i" by simp
  obtain k where "unat a = 4096 * k" using assms(1) by (rule alignedE)
  then show "user_va (a + 4096 * of_nat i)" using u assms(2) by (simp add: user_va_unat aligned_unat)
qed

lemma page_interval:
  assumes "aligned a" "aligned b"
  shows "unat a \<le> unat b \<and> unat b < unat a + 4096 \<longleftrightarrow> b = a"
proof -
  obtain j k where "unat a = 4096 * j" "unat b = 4096 * k" using assms by (meson alignedE)
  then show ?thesis by (auto simp: word_unat_eq_iff)
qed

text \<open>One round of the loop: out of memory, or one more PTE.\<close>

lemma mappages_round:
  assumes t: "ptree s r ps" and a: "user_va a" and free: "leaf (pmem s) r a AND PTE_V = 0"
  obtains (oom) s1 where "mappages_loop r a final pa perm s = Inr (-1, s1)" "evolves s r ps s1 []"
      "\<And>va. leaf (pmem s1) r va = leaf (pmem s) r va" "length ps \<le> 2"
  | (ok) s2 ps' where "mappages_loop r a final pa perm s =
        (if a = final then Inr (0, s2) else mappages_loop r (a + PGSIZE) final (pa + PGSIZE) perm s2)"
      "evolves s r ps s2 ps'" "length ps \<le> length ps' + 2"
      "\<And>vb. sv39 vb \<Longrightarrow> leaf (pmem s2) r vb =
        (if vb = a then PA2PTE pa OR perm OR PTE_V else leaf (pmem s) r vb)"
proof -
  let ?v = "PA2PTE pa OR perm OR PTE_V"
  obtain pte s1 where w: "walk r a True s = Inr (pte, s1)"
    using a by (cases "walk_loop 2 r a True s") (auto simp: walk_def user_va_def not_le[symmetric])
  obtain ps' where e: "extends s r ps s1 ps'" and l: "length ps \<le> length ps' + 2" and c: "if pte = 0 then ps' = [] else
      load64 (pmem s1) pte = leaf (pmem s) r a \<and>
      evolves s r ps (s1\<lparr>pmem := store64 (pmem s1) pte ?v\<rparr>) ps' \<and>
      (\<forall>vb. sv39 vb \<longrightarrow> leaf (store64 (pmem s1) pte ?v) r vb = (if vb = a then ?v else leaf (pmem s) r vb))"
    using map_one[OF t a w, of ?v] by blast
  show thesis
  proof (cases "pte = 0")
    case True
    then show thesis using w c e l extends_evolves[OF e] oom[of s1]
      by (simp add: mappages_loop.simps[of r a] extends_def)
  next
    case False
    then show thesis using w c free l ok[of "s1\<lparr>pmem := store64 (pmem s1) pte ?v\<rparr>" ps']
      by (simp add: mappages_loop.simps[of r a])
  qed
qed

text \<open>What \<^verbatim>\<open>leaf\<close> becomes when \<open>k\<close> pages from \<open>a\<close> on are mapped to \<open>pa\<close>.\<close>

definition mapped :: "uint64 \<Rightarrow> nat \<Rightarrow> uint64 \<Rightarrow> uint64 \<Rightarrow> (uint64 \<Rightarrow> uint64) \<Rightarrow> uint64 \<Rightarrow> uint64" where
  "mapped a k pa perm lf vb =
     (if unat a \<le> unat vb \<and> unat vb < unat a + 4096 * k then PA2PTE (pa + (vb - a)) OR perm OR PTE_V
      else lf vb)"

lemma mapped_0 [simp]: "mapped a 0 pa perm lf vb = lf vb"
  by (auto simp: mapped_def)

lemma mapped_Suc:
  assumes "aligned a" "sv39 vb" "unat (a + PGSIZE) = unat a + 4096"
    and "\<And>vb. sv39 vb \<Longrightarrow> lf' vb = (if vb = a then PA2PTE pa OR perm OR PTE_V else lf vb)"
  shows "mapped (a + PGSIZE) k (pa + PGSIZE) perm lf' vb = mapped a (Suc k) pa perm lf vb"
proof -
  have i: "unat a \<le> unat vb \<and> unat vb < unat a + 4096 \<longleftrightarrow> vb = a"
    using page_interval[of a vb] assms(1,2) by (simp add: sv39_def)
  have "unat a \<le> unat vb \<and> unat vb < unat a + 4096 * Suc k \<longleftrightarrow>
      vb = a \<or> unat a + 4096 \<le> unat vb \<and> unat vb < unat a + 4096 + 4096 * k"
    using i by auto
  then show ?thesis using assms(3) assms(4)[OF assms(2)] i by (auto simp: mapped_def algebra_simps)
qed

lemma mappages_loop_spec:
  assumes "ptree s r ps" and "aligned a" and "unat a + 4096 * n < 2 ^ 38"
    and "\<And>i. i \<le> n \<Longrightarrow> leaf (pmem s) r (a + 4096 * of_nat i) AND PTE_V = 0"
  shows "\<exists>res s' ps' k. mappages_loop r a (a + 4096 * of_nat n) pa perm s = Inr (res, s') \<and>
    evolves s r ps s' ps' \<and> (if res = 0 then k = Suc n else res = -1 \<and> k \<le> n \<and> ps' = []) \<and>
    (\<forall>vb. sv39 vb \<longrightarrow> leaf (pmem s') r vb = mapped a k pa perm (leaf (pmem s) r) vb)"
  using assms
proof (induction n arbitrary: s ps a pa)
  case 0
  have a: "user_va a" and free: "leaf (pmem s) r a AND PTE_V = 0"
    using 0(2,3) 0(4)[of 0] by (simp_all add: user_va_unat)
  show ?case
  proof (cases rule: mappages_round[OF 0(1) a free, of "a + 4096 * of_nat 0" pa perm])
    case (1 s1)
    then show ?thesis by (intro exI[of _ "-1"] exI[of _ s1] exI[of _ "[]"] exI[of _ 0]) simp
  next
    case (2 s2 ps')
    moreover have "unat a \<le> unat vb \<and> unat vb < unat a + 4096 \<longleftrightarrow> vb = a" if "sv39 vb" for vb
      using page_interval[of a vb] a that by (simp add: user_va_def sv39_def)
    ultimately show ?thesis
      by (intro exI[of _ 0] exI[of _ s2] exI[of _ ps'] exI[of _ 1]) (simp add: mapped_def)
  qed
next
  case (Suc n)
  have a: "user_va a" and free: "leaf (pmem s) r a AND PTE_V = 0"
    using Suc.prems(2,3) Suc.prems(4)[of 0] by (simp_all add: user_va_unat)
  have a': "unat (a + PGSIZE) = unat a + 4096" "aligned (a + PGSIZE)"
    using page_seq[of a 1] Suc.prems(2,3) by (simp_all add: user_va_def)
  have ne: "a \<noteq> a + 4096 * of_nat (Suc n)" and fin: "a + 4096 * of_nat (Suc n) = a + PGSIZE + 4096 * of_nat n"
    using page_seq(1)[OF Suc.prems(2,3)] by (auto simp: algebra_simps)
  show ?case
  proof (cases rule: mappages_round[OF Suc.prems(1) a free, of "a + 4096 * of_nat (Suc n)" pa perm])
    case (1 s1)
    then show ?thesis by (intro exI[of _ "-1"] exI[of _ s1] exI[of _ "[]"] exI[of _ 0]) simp
  next
    case (2 s2 ps')
    have "leaf (pmem s2) r (a + PGSIZE + 4096 * of_nat i) AND PTE_V = 0" if "i \<le> n" for i
    proof -
      let ?b = "a + 4096 * of_nat (Suc i)"
      have "user_va ?b" "unat ?b = unat a + 4096 * Suc i"
        using page_seq[of a "Suc i"] Suc.prems(2,3) that by simp_all
      moreover from this(2) have "?b \<noteq> a" by (metis add.right_neutral add_left_cancel mult_is_0 nat.distinct(1) zero_neq_numeral)
      moreover have "a + PGSIZE + 4096 * of_nat i = ?b" by (simp add: algebra_simps)
      ultimately show ?thesis using 2(4)[of ?b] Suc.prems(4)[of "Suc i"] that by (simp add: add.assoc)
    qed
    moreover have "ptree s2 r ps'" using 2(2) by (simp add: evolves_def)
    ultimately obtain res s' qs k where
      IH: "mappages_loop r (a + PGSIZE) (a + PGSIZE + 4096 * of_nat n) (pa + PGSIZE) perm s2 = Inr (res, s')"
        "evolves s2 r ps' s' qs" "if res = 0 then k = Suc n else res = -1 \<and> k \<le> n \<and> qs = []"
        "\<forall>vb. sv39 vb \<longrightarrow> leaf (pmem s') r vb = mapped (a + PGSIZE) k (pa + PGSIZE) perm (leaf (pmem s2) r) vb"
      using Suc.IH[of s2 ps' "a + PGSIZE" "pa + PGSIZE"] a' Suc.prems(3) by auto
    have "mappages_loop r a (a + 4096 * of_nat (Suc n)) pa perm s = Inr (res, s')"
      using 2(1) IH(1) ne unfolding fin by simp
    moreover have "\<forall>vb. sv39 vb \<longrightarrow> leaf (pmem s') r vb = mapped a (Suc k) pa perm (leaf (pmem s) r) vb"
      using IH(4) mapped_Suc[OF Suc.prems(2) _ a'(1) 2(4)] by simp
    ultimately show ?thesis using evolves_trans[OF 2(2) IH(2)] IH(3)
      by (intro exI[of _ res] exI[of _ s'] exI[of _ qs] exI[of _ "Suc k"]) simp
  qed
qed

section \<open>Properties\<close>

lemma walkaddr_leaf:
  assumes "ptree s r ps"
  shows "walkaddr r va s = Inr (if va < MAXVA \<and> leaf (pmem s) r va AND PTE_V \<noteq> 0 \<and> leaf (pmem s) r va AND PTE_U \<noteq> 0
    then PTE2PA (leaf (pmem s) r va) else 0)"
proof (cases "ptp (pmem s) r (vpath 2 va)")
  case None
  then show ?thesis by (auto simp: walkaddr_def walk_def walk_noalloc leaf_def slotv_def)
next
  case (Some a)
  moreover have "a + 8 * of_nat (PX 0 va) \<noteq> 0"
    using slot_nonzero ptreeD[OF assms is_path_vpath Some] by simp
  ultimately show ?thesis by (auto simp: walkaddr_def walk_def walk_noalloc leaf_def slotv_def Let_def not_le[symmetric])
qed

lemma mappages_spec:
  assumes "ptree s r ps" and "aligned va" and "0 < n" and "unat va + 4096 * n \<le> 2 ^ 38"
    and "\<And>i. i < n \<Longrightarrow> leaf (pmem s) r (va + 4096 * of_nat i) AND PTE_V = 0"
  shows "\<exists>res s' ps' k. mappages r va (4096 * of_nat n) pa perm s = Inr (res, s') \<and>
    evolves s r ps s' ps' \<and> (if res = 0 then k = n else res = -1 \<and> k < n \<and> ps' = []) \<and>
    (\<forall>vb. sv39 vb \<longrightarrow> leaf (pmem s') r vb = mapped va k pa perm (leaf (pmem s) r) vb)"
proof -
  obtain m where n: "n = Suc m" using assms(3) by (cases n) auto
  have u: "unat (4096 * of_nat n :: uint64) = 4096 * n"
    using unat_of_nat_small[of "4096 * n", where 'a = 64] assms(4) by simp
  have "4096 * of_nat n mod PGSIZE = (0::uint64)"
    using u by (simp add: word_unat_eq_iff unat_mod)
  moreover have "4096 * of_nat n \<noteq> (0::uint64)" using u assms(3) by (auto simp: word_unat_eq_iff)
  moreover have "va mod PGSIZE = 0" using assms(2) by (simp add: aligned_def)
  moreover have e: "va + 4096 * of_nat n - PGSIZE = va + 4096 * of_nat m" by (simp add: n algebra_simps)
  ultimately have "mappages r va (4096 * of_nat n) pa perm s = mappages_loop r va (va + 4096 * of_nat m) pa perm s"
    unfolding mappages_def e by simp
  moreover obtain res s' ps' k where "mappages_loop r va (va + 4096 * of_nat m) pa perm s = Inr (res, s')"
    "evolves s r ps s' ps'" "if res = 0 then k = Suc m else res = -1 \<and> k \<le> m \<and> ps' = []"
    "\<forall>vb. sv39 vb \<longrightarrow> leaf (pmem s') r vb = mapped va k pa perm (leaf (pmem s) r) vb"
    using mappages_loop_spec[OF assms(1,2), of m pa perm] assms(4,5) n by (auto simp: less_Suc_eq_le)
  ultimately show ?thesis
    by (intro exI[of _ res] exI[of _ s'] exI[of _ ps'] exI[of _ k]) (auto simp: n less_Suc_eq_le)
qed

text \<open>An empty table: a zeroed page as root.\<close>

lemma zero_root_ptp:
  assumes "\<And>x. x \<in> rng r 4096 \<Longrightarrow> m x = 0" and "is_path p"
  shows "ptp m r p = (if p = [] then Some r else None)"
proof (cases p)
  case (Cons i q)
  then have "i < 512" using assms(2) by (simp add: is_path_def)
  then have "ent m r i = None" using zero_page[OF _ assms(1)] by (simp add: ent_def)
  then show ?thesis using Cons by simp
qed simp

lemma zero_root_slotv:
  assumes "\<And>x. x \<in> rng r 4096 \<Longrightarrow> m x = 0" and "is_path p" and "i < 512"
  shows "slotv m r p i = 0"
  using zero_root_ptp[OF assms(1,2)] zero_page[OF assms(3,1)] by (simp add: slotv_def)

lemma zero_root:
  assumes "pool s ps" and "usable s r" and "r \<notin> set ps" and "\<And>x. x \<in> rng r 4096 \<Longrightarrow> pmem s x = 0"
  shows "ptree s r ps" and "leaf (pmem s) r va = 0" and "ptpages (pmem s) r = {r}"
proof -
  note z = zero_root_ptp[OF assms(4)] zero_root_slotv[OF assms(4)]
  show "ptree s r ps"
    using assms(1-3) z by (simp add: ptree_def pointer_def is_path_snoc)
  show "leaf (pmem s) r va = 0" using z by (simp add: leaf_def)
  have "ptp (pmem s) r p = Some b \<Longrightarrow> is_path p \<Longrightarrow> b = r" for p b using z(1)[where p = p] by (simp split: if_splits)
  then show "ptpages (pmem s) r = {r}"
    using ptpagesI[of "pmem s" r "[]" r] by (auto simp: ptpages_def)
qed

text \<open>
  C12. \<^verbatim>\<open>mappages\<close> on an unmapped range of user pages either installs all \<open>n\<close>
  translations, so that \<^verbatim>\<open>walkaddr\<close> maps each of them to its physical page and every
  other address as before, or returns -1 with the page pool used up.
\<close>

theorem mappages_walkaddr:
  assumes "ptree s r ps" and "aligned va" and "aligned pa" and "0 < n" and "unat va + 4096 * n \<le> 2 ^ 38"
    and "\<And>i. i < n \<Longrightarrow> leaf (pmem s) r (va + 4096 * of_nat i) AND PTE_V = 0"
    and "take_bit 10 perm = perm" and "perm AND PTE_U \<noteq> 0"
  shows "\<exists>res s' ps'. mappages r va (4096 * of_nat n) pa perm s = Inr (res, s') \<and> ptree s' r ps' \<and>
    (if res = 0
     then \<forall>vb. user_va vb \<longrightarrow> walkaddr r vb s' =
       (if unat va \<le> unat vb \<and> unat vb < unat va + 4096 * n then Inr (pa + (vb - va)) else walkaddr r vb s)
     else res = -1 \<and> ps' = [])"
proof -
  obtain res s' ps' k where m: "mappages r va (4096 * of_nat n) pa perm s = Inr (res, s')"
    and e: "evolves s r ps s' ps'" and k: "if res = 0 then k = n else res = -1 \<and> k < n \<and> ps' = []"
    and l: "\<forall>vb. sv39 vb \<longrightarrow> leaf (pmem s') r vb = mapped va k pa perm (leaf (pmem s) r) vb"
    using mappages_spec[OF assms(1,2,4-6)] by blast
  have t: "ptree s' r ps'" using e by (simp add: evolves_def)
  have "walkaddr r vb s' = (if unat va \<le> unat vb \<and> unat vb < unat va + 4096 * n then Inr (pa + (vb - va)) else walkaddr r vb s)"
    if "res = 0" "user_va vb" for vb
  proof (cases "unat va \<le> unat vb \<and> unat vb < unat va + 4096 * n")
    case True
    have "aligned (pa + (vb - va))"
      using assms(2,3) that(2) by (simp add: user_va_def aligned_add aligned_diff)
    then have "PTE2PA (leaf (pmem s') r vb) = pa + (vb - va)"
      using PTE2PA_PA2PTE[of "pa + (vb - va)" "perm OR PTE_V"] True l k that assms(7) by (simp add: mapped_def)
    moreover have "leaf (pmem s') r vb AND PTE_V \<noteq> 0" "leaf (pmem s') r vb AND PTE_U \<noteq> 0"
      using True l k that assms(8) by (simp_all add: mapped_def bit.conj_disj_distrib2 or_eq_0_iff)
    ultimately show ?thesis
      using walkaddr_leaf[OF t, of vb] that(2) True by (simp add: user_va_def)
  next
    case False
    then have "leaf (pmem s') r vb = leaf (pmem s) r vb" using l k that by (auto simp: mapped_def)
    then show ?thesis using False walkaddr_leaf[OF t] walkaddr_leaf[OF assms(1)] by auto
  qed
  then show ?thesis using m t k by (intro exI[of _ res] exI[of _ s'] exI[of _ ps']) auto
qed

theorem mappages_walkaddr_witness:
  "\<exists>res s' ps'. mappages 0x87ffe000 0 (4096 * of_nat 1) 0x87ffd000 (PTE_R OR PTE_U) phys_one = Inr (res, s') \<and>
    ptree s' 0x87ffe000 ps' \<and>
    (if res = 0
     then \<forall>vb. user_va vb \<longrightarrow> walkaddr 0x87ffe000 vb s' =
       (if unat vb < 4096 then Inr (0x87ffd000 + vb) else walkaddr 0x87ffe000 vb phys_one)
     else res = -1 \<and> ps' = [])"
proof -
  have us: "usable phys_one 0x87ffe000" by (simp add: usable_def phys_one_def aligned_def)
  have z: "pmem phys_one x = 0" for x by (simp add: phys_one_def)
  note t = zero_root[OF pool_phys_one us _ z, simplified]
  show ?thesis
    using mappages_walkaddr[OF t(1), of 0 "0x87ffd000" 1 "PTE_R OR PTE_U"] by (simp add: t(2) aligned_def cong: if_cong)
qed

end
