(* ===== verification/Uvm.thy ===== *)
theory Uvm
  imports PageTable
begin

text \<open>
  \<^verbatim>\<open>kernel/vm.c\<close>, the second half: user address spaces. Creating, growing, shrinking,
  copying and freeing them. The invariant \<open>aspace\<close> says that the page-table pages, the
  user pages and the free pages of an address space are all different; the theorems say what
  each operation does to the mapping and that no page is lost or shared.
\<close>

section \<open>Operations\<close>

definition uvmcreate :: "phys \<Rightarrow> uint64 \<times> phys" where
  "uvmcreate s =
     (let (pagetable, s) = kalloc s in
      if pagetable = 0 then (0, s)
      else (pagetable, s\<lparr>pmem := memset (pmem s) pagetable 0 4096\<rparr>))"

text \<open>Bytes of a kernel buffer copied into memory: \<^verbatim>\<open>memmove\<close> from outside it.\<close>

fun put_bytes :: "mem \<Rightarrow> uint64 \<Rightarrow> uchar list \<Rightarrow> mem" where
  "put_bytes m a [] = m"
| "put_bytes m a (b # bs) = put_bytes (m(a := b)) (a + 1) bs"

definition uvmfirst :: "uint64 \<Rightarrow> uchar list \<Rightarrow> phys \<Rightarrow> phys res" where
  "uvmfirst pagetable src s =
     (if length src \<ge> 4096 then Inl (Panic ''uvmfirst: more than a page'')
      else
        let (mem, s) = kalloc s;
            s = s\<lparr>pmem := memset (pmem s) mem 0 4096\<rparr>
        in bindE (mappages pagetable 0 PGSIZE mem (PTE_W OR PTE_R OR PTE_X OR PTE_U) s) (\<lambda>(r, s).
             Inr (s\<lparr>pmem := put_bytes (pmem s) mem src\<rparr>)))"

text \<open>\<^verbatim>\<open>npages\<close> is an \<^verbatim>\<open>int\<close>: the page count is cut to 32 bits and sign-extended.\<close>

definition uvmdealloc :: "uint64 \<Rightarrow> uint64 \<Rightarrow> uint64 \<Rightarrow> phys \<Rightarrow> (uint64 \<times> phys) res" where
  "uvmdealloc pagetable oldsz newsz s =
     (if newsz \<ge> oldsz then Inr (oldsz, s)
      else if PGROUNDUP newsz < PGROUNDUP oldsz
      then
        let npages = scast (ucast ((PGROUNDUP oldsz - PGROUNDUP newsz) div PGSIZE) :: uint)
        in bindE (uvmunmap pagetable (PGROUNDUP newsz) npages True s) (\<lambda>s. Inr (newsz, s))
      else Inr (newsz, s))"

lemma mappages_Inr_less: "mappages r va sz pa perm s = Inr z \<Longrightarrow> unat va < 2 ^ 38"
proof -
  assume "mappages r va sz pa perm s = Inr z"
  then have "mappages_loop r va (va + sz - PGSIZE) pa perm s = Inr z"
    by (auto simp: mappages_def split: if_splits)
  then obtain w where "walk r va True s = Inr w" by (auto simp: mappages_loop.simps[of r va])
  then show ?thesis by (rule walk_Inr_less)
qed

function uvmalloc_loop :: "uint64 \<Rightarrow> uint64 \<Rightarrow> uint64 \<Rightarrow> uint64 \<Rightarrow> uint64 \<Rightarrow> phys \<Rightarrow> (uint64 \<times> phys) res" where
  "uvmalloc_loop pagetable oldsz a newsz xperm s =
     (if a < newsz
      then
        let (mem, s) = kalloc s in
        if mem = 0
        then bindE (uvmdealloc pagetable a oldsz s) (\<lambda>(r, s). Inr (0, s))
        else bindE (mappages pagetable a PGSIZE mem (PTE_R OR PTE_U OR xperm)
                      (s\<lparr>pmem := memset (pmem s) mem 0 4096\<rparr>)) (\<lambda>(r, s).
          if r \<noteq> 0
          then bindE (kfree mem s) (\<lambda>s. bindE (uvmdealloc pagetable a oldsz s) (\<lambda>(r, s). Inr (0, s)))
          else uvmalloc_loop pagetable oldsz (a + PGSIZE) newsz xperm s)
      else Inr (newsz, s))"
  by pat_completeness auto
termination
proof (relation "measure (\<lambda>(pagetable, oldsz, a, newsz, xperm, s). 2 ^ 38 - unat a)", simp, goal_cases)
  case (1 pagetable oldsz a newsz xperm s k mem s1 z r s2)
  then have "unat a < 2 ^ 38" using mappages_Inr_less by blast
  then show ?case by (simp add: unat_plus_if')
qed

declare uvmalloc_loop.simps [simp del]

definition uvmalloc :: "uint64 \<Rightarrow> uint64 \<Rightarrow> uint64 \<Rightarrow> uint64 \<Rightarrow> phys \<Rightarrow> (uint64 \<times> phys) res" where
  "uvmalloc pagetable oldsz newsz xperm s =
     (if newsz < oldsz then Inr (oldsz, s)
      else uvmalloc_loop pagetable (PGROUNDUP oldsz) (PGROUNDUP oldsz) newsz xperm s)"

text \<open>
  \<^verbatim>\<open>freewalk\<close> recurses over the levels of the table; a three-level table needs depth 3. A
  deeper one (which the kernel never builds) runs out of fuel.
\<close>

fun freewalk :: "nat \<Rightarrow> uint64 \<Rightarrow> phys \<Rightarrow> phys res" where
  "freewalk 0 pagetable s = Inl OutOfFuel"
| "freewalk (Suc depth) pagetable s =
     bindE
       (foldE (\<lambda>i s.
          let pte = load64 (pmem s) (pagetable + 8 * of_nat i) in
          if pte AND PTE_V \<noteq> 0 \<and> pte AND (PTE_R OR PTE_W OR PTE_X) = 0
          then bindE (freewalk depth (PTE2PA pte) s)
                 (\<lambda>s. Inr (s\<lparr>pmem := store64 (pmem s) (pagetable + 8 * of_nat i) 0\<rparr>))
          else if pte AND PTE_V \<noteq> 0 then Inl (Panic ''freewalk: leaf'')
          else Inr s) [0..<512] s)
       (kfree pagetable)"

definition uvmfree :: "uint64 \<Rightarrow> uint64 \<Rightarrow> phys \<Rightarrow> phys res" where
  "uvmfree pagetable sz s =
     bindE (if sz > 0 then uvmunmap pagetable 0 (PGROUNDUP sz div PGSIZE) True s else Inr s)
       (freewalk 3 pagetable)"

function uvmcopy_loop :: "uint64 \<Rightarrow> uint64 \<Rightarrow> uint64 \<Rightarrow> uint64 \<Rightarrow> phys \<Rightarrow> (int \<times> phys) res" where
  "uvmcopy_loop old new i sz s =
     (if i < sz
      then bindE (walk old i False s) (\<lambda>(pte, s).
        if pte = 0 then Inl (Panic ''uvmcopy: pte should exist'')
        else
          let v = load64 (pmem s) pte in
          if v AND PTE_V = 0 then Inl (Panic ''uvmcopy: page not present'')
          else
            let pa = PTE2PA v; flags = PTE_FLAGS v; (mem, s) = kalloc s in
            if mem = 0 then bindE (uvmunmap new 0 (i div PGSIZE) True s) (\<lambda>s. Inr (-1, s))
            else bindE (mappages new i PGSIZE mem flags
                          (s\<lparr>pmem := memmove (pmem s) mem pa 4096\<rparr>)) (\<lambda>(r, s).
              if r \<noteq> 0
              then bindE (kfree mem s) (\<lambda>s. bindE (uvmunmap new 0 (i div PGSIZE) True s) (\<lambda>s. Inr (-1, s)))
              else uvmcopy_loop old new (i + PGSIZE) sz s))
      else Inr (0, s))"
  by pat_completeness auto
termination
proof (relation "measure (\<lambda>(old, new, i, sz, s). 2 ^ 38 - unat i)", simp, goal_cases)
  case (1 old new i)
  then have "unat i < 2 ^ 38" using walk_Inr_less by blast
  then show ?case by (simp add: unat_plus_if')
qed

declare uvmcopy_loop.simps [simp del]

definition uvmcopy :: "uint64 \<Rightarrow> uint64 \<Rightarrow> uint64 \<Rightarrow> phys \<Rightarrow> (int \<times> phys) res" where
  "uvmcopy old new sz s = uvmcopy_loop old new 0 sz s"

definition uvmclear :: "uint64 \<Rightarrow> uint64 \<Rightarrow> phys \<Rightarrow> phys res" where
  "uvmclear pagetable va s =
     bindE (walk pagetable va False s) (\<lambda>(pte, s).
       if pte = 0 then Inl (Panic ''uvmclear'')
       else Inr (s\<lparr>pmem := store64 (pmem s) pte (load64 (pmem s) pte AND NOT PTE_U)\<rparr>))"

section \<open>Address spaces\<close>

abbreviation uframe :: "mem \<Rightarrow> uint64 \<Rightarrow> uint64 \<Rightarrow> uint64" where
  "uframe m r va \<equiv> PTE2PA (leaf m r va)"

text \<open>
  \<open>aspace s r ps U\<close>: the table at \<open>r\<close> maps the user pages \<open>U\<close> to pages of its own, all
  different and none of them free or part of the table.
\<close>

definition aspace :: "phys \<Rightarrow> uint64 \<Rightarrow> uint64 list \<Rightarrow> uint64 set \<Rightarrow> bool" where
  "aspace s r ps U \<longleftrightarrow> ptree s r ps \<and>
     (\<forall>va \<in> U. user_va va \<and> leaf (pmem s) r va AND PTE_V \<noteq> 0 \<and> PTE_FLAGS (leaf (pmem s) r va) \<noteq> PTE_V \<and>
        usable s (uframe (pmem s) r va) \<and> uframe (pmem s) r va \<notin> set ps \<union> ptpages (pmem s) r) \<and>
     inj_on (uframe (pmem s) r) U"

definition touches :: "uint64 set \<Rightarrow> phys \<Rightarrow> phys \<Rightarrow> bool" where
  "touches P s s' \<longleftrightarrow> kend s' = kend s \<and> (\<forall>x. (\<forall>a \<in> P. x \<notin> rng a 4096) \<longrightarrow> pmem s' x = pmem s x)"

lemma touches_refl [simp]: "touches P s s"
  by (simp add: touches_def)

lemma touches_mono: "touches P s s' \<Longrightarrow> P \<subseteq> Q \<Longrightarrow> touches Q s s'"
  unfolding touches_def by blast

lemma touches_trans: "touches P s s' \<Longrightarrow> touches P s' s'' \<Longrightarrow> touches P s s''"
  by (simp add: touches_def)

lemma evolves_touches: "evolves s r ps s' ps' \<Longrightarrow> touches (ptpages (pmem s) r \<union> set ps) s s'"
  by (simp add: evolves_def touches_def)

lemma pages_apart: "aligned a \<Longrightarrow> aligned b \<Longrightarrow> a \<noteq> b \<Longrightarrow> x \<in> rng a 4096 \<Longrightarrow> x \<notin> rng b 4096"
  using page_disjoint[of a b] by blast

lemma ptpages_aligned: "ptree s r ps \<Longrightarrow> a \<in> ptpages (pmem s) r \<Longrightarrow> aligned a"
  using ptreeD(2) by (auto simp: ptpages_def)

lemma ptpages_usable: "ptree s r ps \<Longrightarrow> a \<in> ptpages (pmem s) r \<Longrightarrow> usable s a \<and> a \<notin> set ps"
  using ptreeD(1,4) by (auto simp: ptpages_def)

lemma pool_aligned: "ptree s r ps \<Longrightarrow> a \<in> set ps \<Longrightarrow> aligned a"
  by (auto simp: ptree_def pool_def usable_def)

lemma ptpages_cong:
  assumes "\<And>a x. a \<in> ptpages m r \<Longrightarrow> x \<in> rng a 4096 \<Longrightarrow> m' x = m x"
  shows "ptpages m' r = ptpages m r"
  unfolding ptpages_def using ptp_cong[OF assms] by (auto cong: conj_cong)

text \<open>A page outside the table given back: the table is untouched.\<close>

lemma ptree_kfree:
  assumes t: "ptree s r ps" and u: "usable s pa" and n: "pa \<notin> set ps \<union> ptpages (pmem s) r"
    and k: "kfree pa s = Inr s'"
  shows "ptree s' r (pa # ps)" and "leaf (pmem s') r va = leaf (pmem s) r va"
    and "ptpages (pmem s') r = ptpages (pmem s) r" and "touches {pa} s s'"
    and "is_path p \<Longrightarrow> ptp (pmem s') r p = ptp (pmem s) r p"
proof -
  have fr: "pmem s' x = pmem s x" if "x \<notin> rng pa 4096" for x using kfree_frame(3)[OF k that] .
  have same: "pmem s' x = pmem s x" if "a \<in> ptpages (pmem s) r" "x \<in> rng a 4096" for a x
    using fr pages_apart[OF ptpages_aligned[OF t that(1)] _ _ that(2), of pa] u n that(1)
    by (auto simp: usable_def)
  show lf: "leaf (pmem s') r va = leaf (pmem s) r va" using same by (rule leaf_cong)
  show pt: "ptpages (pmem s') r = ptpages (pmem s) r" using same by (rule ptpages_cong)
  show pp: "ptp (pmem s') r p = ptp (pmem s) r p" if "is_path p" for p using same that by (rule ptp_cong)
  show "touches {pa} s s'" using fr kfree_frame(2)[OF k] by (simp add: touches_def)
  have "pool s' (pa # ps)" using pool_kfree[of s ps pa s'] t u n k by (simp add: ptree_def)
  moreover have "usable s' a = usable s a" for a using kfree_frame(2)[OF k] by (simp add: usable_def)
  moreover have "slotv (pmem s') r p i = slotv (pmem s) r p i" if "is_path (p @ [i])" for p i
    using same that by (intro slotv_cong) (auto simp: is_path_snoc)
  moreover have "a \<noteq> pa" if "is_path p" "ptp (pmem s) r p = Some a" for p a
    using ptpagesI[OF that(2,1)] n by blast
  ultimately show "ptree s' r (pa # ps)" using t pp by (simp add: ptree_def)
qed

lemma leaf_slot:
  assumes "ptree s r ps" and "leaf (pmem s) r va AND PTE_V \<noteq> 0" and "user_va va"
  obtains b where "ptp (pmem s) r (vpath 2 va) = Some b" and "b + 8 * of_nat (PX 0 va) \<noteq> 0"
    and "walk r va False s = Inr (b + 8 * of_nat (PX 0 va), s)"
    and "load64 (pmem s) (b + 8 * of_nat (PX 0 va)) = leaf (pmem s) r va"
proof -
  obtain b where b: "ptp (pmem s) r (vpath 2 va) = Some b"
    using assms(2) by (auto simp: leaf_def slotv_def split: option.splits)
  moreover have "b + 8 * of_nat (PX 0 va) \<noteq> 0"
    using slot_nonzero ptreeD[OF assms(1) is_path_vpath b] by simp
  ultimately show thesis
    using that[of b] assms(3) by (simp add: walk_def walk_noalloc user_va_def leaf_def slotv_def not_le[symmetric])
qed

lemma aspaceD:
  assumes "aspace s r ps U"
  shows "ptree s r ps" and "va \<in> U \<Longrightarrow> user_va va" and "va \<in> U \<Longrightarrow> leaf (pmem s) r va AND PTE_V \<noteq> 0"
    and "va \<in> U \<Longrightarrow> PTE_FLAGS (leaf (pmem s) r va) \<noteq> PTE_V" and "va \<in> U \<Longrightarrow> usable s (uframe (pmem s) r va)"
    and "va \<in> U \<Longrightarrow> uframe (pmem s) r va \<notin> set ps" and "va \<in> U \<Longrightarrow> uframe (pmem s) r va \<notin> ptpages (pmem s) r"
    and "va \<in> U \<Longrightarrow> vb \<in> U \<Longrightarrow> uframe (pmem s) r va = uframe (pmem s) r vb \<Longrightarrow> va = vb"
  using assms by (auto simp: aspace_def inj_on_def)

lemma aspace_transfer:
  assumes A: "aspace s r ps U" and t: "ptree s' r ps'" and k: "kend s' = kend s" and V: "V \<subseteq> U"
    and l: "\<And>va. va \<in> V \<Longrightarrow> leaf (pmem s') r va = leaf (pmem s) r va"
    and n: "\<And>va. va \<in> V \<Longrightarrow> uframe (pmem s) r va \<notin> set ps' \<union> ptpages (pmem s') r"
  shows "aspace s' r ps' V"
proof -
  have us: "usable s' a = usable s a" for a using k by (simp add: usable_def)
  have "inj_on (uframe (pmem s) r) U" using A by (simp add: aspace_def)
  then have "inj_on (uframe (pmem s) r) V" using V by (rule inj_on_subset)
  then have "inj_on (uframe (pmem s') r) V" by (subst inj_on_cong[of V]) (simp_all add: l)
  moreover have "user_va va \<and> leaf (pmem s') r va AND PTE_V \<noteq> 0 \<and> PTE_FLAGS (leaf (pmem s') r va) \<noteq> PTE_V \<and>
      usable s' (uframe (pmem s') r va) \<and> uframe (pmem s') r va \<notin> set ps' \<union> ptpages (pmem s') r"
    if "va \<in> V" for va
    unfolding us l[OF that] using aspaceD(2-5)[OF A] n[OF that] that V by blast
  ultimately show ?thesis unfolding aspace_def using t by blast
qed

lemma unmap_one:
  assumes A: "aspace s r ps U" and va: "va \<in> U" and k: "kfree (uframe (pmem s) r va) s = Inr s1"
    and b: "ptp (pmem s) r (vpath 2 va) = Some b"
    and s': "s' = s1\<lparr>pmem := store64 (pmem s1) (b + 8 * of_nat (PX 0 va)) 0\<rparr>"
  shows "aspace s' r (uframe (pmem s) r va # ps) (U - {va})"
    and "sv39 vb \<Longrightarrow> leaf (pmem s') r vb = (if vb = va then 0 else leaf (pmem s) r vb)"
    and "ptpages (pmem s') r = ptpages (pmem s) r"
    and "touches (insert (uframe (pmem s) r va) (ptpages (pmem s) r)) s s'"
proof -
  note D = aspaceD[OF A]
  let ?pa = "uframe (pmem s) r va"
  have ne: "?pa \<notin> set ps \<union> ptpages (pmem s) r" using D(6,7) va by blast
  note K = ptree_kfree[OF D(1) D(5)[OF va] ne k]
  have b1: "ptp (pmem s1) r (vpath 2 va) = Some b" using K(5) b by simp
  note E = evolves_store_leaf[OF K(1) b1 D(2)[OF va] s']
  show lf: "leaf (pmem s') r vb = (if vb = va then 0 else leaf (pmem s) r vb)" if "sv39 vb" for vb
    using E(2)[OF that] K(2) by simp
  show pt: "ptpages (pmem s') r = ptpages (pmem s) r"
    using store_leaf(1)[OF K(1) b1 refl, of _ 0] K(5) s' by (auto simp: ptpages_def)
  have "touches (ptpages (pmem s1) r) s1 s'"
    using store64_other_page[OF PX_less, of _ b "pmem s1"] ptpagesI[OF b1 is_path_vpath]
    by (auto simp: touches_def s')
  then show "touches (insert ?pa (ptpages (pmem s) r)) s s'"
    using K(3,4) by (auto simp: touches_def)
  have "ptree s' r (?pa # ps)" using E(1) by (simp add: evolves_def)
  then show "aspace s' r (?pa # ps) (U - {va})"
  proof (rule aspace_transfer[OF A])
    show "kend s' = kend s" using kfree_frame(2)[OF k] by (simp add: s')
    show "leaf (pmem s') r vb = leaf (pmem s) r vb" if "vb \<in> U - {va}" for vb
      using lf D(2) that by auto
    show "uframe (pmem s) r vb \<notin> set (?pa # ps) \<union> ptpages (pmem s') r" if "vb \<in> U - {va}" for vb
      using D(6,7)[of vb] D(8)[OF va, of vb] that pt by auto
  qed simp
qed

text \<open>The pages from \<open>lo\<close> up to \<open>hi\<close>.\<close>

definition upages :: "nat \<Rightarrow> nat \<Rightarrow> uint64 set" where
  "upages lo hi = {va. aligned va \<and> lo \<le> unat va \<and> unat va < hi}"

lemma upages_empty [simp]: "hi \<le> lo \<Longrightarrow> upages lo hi = {}"
  by (auto simp: upages_def)

lemma upages_step:
  assumes "aligned a" and "unat a < hi"
  shows "upages (unat a) hi = insert a (upages (unat a + 4096) hi)"
proof -
  have "va = a \<or> unat a + 4096 \<le> unat va" if "aligned va" "unat a \<le> unat va" for va
    using page_interval[OF assms(1) that(1)] that(2) by auto
  then show ?thesis using assms by (auto simp: upages_def)
qed

lemma upages_snoc:
  assumes "aligned a" and "lo \<le> unat a"
  shows "upages lo (unat a + 4096) = insert a (upages lo (unat a))"
proof -
  have "va = a \<or> unat va < unat a" if "aligned va" "unat va < unat a + 4096" for va
    using page_interval[OF assms(1) that(1)] that(2) by auto
  then show ?thesis using assms by (auto simp: upages_def)
qed

lemma unat_pages: "aligned a \<Longrightarrow> unat a + 4096 * n \<le> 2 ^ 38 \<Longrightarrow> unat (a + 4096 * of_nat n) = unat a + 4096 * n"
  using unat_add_nat[of a "4096 * n"] by simp

text \<open>Unmapping with freeing gives exactly the pages of the range back.\<close>

definition unmapped :: "phys \<Rightarrow> uint64 \<Rightarrow> uint64 list \<Rightarrow> uint64 set \<Rightarrow> uint64 set \<Rightarrow> phys \<Rightarrow> bool" where
  "unmapped s r ps U X s' \<longleftrightarrow>
     (\<exists>qs. aspace s' r (qs @ ps) (U - X) \<and> set qs = uframe (pmem s) r ` X) \<and>
     ptpages (pmem s') r = ptpages (pmem s) r \<and>
     touches (ptpages (pmem s) r \<union> uframe (pmem s) r ` X) s s' \<and>
     (\<forall>vb. sv39 vb \<longrightarrow> leaf (pmem s') r vb = (if vb \<in> X then 0 else leaf (pmem s) r vb))"

lemma unmapped_empty: "aspace s r ps U \<Longrightarrow> unmapped s r ps U {} s"
  by (auto simp: unmapped_def intro: exI[of _ "[]"])

lemma unmapped_insert:
  assumes A: "aspace s r ps U" and va: "va \<in> U" "va \<notin> X" "X \<subseteq> U" and k: "kfree (uframe (pmem s) r va) s = Inr s1"
    and b: "ptp (pmem s) r (vpath 2 va) = Some b"
    and s2: "s2 = s1\<lparr>pmem := store64 (pmem s1) (b + 8 * of_nat (PX 0 va)) 0\<rparr>"
    and u: "unmapped s2 r (uframe (pmem s) r va # ps) (U - {va}) X s'"
  shows "unmapped s r ps U (insert va X) s'"
proof -
  let ?pa = "uframe (pmem s) r va"
  note o = unmap_one[OF A va(1) k b s2]
  have lf: "leaf (pmem s2) r vb = leaf (pmem s) r vb" if "vb \<in> X" for vb
    using o(2)[of vb] aspaceD(2)[OF A, of vb] va that by auto
  obtain qs where qs: "aspace s' r (qs @ ?pa # ps) (U - {va} - X)" "set qs = uframe (pmem s2) r ` X"
    using u by (auto simp: unmapped_def)
  have fX: "uframe (pmem s2) r ` X = uframe (pmem s) r ` X" using lf by auto
  have e: "U - {va} - X = U - insert va X" by blast
  have "aspace s' r ((qs @ [?pa]) @ ps) (U - insert va X)" using qs(1) unfolding e by simp
  moreover have "set (qs @ [?pa]) = uframe (pmem s) r ` insert va X" using qs(2) fX by auto
  ultimately have "\<exists>qs. aspace s' r (qs @ ps) (U - insert va X) \<and> set qs = uframe (pmem s) r ` insert va X" by blast
  moreover have "ptpages (pmem s') r = ptpages (pmem s) r" using u o(3) by (simp add: unmapped_def)
  moreover have "touches (ptpages (pmem s) r \<union> uframe (pmem s) r ` insert va X) s s'"
  proof (rule touches_trans)
    show "touches (ptpages (pmem s) r \<union> uframe (pmem s) r ` insert va X) s s2"
      by (rule touches_mono[OF o(4)]) blast
    have "touches (ptpages (pmem s) r \<union> uframe (pmem s) r ` X) s2 s'"
      using u fX o(3) by (simp add: unmapped_def)
    then show "touches (ptpages (pmem s) r \<union> uframe (pmem s) r ` insert va X) s2 s'"
      by (rule touches_mono) blast
  qed
  moreover have "leaf (pmem s') r vb = (if vb \<in> insert va X then 0 else leaf (pmem s) r vb)" if "sv39 vb" for vb
    using u o(2)[OF that] that by (auto simp: unmapped_def)
  ultimately show ?thesis unfolding unmapped_def by blast
qed

lemma unmap_loop:
  assumes "aspace s r ps U" and "aligned a" and "unat a + 4096 * n \<le> 2 ^ 38"
    and "upages (unat a) (unat a + 4096 * n) \<subseteq> U"
  shows "\<exists>s'. uvmunmap_loop r a (a + 4096 * of_nat n) True s = Inr s' \<and>
    unmapped s r ps U (upages (unat a) (unat a + 4096 * n)) s'"
  using assms
proof (induction n arbitrary: a s ps U)
  case 0
  then show ?case using unmapped_empty by (simp add: uvmunmap_loop.simps[of r a])
next
  case (Suc n)
  note A = Suc.prems(1) and D = aspaceD[OF Suc.prems(1)]
  have step: "upages (unat a) (unat a + 4096 * Suc n) = insert a (upages (unat a + 4096) (unat a + 4096 + 4096 * n))"
    using upages_step[OF Suc.prems(2)] by (simp add: add.assoc)
  then have aU: "a \<in> U" using Suc.prems(4) by blast
  have lt: "a < a + 4096 * of_nat (Suc n)"
    using unat_pages[OF Suc.prems(2,3)] by (simp only: word_less_nat_alt) simp
  have a': "unat (a + PGSIZE) = unat a + 4096" "aligned (a + PGSIZE)"
    using unat_pages[of a 1] Suc.prems(2,3) by (simp_all add: aligned_add)
  have stop: "a + 4096 * of_nat (Suc n) = a + PGSIZE + 4096 * of_nat n" by (simp add: algebra_simps)
  obtain b where b: "ptp (pmem s) r (vpath 2 a) = Some b" "b + 8 * of_nat (PX 0 a) \<noteq> 0"
    "walk r a False s = Inr (b + 8 * of_nat (PX 0 a), s)" "load64 (pmem s) (b + 8 * of_nat (PX 0 a)) = leaf (pmem s) r a"
    using leaf_slot[OF D(1) D(3)[OF aU] D(2)[OF aU]] by blast
  obtain s1 where k: "kfree (uframe (pmem s) r a) s = Inr s1" using kfree_ok[OF D(5)[OF aU]] by blast
  define s2 where "s2 = s1\<lparr>pmem := store64 (pmem s1) (b + 8 * of_nat (PX 0 a)) 0\<rparr>"
  have na: "a \<notin> upages (unat a + 4096) (unat a + 4096 + 4096 * n)" by (simp add: upages_def)
  have "\<exists>s'. uvmunmap_loop r (a + PGSIZE) (a + PGSIZE + 4096 * of_nat n) True s2 = Inr s' \<and>
    unmapped s2 r (uframe (pmem s) r a # ps) (U - {a}) (upages (unat (a + PGSIZE)) (unat (a + PGSIZE) + 4096 * n)) s'"
  proof (rule Suc.IH)
    show "aspace s2 r (uframe (pmem s) r a # ps) (U - {a})" by (rule unmap_one(1)[OF A aU k b(1) s2_def])
    show "upages (unat (a + PGSIZE)) (unat (a + PGSIZE) + 4096 * n) \<subseteq> U - {a}"
      using Suc.prems(4) na unfolding step a'(1) by blast
  qed (use a' Suc.prems(3) in auto)
  then obtain s' where s': "uvmunmap_loop r (a + PGSIZE) (a + PGSIZE + 4096 * of_nat n) True s2 = Inr s'"
    "unmapped s2 r (uframe (pmem s) r a # ps) (U - {a}) (upages (unat a + 4096) (unat a + 4096 + 4096 * n)) s'"
    unfolding a'(1) by blast
  have "uvmunmap_loop r a (a + 4096 * of_nat (Suc n)) True s = Inr s'"
    using s'(1) b(2-4) k lt D(3,4)[OF aU] unfolding stop s2_def by (simp add: uvmunmap_loop.simps[of r a] Let_def)
  moreover have "upages (unat a + 4096) (unat a + 4096 + 4096 * n) \<subseteq> U" using Suc.prems(4) unfolding step by blast
  ultimately show ?case unfolding step using unmapped_insert[OF A aU na _ k b(1) s2_def s'(2)] by blast
qed

lemma uvmunmap_free:
  assumes "aspace s r ps U" and "aligned va" and "unat va + 4096 * n \<le> 2 ^ 38"
    and "upages (unat va) (unat va + 4096 * n) \<subseteq> U"
  shows "\<exists>s'. uvmunmap r va (of_nat n) True s = Inr s' \<and>
    unmapped s r ps U (upages (unat va) (unat va + 4096 * n)) s'"
  using unmap_loop[OF assms] assms(2) by (simp add: uvmunmap_def aligned_def mult.commute)

text \<open>All pages an address space and the free list hold: no operation loses one.\<close>

definition holds :: "phys \<Rightarrow> uint64 \<Rightarrow> uint64 list \<Rightarrow> uint64 set \<Rightarrow> uint64 set" where
  "holds s r ps U = set ps \<union> ptpages (pmem s) r \<union> uframe (pmem s) r ` U"

lemma unmapped_holds:
  assumes A: "aspace s r ps U" and X: "X \<subseteq> U" and u: "unmapped s r ps U X s'"
  shows "\<exists>ps'. aspace s' r ps' (U - X) \<and> holds s' r ps' (U - X) = holds s r ps U"
proof -
  obtain qs where qs: "aspace s' r (qs @ ps) (U - X)" "set qs = uframe (pmem s) r ` X"
    using u by (auto simp: unmapped_def)
  have "leaf (pmem s') r va = leaf (pmem s) r va" if "va \<in> U - X" for va
    using u aspaceD(2)[OF A] that by (auto simp: unmapped_def)
  then have "uframe (pmem s') r ` (U - X) = uframe (pmem s) r ` (U - X)" by auto
  moreover have "ptpages (pmem s') r = ptpages (pmem s) r" using u by (simp add: unmapped_def)
  ultimately have "holds s' r (qs @ ps) (U - X) = holds s r ps U"
    unfolding holds_def using qs(2) X by auto
  then show ?thesis using qs(1) by blast
qed

text \<open>Rounding of bounds.\<close>

lemma aligned_le_PGROUNDUP:
  assumes "aligned va" "unat n \<le> 2 ^ 38"
  shows "unat (PGROUNDUP n) \<le> unat va \<longleftrightarrow> unat n \<le> unat va" and "unat va < unat (PGROUNDUP n) \<longleftrightarrow> unat va < unat n"
proof -
  obtain k where "unat va = 4096 * k" using assms(1) by (rule alignedE)
  moreover have "unat (PGROUNDUP n) = (unat n + 4095) div 4096 * 4096"
    using assms(2) by (intro unat_PGROUNDUP) simp
  ultimately show "unat (PGROUNDUP n) \<le> unat va \<longleftrightarrow> unat n \<le> unat va" and "unat va < unat (PGROUNDUP n) \<longleftrightarrow> unat va < unat n"
    by auto
qed

lemma upages_PGROUNDUP:
  assumes "unat n \<le> 2 ^ 38"
  shows "upages (unat (PGROUNDUP n)) h = upages (unat n) h" and "upages l (unat (PGROUNDUP n)) = upages l (unat n)"
  using aligned_le_PGROUNDUP[OF _ assms] by (auto simp: upages_def)

lemma PGROUNDUP_bound:
  assumes "unat n \<le> 2 ^ 38"
  shows "unat (PGROUNDUP n) \<le> 2 ^ 38" and "unat n \<le> unat (PGROUNDUP n)" and "unat (PGROUNDUP n) < unat n + 4096"
proof -
  have "unat (PGROUNDUP n) = (unat n + 4095) div 4096 * 4096"
    using assms by (intro unat_PGROUNDUP) simp
  then show "unat (PGROUNDUP n) \<le> 2 ^ 38" and "unat n \<le> unat (PGROUNDUP n)" and "unat (PGROUNDUP n) < unat n + 4096"
    using assms by auto
qed

lemma uvmdealloc_spec:
  assumes A: "aspace s r ps U" and "upages (unat newsz) (unat oldsz) \<subseteq> U" and "unat oldsz \<le> 2 ^ 38"
    and le: "newsz \<le> oldsz"
  shows "\<exists>s'. uvmdealloc r oldsz newsz s = Inr (newsz, s') \<and> unmapped s r ps U (upages (unat newsz) (unat oldsz)) s'"
proof -
  have n: "unat newsz \<le> 2 ^ 38" using assms(3) le by (simp add: word_le_nat_alt)
  let ?a = "PGROUNDUP newsz" and ?b = "PGROUNDUP oldsz"
  note up = upages_PGROUNDUP[OF assms(3)] upages_PGROUNDUP[OF n]
  show ?thesis
  proof (cases "?a < ?b")
    case False
    then have "upages (unat newsz) (unat oldsz) = {}"
      using up(2)[of "unat ?a"] up(3)[of "unat oldsz"] by (simp add: word_less_nat_alt)
    then show ?thesis using False le unmapped_empty[OF A] by (auto simp: uvmdealloc_def Let_def)
  next
    case True
    obtain j where j: "unat ?a = 4096 * j" using aligned_PGROUNDUP by (rule alignedE)
    obtain k where k: "unat ?b = 4096 * k" using aligned_PGROUNDUP by (rule alignedE)
    note jk = j k
    have "j < k" using True jk by (simp add: word_less_nat_alt)
    have d: "unat (?b - ?a) = 4096 * (k - j)" using True jk by (simp add: unat_sub_if' word_less_nat_alt diff_mult_distrib2)
    have kb: "4096 * k \<le> 2 ^ 38" using PGROUNDUP_bound(1)[OF assms(3)] jk by simp
    have q: "unat (of_nat (k - j) :: uint64) = k - j" using kb by (intro unat_of_nat_small) simp
    have "(?b - ?a) div PGSIZE = of_nat (k - j)"
      using d q by (simp add: word_unat_eq_iff unat_div)
    then have np: "scast (ucast ((?b - ?a) div PGSIZE) :: uint) = (of_nat (k - j) :: uint64)"
      using scast_ucast_small[of "of_nat (k - j)"] q kb by simp
    have e: "unat ?a + 4096 * (k - j) = unat ?b" using jk \<open>j < k\<close> by (simp add: diff_mult_distrib2)
    have r: "upages (unat ?a) (unat ?a + 4096 * (k - j)) = upages (unat newsz) (unat oldsz)"
      unfolding e using up by simp
    obtain s' where s': "uvmunmap r ?a (of_nat (k - j)) True s = Inr s'"
      "unmapped s r ps U (upages (unat newsz) (unat oldsz)) s'"
      using uvmunmap_free[OF A, of ?a "k - j"] assms(2) jk kb \<open>j < k\<close> unfolding r by (auto simp: diff_mult_distrib2)
    have ne: "\<not> oldsz \<le> newsz" using True le by auto
    show ?thesis using s' True ne np by (simp add: uvmdealloc_def Let_def)
  qed
qed

section \<open>Growing\<close>

lemma aspace_kalloc:
  assumes A: "aspace s r (p # ps) U" and k: "kalloc s = (p, s1)"
    and mx: "\<forall>x. x \<notin> rng p 4096 \<longrightarrow> m x = pmem s x" and s2: "s2 = s1\<lparr>pmem := m\<rparr>"
  shows "aspace s2 r ps U" and "leaf (pmem s2) r va = leaf (pmem s) r va" and "ptpages (pmem s2) r = ptpages (pmem s) r"
    and "touches {p} s s2" and "usable s2 p" and "p \<notin> set ps \<union> ptpages (pmem s2) r \<union> uframe (pmem s2) r ` U"
proof -
  have m: "x \<notin> rng p 4096 \<Longrightarrow> m x = pmem s x" for x using mx by blast
  note D = aspaceD[OF A]
  have pool: "pool s (p # ps)" using D(1) by (simp add: ptree_def)
  have p: "usable s p" "aligned p" "p \<notin> set ps" using pool by (auto simp: pool_def usable_def)
  have ke: "kend s2 = kend s" using kalloc_frame(1)[OF k] by (simp add: s2)
  have us: "usable s2 a = usable s a" for a using ke by (simp add: usable_def)
  have same: "m x = pmem s x" if "a \<in> ptpages (pmem s) r" "x \<in> rng a 4096" for a x
    using ptpages_usable[OF D(1) that(1)] pages_apart[OF _ p(2) _ that(2)] by (intro m) (auto simp: usable_def)
  have pl: "m x = pmem s1 x" if "a \<in> set ps" "x \<in> rng a 4096" for a x
  proof -
    have "x \<notin> rng p 4096" using pages_apart[OF _ p(2) _ that(2)] pool p(3) that(1) by (auto simp: pool_def usable_def)
    then show ?thesis using m kalloc_frame(3)[OF k] by simp
  qed
  show lf: "leaf (pmem s2) r va = leaf (pmem s) r va" for va using leaf_cong[OF same] by (simp add: s2)
  show pt: "ptpages (pmem s2) r = ptpages (pmem s) r" using ptpages_cong[OF same] by (simp add: s2)
  show "touches {p} s s2" using m ke by (simp add: touches_def s2)
  show "usable s2 p" using us p by simp
  have pn: "p \<notin> ptpages (pmem s) r" using ptpages_usable[OF D(1)] by auto
  then show "p \<notin> set ps \<union> ptpages (pmem s2) r \<union> uframe (pmem s2) r ` U"
    using p(3) D(6) unfolding pt lf by auto
  have "pool s1 ps" using pool_kalloc(2)[OF pool k] by simp
  then have "pool s2 ps" using pl pool_pmem[of s1 ps m] by (simp add: s2)
  moreover have "ptp m r q = ptp (pmem s) r q" if "is_path q" for q using same that by (rule ptp_cong)
  moreover have "slotv m r q i = slotv (pmem s) r q i" if "is_path (q @ [i])" for q i
    using same that by (intro slotv_cong) (auto simp: is_path_snoc)
  ultimately have "ptree s2 r ps" using D(1) us by (simp add: ptree_def s2)
  then show "aspace s2 r ps U"
    by (rule aspace_transfer[OF A]) (use ke lf D(6,7) pt in auto)
qed

text \<open>Mapping one fresh page.\<close>

lemma map_page:
  assumes A: "aspace s r ps U" and va: "user_va va" "va \<notin> U" "leaf (pmem s) r va AND PTE_V = 0"
    and pa: "usable s pa" "pa \<notin> set ps \<union> ptpages (pmem s) r \<union> uframe (pmem s) r ` U"
    and perm: "take_bit 10 perm = perm" "perm OR PTE_V \<noteq> PTE_V"
  obtains (oom) s' where "mappages r va PGSIZE pa perm s = Inr (-1, s')" "aspace s' r [] U" "length ps \<le> 2"
      "\<And>vb. leaf (pmem s') r vb = leaf (pmem s) r vb" "ptpages (pmem s') r = ptpages (pmem s) r \<union> set ps"
      "touches (ptpages (pmem s) r \<union> set ps) s s'"
  | (ok) s' ps' where "mappages r va PGSIZE pa perm s = Inr (0, s')" "aspace s' r ps' (insert va U)"
      "length ps \<le> length ps' + 2"
      "\<And>vb. sv39 vb \<Longrightarrow> leaf (pmem s') r vb = (if vb = va then PA2PTE pa OR perm OR PTE_V else leaf (pmem s) r vb)"
      "ptpages (pmem s') r \<union> set ps' = ptpages (pmem s) r \<union> set ps"
      "touches (ptpages (pmem s) r \<union> set ps) s s'"
proof -
  note D = aspaceD[OF A]
  have m: "mappages r va PGSIZE pa perm s = mappages_loop r va va pa perm s"
    using va(1) by (simp add: mappages_def user_va_def aligned_def)
  show thesis
  proof (cases rule: mappages_round[OF D(1) va(1,3), of va pa perm])
    case (1 s1)
    have e: "ptpages (pmem s1) r = ptpages (pmem s) r \<union> set ps" "ptree s1 r []" "kend s1 = kend s"
      using 1(2) by (simp_all add: evolves_def)
    have "aspace s1 r [] U"
      by (rule aspace_transfer[OF A e(2,3)]) (use 1(3) D(6,7) e(1) in auto)
    then show thesis using oom[of s1] 1 m e(1) evolves_touches[OF 1(2)] by simp
  next
    case (2 s1 ps')
    have e: "ptpages (pmem s1) r \<union> set ps' = ptpages (pmem s) r \<union> set ps" "ptree s1 r ps'" "kend s1 = kend s"
      using 2(2) by (simp_all add: evolves_def)
    have lf: "leaf (pmem s1) r vb = leaf (pmem s) r vb" if "vb \<in> U" for vb
      using 2(4)[OF user_va_sv39[OF D(2)[OF that]]] that va(2) by auto
    have "aspace s1 r ps' U"
      by (rule aspace_transfer[OF A e(2,3)]) (use lf D(6,7) e(1) in auto)
    moreover have v: "leaf (pmem s1) r va = PA2PTE pa OR perm OR PTE_V" using 2(4)[OF user_va_sv39[OF va(1)]] by simp
    moreover have "take_bit 10 (perm OR PTE_V) = perm OR PTE_V" using perm(1) by simp
    then have "uframe (pmem s1) r va = pa" "PTE_FLAGS (leaf (pmem s1) r va) = perm OR PTE_V"
      using PTE2PA_PA2PTE[of pa "perm OR PTE_V"] PTE_FLAGS_PA2PTE[of "perm OR PTE_V" pa] pa(1) unfolding v
      by (simp_all add: usable_def)
    moreover have "usable s1 pa" using pa(1) e(3) by (simp add: usable_def)
    moreover have "uframe (pmem s1) r ` U = uframe (pmem s) r ` U" using lf by auto
    ultimately have "aspace s1 r ps' (insert va U)"
      using va pa(2) perm(2) e(1) by (simp add: aspace_def bit.conj_disj_distrib2) blast
    then show thesis using ok[of s1 ps'] 2 m e(1) evolves_touches[OF 2(2)] by simp
  qed
qed

lemma aspace_kfree:
  assumes A: "aspace s r ps U" and pa: "usable s pa" "pa \<notin> set ps \<union> ptpages (pmem s) r \<union> uframe (pmem s) r ` U"
    and k: "kfree pa s = Inr s'"
  shows "aspace s' r (pa # ps) U" and "leaf (pmem s') r va = leaf (pmem s) r va"
    and "ptpages (pmem s') r = ptpages (pmem s) r" and "touches {pa} s s'"
proof -
  note D = aspaceD[OF A]
  have n: "pa \<notin> set ps \<union> ptpages (pmem s) r" using pa(2) by blast
  note K = ptree_kfree[OF D(1) pa(1) n k]
  show "leaf (pmem s') r va = leaf (pmem s) r va" and "ptpages (pmem s') r = ptpages (pmem s) r" and "touches {pa} s s'"
    by (rule K)+
  show "aspace s' r (pa # ps) U"
    by (rule aspace_transfer[OF A K(1)]) (use kfree_frame(2)[OF k] K(2,3) D(6,7) pa(2) in auto)
qed

definition grown :: "phys \<Rightarrow> uint64 \<Rightarrow> uint64 list \<Rightarrow> uint64 set \<Rightarrow> uint64 set \<Rightarrow> uint64 \<Rightarrow> phys \<Rightarrow> bool" where
  "grown s r ps U X flags s' \<longleftrightarrow>
     (\<exists>ps'. aspace s' r ps' (U \<union> X) \<and> holds s' r ps' (U \<union> X) = holds s r ps U \<and> length ps \<le> length ps' + 3 * card X) \<and>
     touches (ptpages (pmem s) r \<union> set ps) s s' \<and>
     (\<forall>vb. sv39 vb \<longrightarrow> vb \<notin> X \<longrightarrow> leaf (pmem s') r vb = leaf (pmem s) r vb) \<and>
     (\<forall>vb \<in> X. PTE_FLAGS (leaf (pmem s') r vb) = flags \<and> (\<forall>x \<in> rng (uframe (pmem s') r vb) 4096. pmem s' x = 0))"

definition rolled_back :: "phys \<Rightarrow> uint64 \<Rightarrow> uint64 list \<Rightarrow> uint64 set \<Rightarrow> uint64 set \<Rightarrow> uint64 set \<Rightarrow> phys \<Rightarrow> bool" where
  "rolled_back s r ps U X Y s' \<longleftrightarrow>
     (\<exists>ps'. aspace s' r ps' (U - Y) \<and> holds s' r ps' (U - Y) = holds s r ps U) \<and>
     touches (holds s r ps X) s s' \<and>
     (\<forall>vb. sv39 vb \<longrightarrow> (if vb \<in> Y then leaf (pmem s') r vb AND PTE_V = 0 else leaf (pmem s') r vb = leaf (pmem s) r vb))"

lemma dealloc_rolls_back:
  assumes A: "aspace s r ps U" and X: "upages (unat oldsz) (unat a) \<subseteq> U" and a: "unat a \<le> 2 ^ 38" "oldsz \<le> a"
    and Y: "Y = upages (unat oldsz) (unat a) \<union> Z" "Z \<inter> U = {}" "\<forall>vb \<in> Z. leaf (pmem s) r vb AND PTE_V = 0"
  shows "\<exists>s'. uvmdealloc r a oldsz s = Inr (oldsz, s') \<and> rolled_back s r ps U (upages (unat oldsz) (unat a)) Y s'"
proof -
  let ?X = "upages (unat oldsz) (unat a)"
  obtain s' where s': "uvmdealloc r a oldsz s = Inr (oldsz, s')" and u: "unmapped s r ps U ?X s'"
    using uvmdealloc_spec[OF A X a] by blast
  have e: "U - ?X = U - Y" using Y(1,2) by blast
  have "\<exists>ps'. aspace s' r ps' (U - Y) \<and> holds s' r ps' (U - Y) = holds s r ps U"
    using unmapped_holds[OF A X u] unfolding e .
  moreover have "touches (holds s r ps ?X) s s'"
    using u touches_mono[of "ptpages (pmem s) r \<union> uframe (pmem s) r ` ?X" s s' "holds s r ps ?X"]
    by (auto simp: unmapped_def holds_def)
  moreover have "if vb \<in> Y then leaf (pmem s') r vb AND PTE_V = 0 else leaf (pmem s') r vb = leaf (pmem s) r vb"
    if "sv39 vb" for vb
    using u Y(1,3) that by (auto simp: unmapped_def)
  ultimately show ?thesis using s' unfolding rolled_back_def by blast
qed

lemma grown_step:
  assumes A: "aspace s3 r ps3 (insert a U)" and a: "a \<notin> U" "user_va a" "a \<notin> X"
    and l: "\<And>vb. sv39 vb \<Longrightarrow> vb \<noteq> a \<Longrightarrow> leaf (pmem s3) r vb = leaf (pmem s) r vb"
    and h: "holds s3 r ps3 (insert a U) = holds s r ps U" and len: "length ps \<le> length ps3 + 3"
    and tch: "touches (ptpages (pmem s) r \<union> set ps) s s3"
    and sub: "ptpages (pmem s3) r \<union> set ps3 \<subseteq> ptpages (pmem s) r \<union> set ps"
    and fl: "PTE_FLAGS (leaf (pmem s3) r a) = flags" and z: "\<And>x. x \<in> rng (uframe (pmem s3) r a) 4096 \<Longrightarrow> pmem s3 x = 0"
    and g: "grown s3 r ps3 (insert a U) X flags s'"
  shows "grown s r ps U (insert a X) flags s'"
proof -
  note D = aspaceD[OF A]
  have e: "insert a U \<union> X = U \<union> insert a X" by blast
  have la: "leaf (pmem s') r a = leaf (pmem s3) r a" using g a by (simp add: grown_def)
  have "pmem s' x = 0" if x: "x \<in> rng (uframe (pmem s') r a) 4096" for x
  proof -
    have f: "uframe (pmem s3) r a \<notin> ptpages (pmem s3) r \<union> set ps3" "aligned (uframe (pmem s3) r a)"
      using D(6,7)[of a] by auto
    have "x \<notin> rng b 4096" if "b \<in> ptpages (pmem s3) r \<union> set ps3" for b
      using pages_apart[OF f(2), of b x] ptpages_aligned[OF D(1)] pool_aligned[OF D(1)] f(1) that x la by auto
    then have "pmem s' x = pmem s3 x" using g by (simp add: grown_def touches_def)
    then show ?thesis using z x la by simp
  qed
  then have "\<forall>vb \<in> insert a X. PTE_FLAGS (leaf (pmem s') r vb) = flags \<and> (\<forall>x \<in> rng (uframe (pmem s') r vb) 4096. pmem s' x = 0)"
    using g fl la by (simp add: grown_def)
  moreover have "touches (ptpages (pmem s) r \<union> set ps) s s'"
    using touches_trans[OF tch touches_mono[OF _ sub]] g by (simp add: grown_def)
  moreover have "leaf (pmem s') r vb = leaf (pmem s) r vb" if "sv39 vb" "vb \<notin> insert a X" for vb
    using g l that by (simp add: grown_def)
  moreover have "card (insert a X) = Suc (card X)" using a(3) by simp
  then have "\<exists>ps'. aspace s' r ps' (U \<union> insert a X) \<and> holds s' r ps' (U \<union> insert a X) = holds s r ps U \<and>
      length ps \<le> length ps' + 3 * card (insert a X)"
    using g h len unfolding grown_def e by fastforce
  ultimately show ?thesis unfolding grown_def by blast
qed

lemma rolled_back_before:
  assumes rb: "rolled_back s' r ps' U' X' Y s''" and U: "U' - Y = U - Y"
    and h: "holds s' r ps' U' = holds s r ps U" and X: "holds s' r ps' X' = holds s r ps X"
    and t: "touches (holds s r ps X) s s'"
    and l: "\<And>vb. sv39 vb \<Longrightarrow> vb \<notin> Y \<Longrightarrow> leaf (pmem s') r vb = leaf (pmem s) r vb"
  shows "rolled_back s r ps U X Y s''"
proof -
  have "touches (holds s r ps X) s s''" using rb touches_trans[OF t] X by (simp add: rolled_back_def)
  then show ?thesis using rb l unfolding rolled_back_def h U by auto
qed

lemma zeroed_page:
  assumes "kalloc s = (p, s1)" and "p \<noteq> 0"
  shows "x \<notin> rng p 4096 \<Longrightarrow> memset (pmem s1) p 0 4096 x = pmem s x" and "x \<in> rng p 4096 \<Longrightarrow> memset (pmem s1) p 0 4096 x = 0"
  using kalloc_frame(3)[OF assms(1)] by (simp_all add: memset_apply)

text \<open>One round of \<^verbatim>\<open>uvmalloc\<close>.\<close>

lemma alloc_round:
  assumes A: "aspace s r ps U" and a: "user_va a" "a \<notin> U" "leaf (pmem s) r a AND PTE_V = 0" "a < newsz"
    and X: "upages (unat oldsz) (unat a) \<subseteq> U" "oldsz \<le> a"
    and Y: "Y = upages (unat oldsz) (unat a) \<union> Z" "Z \<inter> U = {}" "\<forall>vb \<in> Z. leaf (pmem s) r vb AND PTE_V = 0"
      "Z \<subseteq> {va. user_va va}"
    and perm: "perm = PTE_R OR PTE_U OR xperm" "take_bit 10 perm = perm" "perm OR PTE_V \<noteq> PTE_V"
  obtains (fail) s' where "uvmalloc_loop r oldsz a newsz xperm s = Inr (0, s')"
      "rolled_back s r ps U (upages (unat oldsz) (unat a)) Y s'" "length ps \<le> 3"
  | (ok) s3 ps3 where "uvmalloc_loop r oldsz a newsz xperm s = uvmalloc_loop r oldsz (a + PGSIZE) newsz xperm s3"
      "aspace s3 r ps3 (insert a U)" "length ps \<le> length ps3 + 3"
      "\<And>vb. sv39 vb \<Longrightarrow> vb \<noteq> a \<Longrightarrow> leaf (pmem s3) r vb = leaf (pmem s) r vb"
      "ptpages (pmem s3) r \<union> set ps3 \<union> {uframe (pmem s3) r a} = ptpages (pmem s) r \<union> set ps"
      "touches (ptpages (pmem s) r \<union> set ps) s s3"
      "PTE_FLAGS (leaf (pmem s3) r a) = perm OR PTE_V" "\<And>x. x \<in> rng (uframe (pmem s3) r a) 4096 \<Longrightarrow> pmem s3 x = 0"
proof (cases ps)
  case Nil
  have "kalloc s = (0, s)" using aspaceD(1)[OF A] Nil kmem.alloc_Nil by (simp add: ptree_def)
  moreover have "unat a \<le> 2 ^ 38" using a(1) by (simp add: user_va_unat)
  then obtain s' where "uvmdealloc r a oldsz s = Inr (oldsz, s')"
    "rolled_back s r ps U (upages (unat oldsz) (unat a)) Y s'"
    using dealloc_rolls_back[OF A X(1) _ X(2) Y(1-3)] by blast
  ultimately show thesis using fail[of s'] a(4) Nil by (simp add: uvmalloc_loop.simps[of r oldsz a])
next
  case (Cons p qs)
  note D = aspaceD[OF A]
  have A': "aspace s r (p # qs) U" using A Cons by simp
  have pool: "pool s (p # qs)" using D(1) Cons by (simp add: ptree_def)
  then obtain s1 where k: "kalloc s = (p, s1)" using kmem.alloc_Cons by blast
  have p0: "p \<noteq> 0" using pool by (simp add: pool_def)
  define s2 where "s2 = s1\<lparr>pmem := memset (pmem s1) p 0 4096\<rparr>"
  have z: "\<forall>x. x \<notin> rng p 4096 \<longrightarrow> memset (pmem s1) p 0 4096 x = pmem s x" using zeroed_page(1)[OF k p0] by blast
  note K = aspace_kalloc[OF A' k z s2_def]
  have pages2: "ptpages (pmem s2) r \<union> set qs \<union> {p} = ptpages (pmem s) r \<union> set ps" using K(3) Cons by auto
  have U2: "uframe (pmem s2) r ` V = uframe (pmem s) r ` V" for V using K(2) by simp
  have t2: "touches (ptpages (pmem s) r \<union> set ps) s s2" using touches_mono[OF K(4)] Cons by simp
  have v2: "leaf (pmem s2) r a AND PTE_V = 0" using K(2) a(3) by simp
  show thesis
  proof (cases rule: map_page[OF K(1) a(1,2) v2 K(5,6) perm(2,3)])
    case (1 s3)
    have f3: "usable s3 p" using 1(6) K(5) by (simp add: touches_def usable_def)
    have n3: "p \<notin> set [] \<union> ptpages (pmem s3) r \<union> uframe (pmem s3) r ` U" using K(6) 1(4,5) by auto
    obtain s4 where s4: "kfree p s3 = Inr s4" using kfree_ok[OF f3] by blast
    note F = aspace_kfree[OF 1(2) f3 n3 s4]
    have lf: "leaf (pmem s4) r vb = leaf (pmem s) r vb" for vb using F(2) 1(4) K(2) by simp
    have hold: "holds s4 r [p] V = holds s r ps V" for V
      using pages2 F(3) 1(5) lf unfolding holds_def by auto
    obtain s' where s': "uvmdealloc r a oldsz s4 = Inr (oldsz, s')"
      "rolled_back s4 r [p] U (upages (unat oldsz) (unat a)) Y s'"
      using dealloc_rolls_back[OF F(1) X(1) _ X(2) Y(1,2)] Y(3) lf a(1) by (auto simp: user_va_unat)
    have "touches (ptpages (pmem s) r \<union> set ps) s2 s3" using touches_mono[OF 1(6)] pages2 by blast
    moreover have "touches (ptpages (pmem s) r \<union> set ps) s3 s4" using touches_mono[OF F(4)] Cons by simp
    ultimately have "touches (ptpages (pmem s) r \<union> set ps) s s4" using t2 touches_trans by blast
    then have "touches (holds s r ps (upages (unat oldsz) (unat a))) s s4"
      by (rule touches_mono) (auto simp: holds_def)
    then have "rolled_back s r ps U (upages (unat oldsz) (unat a)) Y s'"
      using rolled_back_before[OF s'(2) refl hold hold] lf by blast
    moreover have "uvmalloc_loop r oldsz a newsz xperm s = Inr (0, s')"
      using k p0 1(1) s4 s'(1) a(4) perm(1) by (simp add: uvmalloc_loop.simps[of r oldsz a] s2_def)
    ultimately show thesis using fail[of s'] 1(3) Cons by simp
  next
    case (2 s3 ps3)
    have tb: "take_bit 10 (perm OR PTE_V) = perm OR PTE_V" using perm(2) by simp
    have al: "aligned p" using K(5) by (simp add: usable_def)
    have la: "leaf (pmem s3) r a = PA2PTE p OR perm OR PTE_V" using 2(4)[OF user_va_sv39[OF a(1)]] by simp
    have fr: "uframe (pmem s3) r a = p" "PTE_FLAGS (leaf (pmem s3) r a) = perm OR PTE_V"
      using PTE2PA_PA2PTE[OF al tb] PTE_FLAGS_PA2PTE[OF tb] unfolding la by auto
    have "x \<notin> rng b 4096" if "b \<in> ptpages (pmem s2) r \<union> set qs" "x \<in> rng p 4096" for b x
      using pages_apart[OF al, of b x] ptpages_aligned[OF aspaceD(1)[OF K(1)]] pool_aligned[OF aspaceD(1)[OF K(1)]] K(6) that
      by blast
    then have "pmem s3 x = 0" if "x \<in> rng p 4096" for x
      using 2(6) zeroed_page(2)[OF k p0 that] that by (auto simp: touches_def s2_def)
    moreover have "touches (ptpages (pmem s) r \<union> set ps) s2 s3" using touches_mono[OF 2(6)] pages2 by blast
    then have "touches (ptpages (pmem s) r \<union> set ps) s s3" using t2 touches_trans by blast
    moreover have "uvmalloc_loop r oldsz a newsz xperm s = uvmalloc_loop r oldsz (a + PGSIZE) newsz xperm s3"
      using k p0 2(1) a(4) perm(1) by (simp add: uvmalloc_loop.simps[of r oldsz a] s2_def)
    moreover have "leaf (pmem s3) r vb = leaf (pmem s) r vb" if "sv39 vb" "vb \<noteq> a" for vb
      using 2(4)[OF that(1)] that(2) K(2) by simp
    ultimately show thesis using ok[of s3 ps3] 2(2,3,5) fr pages2 Cons by simp
  qed
qed

lemma uvmalloc_loop_spec:
  assumes A: "aspace s r ps U" and a: "aligned a" "aligned oldsz" "oldsz \<le> a" and new: "unat newsz \<le> 2 ^ 38"
    and n: "unat newsz \<le> unat a + 4096 * n" and X: "upages (unat oldsz) (unat a) \<subseteq> U"
    and Z: "upages (unat a) (unat newsz) \<inter> U = {}" "\<forall>vb \<in> upages (unat a) (unat newsz). leaf (pmem s) r vb AND PTE_V = 0"
    and perm: "perm = PTE_R OR PTE_U OR xperm" "take_bit 10 perm = perm" "perm OR PTE_V \<noteq> PTE_V"
  shows "(\<exists>s'. uvmalloc_loop r oldsz a newsz xperm s = Inr (newsz, s') \<and>
      grown s r ps U (upages (unat a) (unat newsz)) (perm OR PTE_V) s') \<or>
    (\<exists>s'. uvmalloc_loop r oldsz a newsz xperm s = Inr (0, s') \<and> length ps \<le> 3 * n \<and>
      rolled_back s r ps U (upages (unat oldsz) (unat a)) (upages (unat oldsz) (unat a) \<union> upages (unat a) (unat newsz)) s')"
  using A a n X Z
proof (induction n arbitrary: a s ps U)
  case 0
  then have "\<not> a < newsz" by (simp add: word_less_nat_alt)
  then have "uvmalloc_loop r oldsz a newsz xperm s = Inr (newsz, s)" by (simp add: uvmalloc_loop.simps[of r oldsz a])
  moreover have "grown s r ps U (upages (unat a) (unat newsz)) (perm OR PTE_V) s"
    using 0 by (auto simp: grown_def)
  ultimately show ?case by blast
next
  case (Suc n)
  note A = Suc.prems(1) and a = Suc.prems(2) and old = Suc.prems(3) and le = Suc.prems(4)
  show ?case
  proof (cases "a < newsz")
    case False
    then have "uvmalloc_loop r oldsz a newsz xperm s = Inr (newsz, s)" by (simp add: uvmalloc_loop.simps[of r oldsz a])
    moreover have "upages (unat a) (unat newsz) = {}" using False by (simp add: word_less_nat_alt)
    then have "grown s r ps U (upages (unat a) (unat newsz)) (perm OR PTE_V) s"
      using A by (auto simp: grown_def)
    ultimately show ?thesis by blast
  next
    case True
    have lt: "unat a < unat newsz" using True by (simp add: word_less_nat_alt)
    have ua: "user_va a" using a lt new by (simp add: user_va_unat)
    have a': "unat (a + PGSIZE) = unat a + 4096" "aligned (a + PGSIZE)"
      using unat_add_nat[of a 4096] a lt new by (simp_all add: aligned_add)
    let ?X = "upages (unat oldsz) (unat a)" and ?Z = "upages (unat a) (unat newsz)"
    let ?Z' = "upages (unat (a + PGSIZE)) (unat newsz)" and ?X' = "upages (unat oldsz) (unat (a + PGSIZE))"
    have step: "?Z = insert a ?Z'" using upages_step[OF a lt] a' by simp
    have na: "a \<notin> ?Z'" using a' by (simp add: upages_def)
    have X': "?X' = insert a ?X" using upages_snoc[OF a] le a'(1) by (simp add: word_le_nat_alt)
    have aU: "a \<notin> U" "leaf (pmem s) r a AND PTE_V = 0" using Suc.prems(7,8) step by auto
    have Zu: "?Z \<subseteq> {va. user_va va}" using new by (auto simp: upages_def user_va_unat)
    show ?thesis
    proof (cases rule: alloc_round[OF A ua aU True Suc.prems(6) le refl Suc.prems(7,8) Zu perm])
      case (1 s')
      then show ?thesis by auto
    next
      case (2 s3 ps3)
      have "?Z' \<inter> insert a U = {}" using Suc.prems(7) step na by blast
      moreover have "\<forall>vb \<in> ?Z'. leaf (pmem s3) r vb AND PTE_V = 0"
      proof
        fix vb assume vb: "vb \<in> ?Z'"
        then have "user_va vb" "vb \<noteq> a" "vb \<in> ?Z" using Zu step na by auto
        then show "leaf (pmem s3) r vb AND PTE_V = 0" using 2(4) Suc.prems(8) by simp
      qed
      moreover have "oldsz \<le> a + PGSIZE" "unat newsz \<le> unat (a + PGSIZE) + 4096 * n"
        using le a' Suc.prems(5) by (auto simp: word_le_nat_alt)
      moreover have "?X' \<subseteq> insert a U" using X' Suc.prems(6) by auto
      ultimately have IH: "(\<exists>s'. uvmalloc_loop r oldsz (a + PGSIZE) newsz xperm s3 = Inr (newsz, s') \<and>
          grown s3 r ps3 (insert a U) ?Z' (perm OR PTE_V) s') \<or>
        (\<exists>s'. uvmalloc_loop r oldsz (a + PGSIZE) newsz xperm s3 = Inr (0, s') \<and> length ps3 \<le> 3 * n \<and>
          rolled_back s3 r ps3 (insert a U) ?X' (?X' \<union> ?Z') s')"
        using Suc.IH[OF 2(2) a'(2) old] by blast
      have lU: "leaf (pmem s3) r vb = leaf (pmem s) r vb" if "vb \<in> U" for vb
        using 2(4)[OF user_va_sv39[OF aspaceD(2)[OF A that]]] aU(1) that by blast
      have U3: "uframe (pmem s3) r ` V = uframe (pmem s) r ` V" if "V \<subseteq> U" for V
        using lU that by (intro image_cong) auto
      have h: "holds s3 r ps3 (insert a U) = holds s r ps U"
        using 2(5) U3[of U] unfolding holds_def by auto
      have Y: "?X' \<union> ?Z' = ?X \<union> ?Z" using X' step by blast
      show ?thesis
        using IH
      proof
        assume "\<exists>s'. uvmalloc_loop r oldsz (a + PGSIZE) newsz xperm s3 = Inr (newsz, s') \<and>
          grown s3 r ps3 (insert a U) ?Z' (perm OR PTE_V) s'"
        then obtain s' where s': "uvmalloc_loop r oldsz (a + PGSIZE) newsz xperm s3 = Inr (newsz, s')"
          "grown s3 r ps3 (insert a U) ?Z' (perm OR PTE_V) s'" by blast
        have "grown s r ps U ?Z (perm OR PTE_V) s'"
          unfolding step using 2(5) by (intro grown_step[OF 2(2) aU(1) ua na 2(4) h 2(3,6) _ 2(7,8) s'(2)]) auto
        then show ?thesis using s'(1) 2(1) by auto
      next
        assume "\<exists>s'. uvmalloc_loop r oldsz (a + PGSIZE) newsz xperm s3 = Inr (0, s') \<and> length ps3 \<le> 3 * n \<and>
          rolled_back s3 r ps3 (insert a U) ?X' (?X' \<union> ?Z') s'"
        then obtain s' where s': "uvmalloc_loop r oldsz (a + PGSIZE) newsz xperm s3 = Inr (0, s')" "length ps3 \<le> 3 * n"
          "rolled_back s3 r ps3 (insert a U) ?X' (?X \<union> ?Z) s'" unfolding Y by blast
        have "rolled_back s r ps U ?X (?X \<union> ?Z) s'"
        proof (rule rolled_back_before[OF s'(3)])
          show "insert a U - (?X \<union> ?Z) = U - (?X \<union> ?Z)" using step by blast
          show "holds s3 r ps3 ?X' = holds s r ps ?X" using 2(5) U3[OF Suc.prems(6)] X' unfolding holds_def by auto
          show "touches (holds s r ps ?X) s s3" by (rule touches_mono[OF 2(6)]) (auto simp: holds_def)
          show "leaf (pmem s3) r vb = leaf (pmem s) r vb" if "sv39 vb" "vb \<notin> ?X \<union> ?Z" for vb
            using 2(4) that step by auto
        qed (rule h)
        then show ?thesis using s'(1,2) 2(1,3) by auto
      qed
    qed
  qed
qed

end
