(* ===== verification/UvmFree.thy ===== *)
theory UvmFree
  imports Uvm
begin

text \<open>
  Freeing and copying address spaces (\<^verbatim>\<open>freewalk\<close>, \<^verbatim>\<open>uvmfree\<close>, \<^verbatim>\<open>uvmcopy\<close> of
  \<^verbatim>\<open>kernel/vm.c\<close>): every page an address space holds goes back to the free list.
\<close>

section \<open>Freeing the table\<close>

fun tpages :: "nat \<Rightarrow> mem \<Rightarrow> uint64 \<Rightarrow> uint64 set" where
  "tpages 0 m a = {a}"
| "tpages (Suc d) m a = insert a (\<Union>i<512. case ent m a i of None \<Rightarrow> {} | Some c \<Rightarrow> tpages d m c)"

abbreviation child :: "nat \<Rightarrow> mem \<Rightarrow> uint64 \<Rightarrow> nat \<Rightarrow> uint64 set" where
  "child d m a i \<equiv> case ent m a i of None \<Rightarrow> {} | Some c \<Rightarrow> tpages d m c"

text \<open>A table of \<open>d\<close> more levels without leaves, from its entry \<open>k\<close> on.\<close>

fun no_leaves :: "nat \<Rightarrow> mem \<Rightarrow> uint64 \<Rightarrow> bool" where
  "no_leaves 0 m a \<longleftrightarrow> (\<forall>i < 512. ent m a i = None)"
| "no_leaves (Suc d) m a \<longleftrightarrow>
     (\<forall>i < 512. pointer (load64 m (a + 8 * of_nat i)) \<and> a \<notin> child d m a i \<and>
        (case ent m a i of None \<Rightarrow> True | Some c \<Rightarrow> no_leaves d m c) \<and>
        (\<forall>j < 512. i \<noteq> j \<longrightarrow> child d m a i \<inter> child d m a j = {}))"

lemma tpages_self [simp]: "a \<in> tpages d m a"
  by (cases d) auto

lemma tpages_cong:
  "(\<And>b x. b \<in> tpages d m a \<Longrightarrow> x \<in> rng b 4096 \<Longrightarrow> m' x = m x) \<Longrightarrow> tpages d m' a = tpages d m a"
proof (induction d arbitrary: a)
  case (Suc d)
  have e: "ent m' a i = ent m a i" if "i < 512" for i
    using Suc.prems[of a] by (intro ent_cong[OF that]) simp
  have m: "m' x = m x" if "i < 512" "ent m a i = Some c" "b \<in> tpages d m c" "x \<in> rng b 4096" for i c b x
    using that by (intro Suc.prems[of b x]) (auto intro!: bexI[of _ i])
  have "child d m' a i = child d m a i" if "i < 512" for i
  proof (cases "ent m a i")
    case (Some c)
    have "tpages d m' c = tpages d m c"
      using m[OF that Some] by (rule Suc.IH)
    then show ?thesis using e[OF that] Some by simp
  qed (simp add: e[OF that])
  then show ?case by auto
qed simp

lemma no_leaves_cong:
  "(\<And>b x. b \<in> tpages d m a \<Longrightarrow> x \<in> rng b 4096 \<Longrightarrow> m' x = m x) \<Longrightarrow> no_leaves d m a \<Longrightarrow> no_leaves d m' a"
proof (induction d arbitrary: a)
  case 0
  then show ?case using ent_cong[of _ a m' m] by simp
next
  case (Suc d)
  have l: "load64 m' (a + 8 * of_nat i) = load64 m (a + 8 * of_nat i)" if "i < 512" for i
    using Suc.prems(1)[of a] slot_in_page[OF that, of a] by (intro load64_cong) auto
  then have e: "ent m' a i = ent m a i" if "i < 512" for i using that by (simp add: ent_def)
  have m: "m' x = m x" if "i < 512" "ent m a i = Some c" "b \<in> tpages d m c" "x \<in> rng b 4096" for i c b x
    using that by (intro Suc.prems(1)[of b x]) (auto intro!: bexI[of _ i])
  have c: "child d m' a i = child d m a i" if "i < 512" for i
    using tpages_cong[of d m _ m'] m[OF that] e[OF that] by (auto split: option.splits)
  have n: "case ent m' a i of None \<Rightarrow> True | Some c \<Rightarrow> no_leaves d m' c" if "i < 512" for i
    using Suc.IH[OF m[OF that]] Suc.prems(2) e[OF that] that by (auto split: option.splits)
  show ?case using Suc.prems(2) l c n by simp
qed

abbreviation freewalk_step :: "nat \<Rightarrow> uint64 \<Rightarrow> nat \<Rightarrow> phys \<Rightarrow> phys res" where
  "freewalk_step depth pagetable \<equiv> (\<lambda>i s.
     let pte = load64 (pmem s) (pagetable + 8 * of_nat i) in
     if pte AND PTE_V \<noteq> 0 \<and> pte AND (PTE_R OR PTE_W OR PTE_X) = 0
     then bindE (freewalk depth (PTE2PA pte) s)
            (\<lambda>s. Inr (s\<lparr>pmem := store64 (pmem s) (pagetable + 8 * of_nat i) 0\<rparr>))
     else if pte AND PTE_V \<noteq> 0 then Inl (Panic ''freewalk: leaf'')
     else Inr s)"

text \<open>The entries of the page \<open>a\<close> from \<open>k\<close> on are still to be freed.\<close>

definition pending :: "nat \<Rightarrow> phys \<Rightarrow> uint64 \<Rightarrow> uint64 list \<Rightarrow> nat \<Rightarrow> bool" where
  "pending d s a ps k \<longleftrightarrow> pool s ps \<and> usable s a \<and> a \<notin> set ps \<and>
     (\<forall>i. k \<le> i \<longrightarrow> i < 512 \<longrightarrow> pointer (load64 (pmem s) (a + 8 * of_nat i)) \<and> a \<notin> child d (pmem s) a i \<and>
        (case ent (pmem s) a i of None \<Rightarrow> True | Some c \<Rightarrow> no_leaves d (pmem s) c) \<and>
        (\<forall>b \<in> child d (pmem s) a i. usable s b \<and> b \<notin> set ps) \<and>
        (\<forall>j. k \<le> j \<longrightarrow> j < 512 \<longrightarrow> i \<noteq> j \<longrightarrow> child d (pmem s) a i \<inter> child d (pmem s) a j = {}))"

lemma pendingD:
  assumes "pending d s a ps k"
  shows "pool s ps" and "usable s a" and "a \<notin> set ps"
    and "k \<le> i \<Longrightarrow> i < 512 \<Longrightarrow> pointer (load64 (pmem s) (a + 8 * of_nat i))"
    and "k \<le> i \<Longrightarrow> i < 512 \<Longrightarrow> a \<notin> child d (pmem s) a i"
    and "k \<le> i \<Longrightarrow> i < 512 \<Longrightarrow> ent (pmem s) a i = Some c \<Longrightarrow> no_leaves d (pmem s) c"
    and "k \<le> i \<Longrightarrow> i < 512 \<Longrightarrow> b \<in> child d (pmem s) a i \<Longrightarrow> usable s b"
    and "k \<le> i \<Longrightarrow> i < 512 \<Longrightarrow> b \<in> child d (pmem s) a i \<Longrightarrow> b \<notin> set ps"
    and "k \<le> i \<Longrightarrow> i < 512 \<Longrightarrow> k \<le> j \<Longrightarrow> j < 512 \<Longrightarrow> i \<noteq> j \<Longrightarrow> child d (pmem s) a i \<inter> child d (pmem s) a j = {}"
proof -
  show "pool s ps" and "usable s a" and "a \<notin> set ps" using assms by (simp_all add: pending_def)
  have e: "pointer (load64 (pmem s) (a + 8 * of_nat i)) \<and> a \<notin> child d (pmem s) a i \<and>
      (case ent (pmem s) a i of None \<Rightarrow> True | Some c \<Rightarrow> no_leaves d (pmem s) c) \<and>
      (\<forall>b \<in> child d (pmem s) a i. usable s b \<and> b \<notin> set ps) \<and>
      (\<forall>j. k \<le> j \<longrightarrow> j < 512 \<longrightarrow> i \<noteq> j \<longrightarrow> child d (pmem s) a i \<inter> child d (pmem s) a j = {})"
    if "k \<le> i" "i < 512" for i
    using assms that unfolding pending_def by iprover
  show "pointer (load64 (pmem s) (a + 8 * of_nat i))" if "k \<le> i" "i < 512" using e[OF that] by (rule conjunct1)
  show "a \<notin> child d (pmem s) a i" if "k \<le> i" "i < 512" using e[OF that] by iprover
  show "no_leaves d (pmem s) c" if "k \<le> i" "i < 512" "ent (pmem s) a i = Some c" using e[OF that(1,2)] that(3) by simp
  show "usable s b" if "k \<le> i" "i < 512" "b \<in> child d (pmem s) a i" using e[OF that(1,2)] that(3) by blast
  show "b \<notin> set ps" if "k \<le> i" "i < 512" "b \<in> child d (pmem s) a i" using e[OF that(1,2)] that(3) by blast
  show "child d (pmem s) a i \<inter> child d (pmem s) a j = {}"
    if "k \<le> i" "i < 512" "k \<le> j" "j < 512" "i \<noteq> j" using e[OF that(1,2)] that(3-5) by iprover
qed

text \<open>Freeing one child and clearing its entry leaves the other entries pending.\<close>

lemma pending_child:
  assumes p: "pending d s a ps k" and k: "k < 512" and c: "ent (pmem s) a k = Some c"
    and s1: "pool s1 (qs @ ps)" "set qs = tpages d (pmem s) c" "touches (tpages d (pmem s) c) s s1"
    and s2: "s2 = s1\<lparr>pmem := store64 (pmem s1) (a + 8 * of_nat k) 0\<rparr>"
  shows "pending d s2 a (qs @ ps) (Suc k)"
    and "\<And>i. k < i \<Longrightarrow> i < 512 \<Longrightarrow> child d (pmem s2) a i = child d (pmem s) a i"
    and "touches (insert a (tpages d (pmem s) c)) s s2"
proof -
  let ?K = "child d (pmem s) a k"
  have K: "?K = tpages d (pmem s) c" using c by simp
  note D = pendingD[OF p]
  have P: "usable s a" "a \<notin> set ps" "a \<notin> ?K" "\<forall>b \<in> ?K. usable s b \<and> b \<notin> set ps"
    using D(2,3,5,7,8) k by blast+
  have al: "aligned a" "\<And>b. b \<in> ?K \<Longrightarrow> aligned b" using P by (auto simp: usable_def)
  have ke: "kend s2 = kend s" using s1(3) by (simp add: touches_def s2)
  have us: "usable s2 b = usable s b" for b using ke by (simp add: usable_def)
  have out1: "pmem s1 x = pmem s x" if "\<forall>b \<in> ?K. x \<notin> rng b 4096" for x
    using s1(3) that K by (simp add: touches_def)
  have out: "pmem s2 x = pmem s x" if "\<forall>b \<in> insert a ?K. x \<notin> rng b 4096" for x
    using out1[of x] store64_other_page[OF k, of x a] that by (simp add: s2)
  show "touches (insert a (tpages d (pmem s) c)) s s2" using out ke K unfolding touches_def by auto
  have la: "load64 (pmem s2) (a + 8 * of_nat i) = load64 (pmem s) (a + 8 * of_nat i)" if "k < i" "i < 512" for i
  proof -
    have "load64 (pmem s2) (a + 8 * of_nat i) = load64 (pmem s1) (a + 8 * of_nat i)"
      using load64_other_slot[OF al(1) al(1) k that(2)] that(1) by (simp add: s2)
    also have "\<dots> = load64 (pmem s) (a + 8 * of_nat i)"
    proof (rule load64_cong)
      fix x assume "x \<in> rng (a + 8 * of_nat i) 8"
      then have "x \<in> rng a 4096" using slot_in_page[OF that(2), of a] by blast
      then show "pmem s1 x = pmem s x" using pages_apart[OF al(1) al(2)] P(3) by (intro out1) blast
    qed
    finally show ?thesis .
  qed
  have en: "ent (pmem s2) a i = ent (pmem s) a i" if "k < i" "i < 512" for i using la[OF that] by (simp add: ent_def)
  have keep: "pmem s2 x = pmem s x" if i: "k < i" "i < 512" and b: "b \<in> child d (pmem s) a i" "x \<in> rng b 4096" for i b x
  proof -
    have "usable s b" "b \<noteq> a" "b \<notin> ?K" using D(5,7)[of i] D(9)[of i k] i b(1) k by auto
    then show ?thesis using pages_apart[OF _ _ _ b(2)] al by (intro out) (auto simp: usable_def)
  qed
  show ch: "child d (pmem s2) a i = child d (pmem s) a i" if "k < i" "i < 512" for i
    using keep[OF that] en[OF that] tpages_cong[of d "pmem s" _ "pmem s2"] by (auto split: option.splits)
  have nl: "case ent (pmem s2) a i of None \<Rightarrow> True | Some c \<Rightarrow> no_leaves d (pmem s2) c" if "k < i" "i < 512" for i
  proof (cases "ent (pmem s) a i")
    case (Some e)
    then have "no_leaves d (pmem s) e" using D(6)[of i e] that by simp
    then have "no_leaves d (pmem s2) e" using keep[OF that] Some no_leaves_cong[of d "pmem s" e "pmem s2"] by simp
    then show ?thesis using en[OF that] Some by simp
  qed (simp add: en[OF that])
  have "pmem s2 x = pmem s1 x" if "b \<in> set (qs @ ps)" "x \<in> rng b 4096" for b x
  proof -
    have "aligned b" "b \<noteq> a" using s1(1,2) that(1) P(2,3) K by (auto simp: pool_def usable_def)
    then have "x \<notin> rng a 4096" using pages_apart[OF _ al(1) _ that(2)] by blast
    then show ?thesis using store64_other_page[OF k] by (simp add: s2)
  qed
  then have "pool s2 (qs @ ps)" using pool_pmem[OF s1(1), of "pmem s2"] by (simp add: s2)
  moreover have "pointer (load64 (pmem s2) (a + 8 * of_nat i)) \<and> a \<notin> child d (pmem s2) a i \<and>
      (case ent (pmem s2) a i of None \<Rightarrow> True | Some c \<Rightarrow> no_leaves d (pmem s2) c) \<and>
      (\<forall>b \<in> child d (pmem s2) a i. usable s2 b \<and> b \<notin> set (qs @ ps)) \<and>
      (\<forall>j. Suc k \<le> j \<longrightarrow> j < 512 \<longrightarrow> i \<noteq> j \<longrightarrow> child d (pmem s2) a i \<inter> child d (pmem s2) a j = {})"
    if "Suc k \<le> i" "i < 512" for i
  proof (intro conjI allI impI ballI)
    have i: "k < i" "k \<le> i" using that(1) by simp_all
    show "pointer (load64 (pmem s2) (a + 8 * of_nat i))" using D(4)[OF i(2) that(2)] la[OF i(1) that(2)] by simp
    show "a \<notin> child d (pmem s2) a i" using D(5)[OF i(2) that(2)] ch[OF i(1) that(2)] by simp
    show "case ent (pmem s2) a i of None \<Rightarrow> True | Some c \<Rightarrow> no_leaves d (pmem s2) c" using nl[OF i(1) that(2)] .
    show "usable s2 b" "b \<notin> set (qs @ ps)" if "b \<in> child d (pmem s2) a i" for b
      using that D(7,8)[OF i(2) \<open>i < 512\<close>, of b] D(9)[OF i(2) \<open>i < 512\<close> order_refl k] i(1) s1(2) K us
      unfolding ch[OF i(1) \<open>i < 512\<close>] by auto
    show "child d (pmem s2) a i \<inter> child d (pmem s2) a j = {}" if "Suc k \<le> j" "j < 512" "i \<noteq> j" for j
      using that D(9)[OF i(2) \<open>i < 512\<close>, of j] ch[OF i(1) \<open>i < 512\<close>] ch[of j] by simp
  qed
  moreover have "usable s2 a" "a \<notin> set (qs @ ps)" using us P s1(2) K by auto
  ultimately show "pending d s2 a (qs @ ps) (Suc k)" unfolding pending_def by iprover
qed

lemma freewalk_loop:
  assumes IH: "\<And>c s ps. no_leaves d (pmem s) c \<Longrightarrow> pool s ps \<Longrightarrow> \<forall>b \<in> tpages d (pmem s) c. usable s b \<and> b \<notin> set ps \<Longrightarrow>
      \<exists>s' qs. freewalk (Suc d) c s = Inr s' \<and> pool s' (qs @ ps) \<and> set qs = tpages d (pmem s) c \<and>
        touches (tpages d (pmem s) c) s s'"
    and p: "pending d s a ps k" and k: "k \<le> 512"
  shows "\<exists>s' qs. foldE (freewalk_step (Suc d) a) [k..<512] s = Inr s' \<and> pool s' (qs @ ps) \<and>
    set qs = (\<Union>i\<in>{k..<512}. child d (pmem s) a i) \<and> touches (insert a (\<Union>i\<in>{k..<512}. child d (pmem s) a i)) s s'"
  using k p
proof (induction k arbitrary: s ps rule: inc_induct)
  case base
  then show ?case using pendingD(1) by (intro exI[of _ s] exI[of _ "[]"]) simp
next
  case (step k)
  note D = pendingD[OF step.prems]
  have up: "[k..<512] = k # [Suc k..<512]" "{k..<512} = insert k {Suc k..<512}" using step(2) by (auto simp: upt_conv_Cons)
  show ?case
  proof (cases "ent (pmem s) a k")
    case None
    then have v: "load64 (pmem s) (a + 8 * of_nat k) AND PTE_V = 0" by (auto simp: ent_def Let_def split: if_splits)
    have "pending d s a ps (Suc k)" using step.prems unfolding pending_def by (meson Suc_leD)
    from step.IH[OF this] show ?thesis unfolding up using None v by simp
  next
    case (Some c)
    then have v: "load64 (pmem s) (a + 8 * of_nat k) AND PTE_V \<noteq> 0" "PTE2PA (load64 (pmem s) (a + 8 * of_nat k)) = c"
      by (auto simp: ent_def Let_def split: if_splits)
    then have rwx: "load64 (pmem s) (a + 8 * of_nat k) AND (PTE_R OR PTE_W OR PTE_X) = 0"
      using D(4)[OF order_refl step(2)] unfolding pointer_def by argo
    have K: "child d (pmem s) a k = tpages d (pmem s) c" using Some by simp
    obtain s1 qs where s1: "freewalk (Suc d) c s = Inr s1" "pool s1 (qs @ ps)" "set qs = tpages d (pmem s) c"
      "touches (tpages d (pmem s) c) s s1"
      using IH[OF D(6)[OF order_refl step(2) Some] D(1)] D(7,8)[OF order_refl step(2)] K by metis
    define s2 where "s2 = s1\<lparr>pmem := store64 (pmem s1) (a + 8 * of_nat k) 0\<rparr>"
    note P = pending_child[OF step.prems step(2) Some s1(2-4) s2_def]
    have rest: "(\<Union>i\<in>{Suc k..<512}. child d (pmem s2) a i) = (\<Union>i\<in>{Suc k..<512}. child d (pmem s) a i)"
      using P(2) by simp
    obtain s' qs' where s': "foldE (freewalk_step (Suc d) a) [Suc k..<512] s2 = Inr s'" "pool s' (qs' @ qs @ ps)"
      "set qs' = (\<Union>i\<in>{Suc k..<512}. child d (pmem s) a i)" "touches (insert a (\<Union>i\<in>{Suc k..<512}. child d (pmem s) a i)) s2 s'"
      using step.IH[OF P(1)] unfolding rest by blast
    have "freewalk_step (Suc d) a k s = Inr s2"
      using v rwx s1(1) by (simp add: s2_def Let_def del: freewalk.simps)
    then have "foldE (freewalk_step (Suc d) a) [k..<512] s = Inr s'" unfolding up(1) foldE.simps using s'(1) by (simp only: bindE.simps)
    moreover have "pool s' ((qs' @ qs) @ ps)" using s'(2) by simp
    moreover have "set (qs' @ qs) = (\<Union>i\<in>{k..<512}. child d (pmem s) a i)"
      using s'(3) s1(3) K unfolding up(2) by auto
    moreover have "touches (insert a (\<Union>i\<in>{k..<512}. child d (pmem s) a i)) s s'"
    proof (rule touches_trans)
      show "touches (insert a (\<Union>i\<in>{k..<512}. child d (pmem s) a i)) s s2"
        by (rule touches_mono[OF P(3)]) (use K in \<open>auto simp: up(2)\<close>)
      show "touches (insert a (\<Union>i\<in>{k..<512}. child d (pmem s) a i)) s2 s'"
        by (rule touches_mono[OF s'(4)]) (auto simp: up(2))
    qed
    ultimately show ?thesis by blast
  qed
qed

lemma freewalk_frees:
  assumes "no_leaves d (pmem s) a" and "pool s ps" and "\<forall>b \<in> tpages d (pmem s) a. usable s b \<and> b \<notin> set ps"
  shows "\<exists>s' qs. freewalk (Suc d) a s = Inr s' \<and> pool s' (qs @ ps) \<and> set qs = tpages d (pmem s) a \<and>
    touches (tpages d (pmem s) a) s s'"
  using assms
proof (induction d arbitrary: a s ps)
  case 0
  have l: "foldE (freewalk_step 0 a) xs s = Inr s" if "set xs \<subseteq> {..<512}" for xs
    using that
  proof (induction xs)
    case (Cons i xs)
    then have "load64 (pmem s) (a + 8 * of_nat i) AND PTE_V = 0"
      using 0(1) by (auto simp: ent_def Let_def split: if_splits)
    then show ?case using Cons by simp
  qed simp
  have "foldE (freewalk_step 0 a) [0..<512] s = Inr s" by (rule l) auto
  moreover obtain s' where s': "kfree a s = Inr s'" "pool s' (a # ps)"
    using kmem.free_avail[OF 0(2), of a] 0(3) by auto
  ultimately have "freewalk (Suc 0) a s = Inr s'" unfolding freewalk.simps by (simp only: bindE.simps)
  then show ?case
    using s' kfree_frame(2,3)[OF s'(1)] by (intro exI[of _ s'] exI[of _ "[a]"]) (simp add: touches_def)
next
  case (Suc d)
  have us: "usable s a" "a \<notin> set ps" using Suc.prems(3) by auto
  have sub: "child d (pmem s) a i \<subseteq> tpages (Suc d) (pmem s) a" if "i < 512" for i using that by auto
  have "pending d s a ps 0"
    using Suc.prems(1,2) us Suc.prems(3) sub unfolding pending_def no_leaves.simps by blast
  from Suc.IH this have "\<exists>s' qs. foldE (freewalk_step (Suc d) a) [0..<512] s = Inr s' \<and> pool s' (qs @ ps) \<and>
    set qs = (\<Union>i\<in>{0..<512}. child d (pmem s) a i) \<and> touches (insert a (\<Union>i\<in>{0..<512}. child d (pmem s) a i)) s s'"
    by (rule freewalk_loop) simp_all
  moreover have "insert a (\<Union>i\<in>{0..<512}. child d (pmem s) a i) = tpages (Suc d) (pmem s) a"
    by (simp only: tpages.simps atLeast0LessThan)
  ultimately obtain s1 qs where s1: "foldE (freewalk_step (Suc d) a) [0..<512] s = Inr s1" "pool s1 (qs @ ps)"
    "set qs = (\<Union>i\<in>{0..<512}. child d (pmem s) a i)" "touches (tpages (Suc d) (pmem s) a) s s1"
    by metis
  have "a \<notin> set qs" using Suc.prems(1) s1(3) by auto
  moreover have "usable s1 a" using us s1(4) by (simp add: usable_def touches_def)
  ultimately obtain s' where s': "kfree a s1 = Inr s'" "pool s' (a # qs @ ps)"
    using kmem.free_avail[OF s1(2), of a] us by auto
  have "touches (tpages (Suc d) (pmem s) a) s1 s'"
    using kfree_frame(2,3)[OF s'(1)] by (simp add: touches_def)
  then have "touches (tpages (Suc d) (pmem s) a) s s'" using s1(4) touches_trans by blast
  moreover have "freewalk (Suc (Suc d)) a s = Inr s'" unfolding freewalk.simps(2)[of "Suc d"] using s1(1) s'(1) by (simp only: bindE.simps)
  ultimately show ?case using s1(3) s'(2) by (intro exI[of _ s'] exI[of _ "a # qs"]) (simp add: atLeast0LessThan)
qed

text \<open>The pages reached level by level are those reached by paths.\<close>

lemma tpages_paths: "tpages d m a = {b. \<exists>q. length q \<le> d \<and> (\<forall>i \<in> set q. i < 512) \<and> ptp m a q = Some b}"
proof (induction d arbitrary: a)
  case (Suc d)
  have "b \<in> child d m a i \<longleftrightarrow> (\<exists>q. length q \<le> d \<and> (\<forall>j \<in> set q. j < 512) \<and> ptp m a (i # q) = Some b)" for i b
    by (cases "ent m a i") (simp_all add: Suc.IH)
  then have c: "b \<in> tpages (Suc d) m a \<longleftrightarrow>
      b = a \<or> (\<exists>i<512. \<exists>q. length q \<le> d \<and> (\<forall>j \<in> set q. j < 512) \<and> ptp m a (i # q) = Some b)" for b
    unfolding tpages.simps by blast
  show ?case
  proof (rule set_eqI, unfold c mem_Collect_eq, rule iffI)
    fix b assume "b = a \<or> (\<exists>i<512. \<exists>q. length q \<le> d \<and> (\<forall>j \<in> set q. j < 512) \<and> ptp m a (i # q) = Some b)"
    then show "\<exists>q. length q \<le> Suc d \<and> (\<forall>i \<in> set q. i < 512) \<and> ptp m a q = Some b"
    proof (elim disjE exE conjE)
      assume "b = a"
      then show ?thesis by (intro exI[of _ "[]"]) simp
    next
      fix i q assume "i < 512" "length q \<le> d" "\<forall>j \<in> set q. j < 512" "ptp m a (i # q) = Some b"
      then show ?thesis by (intro exI[of _ "i # q"]) simp
    qed
  next
    fix b assume "\<exists>q. length q \<le> Suc d \<and> (\<forall>i \<in> set q. i < 512) \<and> ptp m a q = Some b"
    then obtain q where q: "length q \<le> Suc d" "\<forall>i \<in> set q. i < 512" "ptp m a q = Some b" by blast
    then show "b = a \<or> (\<exists>i<512. \<exists>q. length q \<le> d \<and> (\<forall>j \<in> set q. j < 512) \<and> ptp m a (i # q) = Some b)"
      by (cases q) auto
  qed
qed simp

lemma tpages_ptpages: "tpages 2 m r = ptpages m r"
  unfolding tpages_paths ptpages_def is_path_def by blast

lemma slot_va:
  assumes "is_path p" "length p = 2" "i < 512"
  obtains va where "sv39 va" "vpath 2 va = p" "PX 0 va = i"
proof -
  obtain j k where p: "p = [j, k]" "j < 512" "k < 512"
    using assms(1,2) by (auto simp: is_path_def numeral_2_eq_2 length_Suc_conv)
  obtain b where b: "b = k + 512 * j" by simp
  obtain n where n: "n = i + 512 * b" by simp
  define va :: uint64 where "va = of_nat (4096 * n)"
  have bd: "b mod 512 = k" "b div 512 = j" using p by (simp_all add: b)
  have nd: "n mod 512 = i" "n div 512 = b" using assms(3) by (simp_all add: n)
  have lt: "4096 * n < 2 ^ 39" using p assms(3) by (simp add: b n)
  then have u: "unat va = 4096 * n" unfolding va_def by (intro unat_of_nat_small) simp
  have "n div 262144 = n div 512 div 512" by (simp add: div_mult2_eq[symmetric])
  then have "PX 0 va = i" "PX 1 va = k" "PX 2 va = j" using bd nd p by (simp_all add: PX_eq u div_mult2_eq[symmetric])
  moreover have "sv39 va" using u lt by (simp add: sv39_def aligned_unat)
  ultimately show thesis using that[of va] p by (simp add: numeral_2_eq_2)
qed

text \<open>Nothing but the pages of \<open>U\<close> is mapped.\<close>

definition only :: "mem \<Rightarrow> uint64 \<Rightarrow> uint64 set \<Rightarrow> bool" where
  "only m r U \<longleftrightarrow> (\<forall>va. sv39 va \<longrightarrow> leaf m r va AND PTE_V \<noteq> 0 \<longrightarrow> va \<in> U)"

lemma ptree_no_leaves:
  assumes t: "ptree s r ps" and o: "only (pmem s) r {}"
  shows "length p + d = 2 \<Longrightarrow> is_path p \<Longrightarrow> ptp (pmem s) r p = Some a \<Longrightarrow> no_leaves d (pmem s) a"
proof (induction d arbitrary: p a)
  case 0
  have "ent (pmem s) a i = None" if i: "i < 512" for i
  proof -
    obtain va where "sv39 va" "vpath 2 va = p" "PX 0 va = i" using slot_va[of p i] 0 i by auto
    then have "load64 (pmem s) (a + 8 * of_nat i) AND PTE_V = 0"
      using o 0(3) by (auto simp: only_def leaf_def slotv_def)
    then show ?thesis by (simp add: ent_def)
  qed
  then show ?case by simp
next
  case (Suc d)
  have path: "is_path (p @ i # q)" if "i < 512" "length q \<le> d" "\<forall>j \<in> set q. j < 512" for i q
    using that Suc.prems(1,2) by (auto simp: is_path_def)
  have ch: "\<exists>q. is_path (p @ i # q) \<and> ptp (pmem s) r (p @ i # q) = Some b" if i: "i < 512" and b: "b \<in> child d (pmem s) a i" for i b
  proof -
    obtain c where c: "ent (pmem s) a i = Some c" "b \<in> tpages d (pmem s) c" using b by (auto split: option.splits)
    then obtain q where "length q \<le> d" "\<forall>i \<in> set q. i < 512" "ptp (pmem s) c q = Some b" unfolding tpages_paths by blast
    then show ?thesis using path[of i q] c(1) Suc.prems(3) i by (auto simp: ptp_append)
  qed
  have "pointer (load64 (pmem s) (a + 8 * of_nat i))" if "i < 512" for i
  proof -
    have "pointer (slotv (pmem s) r p i)" using t path[of i "[]"] that by (simp add: ptree_def)
    then show ?thesis using Suc.prems(3) by (simp add: slotv_def)
  qed
  moreover have "a \<notin> child d (pmem s) a i" if "i < 512" for i
    using ch[OF that, of a] ptree_inj[OF t Suc.prems(2) _ Suc.prems(3)] by fastforce
  moreover have "case ent (pmem s) a i of None \<Rightarrow> True | Some c \<Rightarrow> no_leaves d (pmem s) c" if "i < 512" for i
    using Suc.IH[of "p @ [i]"] Suc.prems path[of i "[]"] that by (auto simp: ptp_snoc split: option.splits)
  moreover have "child d (pmem s) a i \<inter> child d (pmem s) a j = {}" if "i < 512" "j < 512" "i \<noteq> j" for i j
  proof (rule ccontr)
    assume "child d (pmem s) a i \<inter> child d (pmem s) a j \<noteq> {}"
    then obtain b where b: "b \<in> child d (pmem s) a i" "b \<in> child d (pmem s) a j" by blast
    note c = ch[OF that(1) b(1)] ch[OF that(2) b(2)]
    obtain q q' where "is_path (p @ i # q)" "ptp (pmem s) r (p @ i # q) = Some b"
      "is_path (p @ j # q')" "ptp (pmem s) r (p @ j # q') = Some b"
      using c by blast
    then have "p @ i # q = p @ j # q'" using ptree_inj[OF t] by blast
    then show False using that(3) by simp
  qed
  ultimately show ?case by simp
qed

lemma freewalk_ptree:
  assumes t: "ptree s r ps" and o: "only (pmem s) r {}"
  shows "\<exists>s' qs. freewalk 3 r s = Inr s' \<and> pool s' (qs @ ps) \<and> set qs = ptpages (pmem s) r \<and> touches (ptpages (pmem s) r) s s'"
proof -
  have "no_leaves 2 (pmem s) r" using ptree_no_leaves[OF t o, of "[]" 2 r] by simp
  moreover have "pool s ps" using t by (simp add: ptree_def)
  moreover have "\<forall>b \<in> tpages 2 (pmem s) r. usable s b \<and> b \<notin> set ps" using ptpages_usable[OF t] unfolding tpages_ptpages by blast
  ultimately have "\<exists>s' qs. freewalk (Suc 2) r s = Inr s' \<and> pool s' (qs @ ps) \<and> set qs = ptpages (pmem s) r \<and>
    touches (ptpages (pmem s) r) s s'"
    using freewalk_frees[of 2 s r ps] unfolding tpages_ptpages by blast
  moreover have "Suc 2 = 3" by simp
  ultimately show ?thesis by (simp only:)
qed

lemma uvmfree_spec:
  assumes A: "aspace s r ps (upages 0 (unat sz))" and o: "only (pmem s) r (upages 0 (unat sz))" and sz: "unat sz \<le> 2 ^ 38"
  shows "\<exists>s' ps'. uvmfree r sz s = Inr s' \<and> pool s' ps' \<and> set ps' = holds s r ps (upages 0 (unat sz)) \<and>
    touches (ptpages (pmem s) r \<union> uframe (pmem s) r ` upages 0 (unat sz)) s s'"
proof -
  let ?U = "upages 0 (unat sz)"
  obtain k where k: "unat (PGROUNDUP sz) = 4096 * k" using aligned_PGROUNDUP by (rule alignedE)
  have kb: "4096 * k \<le> 2 ^ 38" using PGROUNDUP_bound(1)[OF sz] k by simp
  have "unat (of_nat k :: uint64) = k" using kb by (intro unat_of_nat_small) simp
  then have np: "PGROUNDUP sz div PGSIZE = of_nat k" using k by (simp add: word_unat_eq_iff unat_div)
  have e: "upages 0 (4096 * k) = ?U" using upages_PGROUNDUP(2)[OF sz, of 0] k by simp
  have "\<exists>s1. (if sz > 0 then uvmunmap r 0 (PGROUNDUP sz div PGSIZE) True s else Inr s) = Inr s1 \<and> unmapped s r ps ?U ?U s1"
  proof (cases "sz > 0")
    case True
    then show ?thesis using uvmunmap_free[OF A, of 0 k] kb e np by simp
  next
    case False
    then have "?U = {}" by (simp add: word_less_nat_alt)
    then show ?thesis using False unmapped_empty[OF A] by auto
  qed
  then obtain s1 where s1: "(if sz > 0 then uvmunmap r 0 (PGROUNDUP sz div PGSIZE) True s else Inr s) = Inr s1"
    "unmapped s r ps ?U ?U s1" by blast
  obtain qs where qs: "aspace s1 r (qs @ ps) {}" "set qs = uframe (pmem s) r ` ?U"
    using s1(2) by (auto simp: unmapped_def)
  have pt: "ptpages (pmem s1) r = ptpages (pmem s) r" using s1(2) by (simp add: unmapped_def)
  have "only (pmem s1) r {}" using o s1(2) by (fastforce simp: only_def unmapped_def)
  then obtain s' qs' where s': "freewalk 3 r s1 = Inr s'" "pool s' (qs' @ qs @ ps)" "set qs' = ptpages (pmem s) r"
    "touches (ptpages (pmem s) r) s1 s'"
    using freewalk_ptree[OF aspaceD(1)[OF qs(1)]] unfolding pt by blast
  have "uvmfree r sz s = Inr s'" unfolding uvmfree_def s1(1) bindE.simps by (rule s'(1))
  moreover have "set (qs' @ qs @ ps) = holds s r ps ?U" using s'(3) qs(2) unfolding holds_def by auto
  moreover have "touches (ptpages (pmem s) r \<union> uframe (pmem s) r ` ?U) s s1" using s1(2) by (simp add: unmapped_def)
  then have "touches (ptpages (pmem s) r \<union> uframe (pmem s) r ` ?U) s s'"
    by (rule touches_trans) (rule touches_mono[OF s'(4)], blast)
  ultimately show ?thesis using s'(2) by blast
qed

lemma uvmcreate_spec:
  assumes "pool s ps" and "uvmcreate s = (r, s')"
  shows "if ps = [] then r = 0 \<and> s' = s
    else aspace s' r (tl ps) {} \<and> only (pmem s') r {} \<and> holds s' r (tl ps) {} = set ps \<and> touches {r} s s'"
proof (cases ps)
  case Nil
  then have "kalloc s = (0, s)" using kmem.alloc_Nil assms(1) by simp
  then show ?thesis using Nil assms(2) by (simp add: uvmcreate_def)
next
  case (Cons p qs)
  then obtain s1 where k: "kalloc s = (p, s1)" "pool s1 qs" using kmem.alloc_Cons assms(1) by blast
  have p: "usable s p" "p \<noteq> 0" "p \<notin> set qs" using assms(1) Cons by (auto simp: pool_def usable_def)
  have s': "r = p" "s' = s1\<lparr>pmem := memset (pmem s1) p 0 4096\<rparr>"
    using assms(2) k p by (auto simp: uvmcreate_def)
  note Z = zeroed_page[OF k(1) p(2)]
  have "memset (pmem s1) p 0 4096 x = pmem s1 x" if "q \<in> set qs" "x \<in> rng q 4096" for q x
  proof -
    have "aligned q" "q \<noteq> p" using k(2) p(3) that by (auto simp: pool_def usable_def)
    then have "x \<notin> rng p 4096" using pages_apart[OF _ _ _ that(2)] p(1) by (simp add: usable_def)
    then show ?thesis using Z(1) kalloc_frame(3)[OF k(1)] by simp
  qed
  then have pool: "pool s' qs" unfolding s' by (rule pool_pmem[OF k(2)])
  have us: "usable s' p" using p(1) kalloc_frame(1)[OF k(1)] by (simp add: usable_def s')
  have z: "pmem s' x = 0" if "x \<in> rng p 4096" for x using Z(2)[OF that] by (simp add: s')
  note R = zero_root[OF pool us p(3) z]
  have "aspace s' r qs {}" using R(1) s'(1) by (simp add: aspace_def)
  moreover have "touches {r} s s'" using Z(1) kalloc_frame(1)[OF k(1)] by (simp add: touches_def s')
  ultimately show ?thesis using Cons R(2,3) s'(1) by (simp add: only_def holds_def)
qed

section \<open>Copying\<close>

lemma upages_ceil:
  assumes "aligned i" "sz \<le> unat i" "unat i \<le> sz + 4095"
  shows "upages 0 (unat i) = upages 0 sz"
proof -
  have "unat va < sz" if "aligned va" "unat va < unat i" for va
  proof -
    obtain j k where jk: "unat i = 4096 * j" "unat va = 4096 * k" using assms(1) \<open>aligned va\<close> by (meson alignedE)
    then have "k + 1 \<le> j" using that(2) by simp
    then have "4096 * k + 4096 \<le> 4096 * j" by simp
    then show ?thesis using jk assms(3) by linarith
  qed
  then show ?thesis using assms(2) by (auto simp: upages_def)
qed

text \<open>A table is not disturbed by changes elsewhere.\<close>

lemma ptree_other:
  assumes t: "ptree s r ps" and pool: "pool s' ps'" and tch: "touches P s s'" and al: "\<forall>b \<in> P. aligned b"
    and P: "ptpages (pmem s) r \<inter> P = {}" and ps': "ptpages (pmem s) r \<inter> set ps' = {}"
  shows "ptree s' r ps'" and "leaf (pmem s') r va = leaf (pmem s) r va" and "ptpages (pmem s') r = ptpages (pmem s) r"
proof -
  have same: "pmem s' x = pmem s x" if "a \<in> ptpages (pmem s) r" "x \<in> rng a 4096" for a x
  proof -
    have "x \<notin> rng b 4096" if "b \<in> P" for b
      using pages_apart[OF ptpages_aligned[OF t \<open>a \<in> _\<close>] bspec[OF al that] _ \<open>x \<in> _\<close>] P \<open>a \<in> _\<close> that by blast
    then show ?thesis using tch by (simp add: touches_def)
  qed
  show "leaf (pmem s') r va = leaf (pmem s) r va" using same by (rule leaf_cong)
  show "ptpages (pmem s') r = ptpages (pmem s) r" using same by (rule ptpages_cong)
  have pp: "ptp (pmem s') r p = ptp (pmem s) r p" if "is_path p" for p using same that by (rule ptp_cong)
  have "slotv (pmem s') r p i = slotv (pmem s) r p i" if "is_path (p @ [i])" for p i
    using same that by (intro slotv_cong) (auto simp: is_path_snoc)
  moreover have "usable s' a = usable s a" for a using tch by (simp add: touches_def usable_def)
  moreover have "a \<notin> set ps'" if "is_path p" "ptp (pmem s) r p = Some a" for p a
    using ptpagesI[OF that(2,1)] ps' by blast
  ultimately show "ptree s' r ps'" using t pool pp by (simp add: ptree_def)
qed

lemma aspace_other:
  assumes A: "aspace s r ps U" and pool: "pool s' ps'" and tch: "touches P s s'" and al: "\<forall>b \<in> P. aligned b"
    and P: "ptpages (pmem s) r \<inter> P = {}" and ps': "(ptpages (pmem s) r \<union> uframe (pmem s) r ` U) \<inter> set ps' = {}"
  shows "aspace s' r ps' U"
proof -
  have d: "ptpages (pmem s) r \<inter> set ps' = {}" using ps' by blast
  note T = ptree_other[OF aspaceD(1)[OF A] pool tch al P d]
  show ?thesis
  proof (rule aspace_transfer[OF A])
    show "ptree s' r ps'" by (rule T(1))
    show "kend s' = kend s" using tch by (simp add: touches_def)
    show "leaf (pmem s') r va = leaf (pmem s) r va" for va by (rule T(2))
    have "ptpages (pmem s') r = ptpages (pmem s) r" by (rule T(3))
    then show "uframe (pmem s) r va \<notin> set ps' \<union> ptpages (pmem s') r" if "va \<in> U" for va
      using ps' aspaceD(7)[OF A that] that by blast
  qed simp
qed

lemma holds_aligned: "aspace s r ps U \<Longrightarrow> b \<in> holds s r ps U \<Longrightarrow> aligned b"
  using ptpages_aligned[OF aspaceD(1)] pool_aligned[OF aspaceD(1)] by (auto simp: holds_def)

text \<open>
  The copy after the pages below \<open>i\<close>: \<open>P\<close> are the pages the new space may use and \<open>s0\<close> the
  state in which the copy started.
\<close>

definition copied :: "phys \<Rightarrow> uint64 \<Rightarrow> uint64 \<Rightarrow> uint64 set \<Rightarrow> phys \<Rightarrow> uint64 list \<Rightarrow> nat \<Rightarrow> bool" where
  "copied s0 old new P s ps i \<longleftrightarrow>
     aspace s new ps (upages 0 i) \<and> holds s new ps (upages 0 i) = P \<and> touches P s0 s \<and>
     (\<forall>vb. sv39 vb \<longrightarrow> vb \<notin> upages 0 i \<longrightarrow> leaf (pmem s) new vb = leaf (pmem s0) new vb) \<and>
     (\<forall>vb \<in> upages 0 i. PTE_FLAGS (leaf (pmem s) new vb) = PTE_FLAGS (leaf (pmem s0) old vb) \<and>
        (\<forall>k < 4096. pmem s (uframe (pmem s) new vb + of_nat k) = pmem s0 (uframe (pmem s0) old vb + of_nat k)))"

text \<open>The old space, which uses none of these pages.\<close>

definition source :: "phys \<Rightarrow> uint64 \<Rightarrow> uint64 list \<Rightarrow> uint64 set \<Rightarrow> uint64 set \<Rightarrow> bool" where
  "source s0 old ps0 U P \<longleftrightarrow> aspace s0 old ps0 U \<and> (\<forall>b \<in> P. aligned b) \<and>
     (ptpages (pmem s0) old \<union> uframe (pmem s0) old ` U) \<inter> P = {}"

lemma source_kept:
  assumes S: "source s0 old ps0 U P" and c: "pool s ps" "set ps \<subseteq> P" "touches P s0 s"
  shows "aspace s old ps U" and "leaf (pmem s) old va = leaf (pmem s0) old va"
    and "va \<in> U \<Longrightarrow> x \<in> rng (uframe (pmem s0) old va) 4096 \<Longrightarrow> pmem s x = pmem s0 x"
proof -
  have A: "aspace s0 old ps0 U" and al: "\<forall>b \<in> P. aligned b"
    and d: "(ptpages (pmem s0) old \<union> uframe (pmem s0) old ` U) \<inter> P = {}" using S by (auto simp: source_def)
  have dp: "ptpages (pmem s0) old \<inter> P = {}" and ds: "(ptpages (pmem s0) old \<union> uframe (pmem s0) old ` U) \<inter> set ps = {}"
    and dt: "ptpages (pmem s0) old \<inter> set ps = {}" using d c(2) by blast+
  show "aspace s old ps U" using A c(1,3) al dp ds by (rule aspace_other)
  show "leaf (pmem s) old va = leaf (pmem s0) old va" using aspaceD(1)[OF A] c(1,3) al dp dt by (rule ptree_other(2))
  show "pmem s x = pmem s0 x" if "va \<in> U" "x \<in> rng (uframe (pmem s0) old va) 4096"
  proof -
    have "x \<notin> rng b 4096" if "b \<in> P" for b
      using pages_apart[OF _ bspec[OF al that] _ \<open>x \<in> _\<close>] d \<open>va \<in> U\<close> that by (metis IntI UnI2 aligned_PTE2PA empty_iff image_eqI)
    then show ?thesis using c(3) by (simp add: touches_def)
  qed
qed

definition undone :: "phys \<Rightarrow> uint64 \<Rightarrow> uint64 set \<Rightarrow> uint64 set \<Rightarrow> phys \<Rightarrow> bool" where
  "undone s0 new P X s \<longleftrightarrow> (\<exists>ps. aspace s new ps {} \<and> holds s new ps {} = P) \<and> touches P s0 s \<and>
     (\<forall>vb. sv39 vb \<longrightarrow> leaf (pmem s) new vb = (if vb \<in> X then 0 else leaf (pmem s0) new vb))"

lemma copy_undo:
  assumes A: "aspace s new ps (upages 0 (unat i))" and h: "holds s new ps (upages 0 (unat i)) = P" and t: "touches P s0 s"
    and l: "\<forall>vb. sv39 vb \<longrightarrow> vb \<notin> upages 0 (unat i) \<longrightarrow> leaf (pmem s) new vb = leaf (pmem s0) new vb" and i: "user_va i"
  shows "\<exists>s'. uvmunmap new 0 (i div PGSIZE) True s = Inr s' \<and> undone s0 new P (upages 0 (unat i)) s'"
proof -
  let ?U = "upages 0 (unat i)"
  obtain k where k: "unat i = 4096 * k" using i alignedE by (auto simp: user_va_def)
  have kb: "4096 * k \<le> 2 ^ 38" using i k by (simp add: user_va_unat)
  have "unat (of_nat k :: uint64) = k" using kb by (intro unat_of_nat_small) simp
  then have np: "i div PGSIZE = of_nat k" using k by (simp add: word_unat_eq_iff unat_div)
  obtain s' where s': "uvmunmap new 0 (of_nat k) True s = Inr s'" and u: "unmapped s new ps ?U ?U s'"
    using uvmunmap_free[OF A, of 0 k] kb k by auto
  obtain ps' where ps': "aspace s' new ps' {}" "holds s' new ps' {} = P"
    using unmapped_holds[OF A _ u] h by auto
  have "touches P s s'"
    using u touches_mono[of "ptpages (pmem s) new \<union> uframe (pmem s) new ` ?U" s s' P] h by (auto simp: unmapped_def holds_def)
  then have "touches P s0 s'" by (rule touches_trans[OF t])
  moreover have "leaf (pmem s') new vb = (if vb \<in> ?U then 0 else leaf (pmem s0) new vb)" if "sv39 vb" for vb
    using u l that by (simp add: unmapped_def)
  ultimately show ?thesis using s' ps' np unfolding undone_def by auto
qed

lemma page_bytes:
  assumes "\<And>x. x \<in> rng a 4096 \<Longrightarrow> m x = m' (b + (x - a))" and "k < 4096"
  shows "m (a + of_nat k) = m' (b + of_nat k)"
proof -
  have "unat (of_nat k :: uint64) = k" using assms(2) by (intro unat_of_nat_small) simp
  then have "a + of_nat k \<in> rng a 4096" using assms(2) by (simp add: rng_def)
  then show ?thesis using assms(1)[of "a + of_nat k"] by simp
qed

lemma in_page: "k < 4096 \<Longrightarrow> a + of_nat k \<in> rng a 4096"
  using unat_of_nat_small[of k, where 'a = 64] by (simp add: rng_def)

lemma take_bit_PTE_FLAGS: "take_bit 10 (PTE_FLAGS v) = PTE_FLAGS v"
proof -
  have "(0x3FF :: uint64) = mask 10" by (simp add: mask_eq_exp_minus_1)
  then have "PTE_FLAGS v = take_bit 10 v" by (simp only: PTE_FLAGS_def take_bit_eq_mask)
  then show ?thesis by simp
qed

lemma PTE_FLAGS_V: "v AND PTE_V \<noteq> 0 \<Longrightarrow> PTE_FLAGS v OR PTE_V = PTE_FLAGS v"
proof -
  assume v: "v AND PTE_V \<noteq> 0"
  have "(0x3FF :: uint64) = mask 10" by (simp add: mask_eq_exp_minus_1)
  then have F: "PTE_FLAGS v = take_bit 10 v" by (simp only: PTE_FLAGS_def take_bit_eq_mask)
  have "bit v 0" using v by (simp add: and_1_neq)
  then show ?thesis unfolding F by (intro bit_word_eqI) (auto simp only: bit_or_iff bit_take_bit_iff flag_bits)
qed

lemma copied_grow:
  assumes c: "copied s0 old new P s ps (unat i)" and i: "user_va i"
    and A3: "aspace s3 new ps3 (insert i (upages 0 (unat i)))"
    and l: "\<And>vb. sv39 vb \<Longrightarrow> vb \<noteq> i \<Longrightarrow> leaf (pmem s3) new vb = leaf (pmem s) new vb"
    and pg: "ptpages (pmem s3) new \<union> set ps3 \<union> {uframe (pmem s3) new i} = ptpages (pmem s) new \<union> set ps"
    and t: "touches (ptpages (pmem s) new \<union> set ps) s s3"
    and fl: "PTE_FLAGS (leaf (pmem s3) new i) = PTE_FLAGS (leaf (pmem s0) old i)"
    and bytes: "\<And>k. k < 4096 \<Longrightarrow> pmem s3 (uframe (pmem s3) new i + of_nat k) = pmem s0 (uframe (pmem s0) old i + of_nat k)"
  shows "copied s0 old new P s3 ps3 (unat i + 4096)"
proof -
  have A: "aspace s new ps (upages 0 (unat i))" and h: "holds s new ps (upages 0 (unat i)) = P" and t0: "touches P s0 s"
    using c by (auto simp: copied_def)
  have up: "upages 0 (unat i + 4096) = insert i (upages 0 (unat i))" using upages_snoc[of i 0] i by (simp add: user_va_def)
  have lU: "leaf (pmem s3) new vb = leaf (pmem s) new vb" if "vb \<in> upages 0 (unat i)" for vb
    using aspaceD(2)[OF A that] that by (intro l) (auto simp: upages_def)
  then have "uframe (pmem s3) new ` upages 0 (unat i) = uframe (pmem s) new ` upages 0 (unat i)" by (intro image_cong) auto
  then have h3: "holds s3 new ps3 (upages 0 (unat i + 4096)) = P"
    using pg h unfolding up holds_def by auto
  have "touches P s s3" by (rule touches_mono[OF t]) (use h in \<open>auto simp: holds_def\<close>)
  then have "touches P s0 s3" by (rule touches_trans[OF t0])
  moreover have "leaf (pmem s3) new vb = leaf (pmem s0) new vb" if "sv39 vb" "vb \<notin> upages 0 (unat i + 4096)" for vb
    using l[of vb] c that unfolding up by (auto simp: copied_def)
  moreover have "PTE_FLAGS (leaf (pmem s3) new vb) = PTE_FLAGS (leaf (pmem s0) old vb) \<and>
      (\<forall>k < 4096. pmem s3 (uframe (pmem s3) new vb + of_nat k) = pmem s0 (uframe (pmem s0) old vb + of_nat k))"
    if vb: "vb \<in> upages 0 (unat i)" for vb
  proof -
    have "pmem s3 x = pmem s x" if "x \<in> rng (uframe (pmem s) new vb) 4096" for x
    proof -
      have f: "uframe (pmem s) new vb \<notin> ptpages (pmem s) new \<union> set ps" using aspaceD(6,7)[OF A vb] by blast
      have "x \<notin> rng b 4096" if "b \<in> ptpages (pmem s) new \<union> set ps" for b
        using pages_apart[OF aligned_PTE2PA _ _ \<open>x \<in> _\<close>, of b] holds_aligned[OF A, of b] f that by (auto simp: holds_def)
      then show ?thesis using t by (simp add: touches_def)
    qed
    then show ?thesis using c vb lU[OF vb] in_page by (simp add: copied_def)
  qed
  ultimately show ?thesis using A3 h3 fl bytes unfolding copied_def up by blast
qed

lemma copy_round:
  assumes S: "source s0 old ps0 U P" and c: "copied s0 old new P s ps (unat i)" and i: "user_va i" "i \<in> U" "i < sz"
    and free: "leaf (pmem s0) new i AND PTE_V = 0"
  obtains (fail) s' where "uvmcopy_loop old new i sz s = Inr (-1, s')" "undone s0 new P (upages 0 (unat i)) s'" "length ps \<le> 3"
  | (ok) s3 ps3 where "uvmcopy_loop old new i sz s = uvmcopy_loop old new (i + PGSIZE) sz s3"
      "copied s0 old new P s3 ps3 (unat i + 4096)" "length ps \<le> length ps3 + 3"
proof -
  let ?X = "upages 0 (unat i)"
  have A: "aspace s new ps ?X" and h: "holds s new ps ?X = P" and t0: "touches P s0 s"
    and l0: "\<forall>vb. sv39 vb \<longrightarrow> vb \<notin> ?X \<longrightarrow> leaf (pmem s) new vb = leaf (pmem s0) new vb" using c by (auto simp: copied_def)
  have pool: "pool s ps" using aspaceD(1)[OF A] by (simp add: ptree_def)
  have sub: "set ps \<subseteq> P" using h by (auto simp: holds_def)
  note O = source_kept[OF S pool sub t0]
  define v where "v = leaf (pmem s0) old i"
  have v: "v AND PTE_V \<noteq> 0" "PTE_FLAGS v \<noteq> PTE_V" "usable s (PTE2PA v)"
    using aspaceD(3-5)[OF O(1) i(2)] O(2)[of i] by (simp_all add: v_def)
  obtain b where w: "b \<noteq> 0" "walk old i False s = Inr (b, s)" "load64 (pmem s) b = v"
    using leaf_slot[OF aspaceD(1)[OF O(1)] aspaceD(3)[OF O(1) i(2)] i(1)] O(2)[of i] unfolding v_def by metis
  have ni: "i \<notin> ?X" by (simp add: upages_def)
  have vi: "leaf (pmem s) new i AND PTE_V = 0" using l0 free i(1) ni by simp
  show thesis
  proof (cases ps)
    case Nil
    have "kalloc s = (0, s)" using pool Nil kmem.alloc_Nil by simp
    moreover obtain s' where "uvmunmap new 0 (i div PGSIZE) True s = Inr s'" "undone s0 new P ?X s'"
      using copy_undo[OF A h t0 l0 i(1)] by blast
    ultimately show thesis using fail[of s'] Nil w v i(3) by (simp add: uvmcopy_loop.simps[of old new i] Let_def)
  next
    case (Cons p qs)
    have A': "aspace s new (p # qs) ?X" using A Cons by simp
    obtain s1 where k: "kalloc s = (p, s1)" using kmem.alloc_Cons pool Cons by blast
    have p: "usable s p" "p \<in> P" using pool sub Cons by (auto simp: pool_def)
    have p0: "p \<noteq> 0" using p(1) by (simp add: usable_def)
    define m where "m = memmove (pmem s1) p (PTE2PA v) 4096"
    have pv: "PTE2PA v \<noteq> p" using S p(2) i(2) unfolding source_def v_def by blast
    have mv: "m x = (if x \<in> rng p 4096 then pmem s1 (PTE2PA v + (x - p)) else pmem s1 x)" for x
      unfolding m_def using p(1) v(3) by (subst memmove_apply) (auto simp: usable_def word_less_nat_alt)
    have z: "\<forall>x. x \<notin> rng p 4096 \<longrightarrow> m x = pmem s x" using mv kalloc_frame(3)[OF k] by simp
    have my: "m x = pmem s0 (PTE2PA v + (x - p))" if x: "x \<in> rng p 4096" for x
    proof -
      have "PTE2PA v + (x - p) \<in> rng (PTE2PA v) 4096" using x by (simp add: rng_def)
      moreover from this have "PTE2PA v + (x - p) \<notin> rng p 4096"
        using pages_apart[of "PTE2PA v" p] pv p(1) by (simp add: usable_def)
      ultimately show ?thesis using mv x kalloc_frame(3)[OF k] O(3)[OF i(2)] unfolding v_def by simp
    qed
    define s2 where "s2 = s1\<lparr>pmem := m\<rparr>"
    note K = aspace_kalloc[OF A' k z s2_def]
    have pages2: "ptpages (pmem s2) new \<union> set qs \<union> {p} = ptpages (pmem s) new \<union> set ps" using K(3) Cons by auto
    have t2: "touches (ptpages (pmem s) new \<union> set ps) s s2" using touches_mono[OF K(4)] Cons by simp
    have v2: "leaf (pmem s2) new i AND PTE_V = 0" using K(2) vi by simp
    have fV: "PTE_FLAGS v OR PTE_V = PTE_FLAGS v" using PTE_FLAGS_V v(1) by simp
    then have fl: "PTE_FLAGS v OR PTE_V \<noteq> PTE_V" using v(2) by simp
    show thesis
    proof (cases rule: map_page[OF K(1) i(1) ni v2 K(5,6) take_bit_PTE_FLAGS fl])
      case (1 s3)
      have f3: "usable s3 p" using 1(6) K(5) by (simp add: touches_def usable_def)
      have n3: "p \<notin> set [] \<union> ptpages (pmem s3) new \<union> uframe (pmem s3) new ` ?X" using K(6) 1(4,5) by auto
      obtain s4 where s4: "kfree p s3 = Inr s4" using kfree_ok[OF f3] by blast
      note F = aspace_kfree[OF 1(2) f3 n3 s4]
      have lf: "leaf (pmem s4) new vb = leaf (pmem s) new vb" for vb using F(2) 1(4) K(2) by simp
      have hold: "holds s4 new [p] ?X = P"
        using pages2 F(3) 1(5) lf h unfolding holds_def by auto
      have PP: "ptpages (pmem s) new \<union> set ps \<subseteq> P" using h by (auto simp: holds_def)
      have "touches P s2 s3" by (rule touches_mono[OF 1(6)]) (use pages2 PP in blast)
      moreover have "touches P s s2" using touches_mono[OF t2 PP] .
      moreover have "touches P s3 s4" using touches_mono[OF F(4)] p(2) by simp
      ultimately have t4: "touches P s0 s4" using t0 touches_trans by blast
      have l4: "\<forall>vb. sv39 vb \<longrightarrow> vb \<notin> ?X \<longrightarrow> leaf (pmem s4) new vb = leaf (pmem s0) new vb" using l0 lf by simp
      obtain s' where "uvmunmap new 0 (i div PGSIZE) True s4 = Inr s'" "undone s0 new P ?X s'"
        using copy_undo[OF F(1) hold t4 l4 i(1)] by blast
      then show thesis
        using fail[of s'] w v i(3) k p0 s4 1(1,3) Cons
        by (simp add: uvmcopy_loop.simps[of old new i] Let_def s2_def m_def)
    next
      case (2 s3 ps3)
      have al: "aligned p" using p(1) by (simp add: usable_def)
      have la: "leaf (pmem s3) new i = PA2PTE p OR PTE_FLAGS v" using 2(4)[OF user_va_sv39[OF i(1)]] fV by simp
      have fr: "uframe (pmem s3) new i = p" "PTE_FLAGS (leaf (pmem s3) new i) = PTE_FLAGS v"
        using PTE2PA_PA2PTE[OF al take_bit_PTE_FLAGS] PTE_FLAGS_PA2PTE[OF take_bit_PTE_FLAGS] unfolding la by auto
      have "x \<notin> rng b 4096" if "b \<in> ptpages (pmem s2) new \<union> set qs" "x \<in> rng p 4096" for b x
        using pages_apart[OF al, of b x] ptpages_aligned[OF aspaceD(1)[OF K(1)]] pool_aligned[OF aspaceD(1)[OF K(1)]] K(6) that
        by blast
      then have m3: "pmem s3 x = pmem s0 (PTE2PA v + (x - p))" if "x \<in> rng p 4096" for x
        using 2(6) my[OF that] that by (auto simp: touches_def s2_def)
      have "touches (ptpages (pmem s) new \<union> set ps) s2 s3" using touches_mono[OF 2(6)] pages2 by blast
      then have t3: "touches (ptpages (pmem s) new \<union> set ps) s s3" by (rule touches_trans[OF t2])
      have "copied s0 old new P s3 ps3 (unat i + 4096)"
      proof (rule copied_grow[OF c i(1) 2(2)])
        show "leaf (pmem s3) new vb = leaf (pmem s) new vb" if "sv39 vb" "vb \<noteq> i" for vb
          using 2(4)[OF that(1)] that(2) K(2) by simp
        show "ptpages (pmem s3) new \<union> set ps3 \<union> {uframe (pmem s3) new i} = ptpages (pmem s) new \<union> set ps"
          using 2(5) fr(1) pages2 by simp
        show "pmem s3 (uframe (pmem s3) new i + of_nat k) = pmem s0 (uframe (pmem s0) old i + of_nat k)" if "k < 4096" for k
          unfolding fr(1) v_def[symmetric] using m3 that by (rule page_bytes)
      qed (use t3 fr(2) v_def in auto)
      moreover have "uvmcopy_loop old new i sz s = uvmcopy_loop old new (i + PGSIZE) sz s3"
        using w v i(3) k p0 2(1) by (simp add: uvmcopy_loop.simps[of old new i] Let_def s2_def m_def)
      ultimately show thesis using ok[of s3 ps3] 2(3) Cons by simp
    qed
  qed
qed

lemma uvmcopy_loop_spec:
  assumes S: "source s0 old ps0 (upages 0 (unat sz)) P" and sz: "unat sz \<le> 2 ^ 38"
    and free: "\<forall>va \<in> upages 0 (unat sz). leaf (pmem s0) new va AND PTE_V = 0"
    and c: "copied s0 old new P s ps (unat i)" and i: "aligned i" "unat i \<le> unat sz + 4095" and n: "unat sz \<le> unat i + 4096 * n"
  shows "(\<exists>s' ps'. uvmcopy_loop old new i sz s = Inr (0, s') \<and> copied s0 old new P s' ps' (unat sz)) \<or>
    (\<exists>s' X. uvmcopy_loop old new i sz s = Inr (-1, s') \<and> undone s0 new P X s' \<and> X \<subseteq> upages 0 (unat sz) \<and> length ps \<le> 3 * n)"
  using c i n
proof (induction n arbitrary: i s ps)
  case 0
  then have "\<not> i < sz" "upages 0 (unat i) = upages 0 (unat sz)"
    using upages_ceil[of i "unat sz"] by (auto simp: word_less_nat_alt)
  then show ?case using 0(1) by (auto simp: uvmcopy_loop.simps[of old new i] copied_def)
next
  case (Suc n)
  show ?case
  proof (cases "i < sz")
    case False
    then have "upages 0 (unat i) = upages 0 (unat sz)"
      using upages_ceil[of i "unat sz"] Suc.prems(2,3) by (auto simp: word_less_nat_alt)
    then show ?thesis using False Suc.prems(1) by (auto simp: uvmcopy_loop.simps[of old new i] copied_def)
  next
    case True
    have lt: "unat i < unat sz" using True by (simp add: word_less_nat_alt)
    have ui: "user_va i" using Suc.prems(2) lt sz by (simp add: user_va_unat)
    have iU: "i \<in> upages 0 (unat sz)" using Suc.prems(2) lt by (simp add: upages_def)
    have i': "unat (i + PGSIZE) = unat i + 4096" "aligned (i + PGSIZE)"
      using unat_add_nat[of i 4096] Suc.prems(2) lt sz by (simp_all add: aligned_add)
    show ?thesis
    proof (cases rule: copy_round[OF S Suc.prems(1) ui iU True bspec[OF free iU]])
      case (1 s')
      moreover have "upages 0 (unat i) \<subseteq> upages 0 (unat sz)" using lt by (auto simp: upages_def)
      ultimately show ?thesis by fastforce
    next
      case (2 s3 ps3)
      have "copied s0 old new P s3 ps3 (unat (i + PGSIZE))" using 2(2) i' by simp
      from Suc.IH[OF this i'(2)] show ?thesis using 2(1,3) i' lt Suc.prems(4) by fastforce
    qed
  qed
qed

end
