(* ===== verification/UvmProps.thy ===== *)
theory UvmProps
  imports UvmFree
begin

text \<open>
  What the operations of \<^verbatim>\<open>kernel/vm.c\<close> on user address spaces guarantee, stated for whole
  address spaces of a process of \<open>sz\<close> bytes, and a running example that starts from the
  memory \<^verbatim>\<open>kinit\<close> leaves.
\<close>

section \<open>Growing a process\<close>

lemma user_flags: "take_bit 10 xperm = xperm \<Longrightarrow>
  take_bit 10 (PTE_R OR PTE_U OR xperm) = PTE_R OR PTE_U OR xperm \<and> PTE_R OR PTE_U OR xperm OR PTE_V \<noteq> PTE_V"
proof
  have "bit (PTE_R OR PTE_U OR xperm OR PTE_V) 1" "\<not> bit PTE_V 1" by (simp_all only: bit_or_iff flag_bits) simp_all
  then show "PTE_R OR PTE_U OR xperm OR PTE_V \<noteq> PTE_V" by metis
qed simp

lemma uvmalloc_spec:
  assumes A: "aspace s r ps (upages 0 (unat oldsz))" and le: "oldsz \<le> newsz" and new: "unat newsz \<le> 2 ^ 38"
    and free: "\<forall>va \<in> upages (unat oldsz) (unat newsz). leaf (pmem s) r va AND PTE_V = 0"
    and x: "take_bit 10 xperm = xperm"
  shows "(\<exists>s'. uvmalloc r oldsz newsz xperm s = Inr (newsz, s') \<and>
      grown s r ps (upages 0 (unat oldsz)) (upages (unat oldsz) (unat newsz)) (PTE_R OR PTE_U OR xperm OR PTE_V) s') \<or>
    (\<exists>s'. uvmalloc r oldsz newsz xperm s = Inr (0, s') \<and> length ps \<le> 3 * (unat newsz div 4096 + 1) \<and>
      rolled_back s r ps (upages 0 (unat oldsz)) {} (upages (unat oldsz) (unat newsz)) s')"
proof -
  have old: "unat oldsz \<le> 2 ^ 38" using le new by (simp add: word_le_nat_alt)
  let ?o = "PGROUNDUP oldsz"
  note up = upages_PGROUNDUP[OF old]
  have e: "uvmalloc r oldsz newsz xperm s = uvmalloc_loop r ?o ?o newsz xperm s"
    using le by (simp add: uvmalloc_def not_less[symmetric])
  have n: "unat newsz \<le> unat ?o + 4096 * (unat newsz div 4096 + 1)" by simp
  have d: "upages (unat ?o) (unat newsz) \<inter> upages 0 (unat oldsz) = {}" unfolding up(1) by (auto simp: upages_def)
  have z: "upages (unat oldsz) (unat ?o) = {}" using up(2)[of "unat oldsz"] by simp
  show ?thesis
    using uvmalloc_loop_spec[OF A aligned_PGROUNDUP aligned_PGROUNDUP order_refl new n _ d _ refl, of xperm] free user_flags[OF x]
    unfolding e up(1) by (simp add: or.assoc z)
qed

text \<open>Memory after \<^verbatim>\<open>kinit\<close>, for the examples: more than enough pages are free.\<close>

lemma boot_pool: "\<exists>s ps. kinit phys_boot = Inr s \<and> pool s ps \<and> 20 \<le> length ps"
proof -
  obtain s ps where s: "kinit phys_boot = Inr s" "pool s ps" "set ps = {p. aligned p \<and> kend phys_boot \<le> p \<and> p < PHYSTOP}"
    using kinit_ok[of phys_boot] by (auto simp: phys_boot_def)
  let ?f = "\<lambda>i. 0x81000000 + 4096 * of_nat i :: uint64"
  have u: "unat (?f i) = 0x81000000 + 4096 * i" if "i < 20" for i
    using unat_add_nat[of "0x81000000" "4096 * i"] that by simp
  have "inj_on ?f {..<20}" by (rule inj_onI) (metis u add_left_cancel lessThan_iff mult_cancel1 zero_neq_numeral)
  moreover have "?f ` {..<20} \<subseteq> set ps"
    unfolding s(3) by (auto simp: phys_boot_def aligned_unat word_le_nat_alt word_less_nat_alt u)
  ultimately have "20 \<le> card (set ps)" by (metis card_lessThan card_image card_mono finite_set)
  moreover have "distinct ps" using s(2) by (simp add: pool_def)
  ultimately have "20 \<le> length ps" by (simp only: distinct_card)
  then show ?thesis using s(1,2) by blast
qed

lemma uvmcreate_some:
  assumes "pool s ps" and "ps \<noteq> []"
  shows "\<exists>r s'. uvmcreate s = (r, s') \<and> aspace s' r (tl ps) {} \<and> only (pmem s') r {} \<and>
    holds s' r (tl ps) {} = set ps \<and> touches {r} s s'"
  using uvmcreate_spec[OF assms(1)] assms(2) by (cases "uvmcreate s") auto

lemma first_space: "\<exists>s r ps. aspace s r ps {} \<and> only (pmem s) r {} \<and> 19 \<le> length ps"
proof -
  obtain s qs where s: "pool s qs" "20 \<le> length qs" using boot_pool by blast
  then obtain r s' where "aspace s' r (tl qs) {}" "only (pmem s') r {}" using uvmcreate_some[of s qs] by fastforce
  moreover have "19 \<le> length (tl qs)" using s(2) by simp
  ultimately show ?thesis by blast
qed



section \<open>Freeing a process\<close>

text \<open>
  C10. \<^verbatim>\<open>uvmfree\<close> of an address space in which nothing but the pages below \<open>sz\<close> is
  mapped returns and puts every page it used, user pages and page-table pages, back on the free
  list; no other byte of memory changes.
\<close>

theorem uvmfree_correct:
  assumes "aspace s r ps (upages 0 (unat sz))" and "only (pmem s) r (upages 0 (unat sz))" and "unat sz \<le> 2 ^ 38"
  shows "\<exists>s' ps'. uvmfree r sz s = Inr s' \<and> pool s' ps' \<and>
    set ps' = set ps \<union> ptpages (pmem s) r \<union> uframe (pmem s) r ` upages 0 (unat sz) \<and>
    (\<forall>x. (\<forall>a \<in> ptpages (pmem s) r \<union> uframe (pmem s) r ` upages 0 (unat sz). x \<notin> rng a 4096) \<longrightarrow> pmem s' x = pmem s x)"
  using uvmfree_spec[OF assms] unfolding holds_def touches_def by blast

lemma upages_one: "upages 0 4096 = {0}"
  using upages_snoc[of 0 0] by simp

lemma grown_space:
  "\<exists>s r ps. aspace s r ps (upages 0 4096) \<and> only (pmem s) r (upages 0 4096) \<and> 16 \<le> length ps \<and>
    PTE_FLAGS (leaf (pmem s) r 0) = PTE_R OR PTE_U OR PTE_W OR PTE_V"
proof -
  obtain s r ps where s: "aspace s r ps {}" "only (pmem s) r {}" "19 \<le> length ps" using first_space by blast
  have "leaf (pmem s) r va AND PTE_V = 0" if "va \<in> upages 0 4096" for va
    using s(2) that by (auto simp: only_def upages_def sv39_def)
  then obtain s' where g: "grown s r ps {} (upages 0 4096) (PTE_R OR PTE_U OR PTE_W OR PTE_V) s'"
    using uvmalloc_spec[of s r ps 0 4096 PTE_W] s(1,3) by auto
  have "only (pmem s') r (upages 0 4096)" using g s(2) unfolding grown_def only_def by (metis empty_iff)
  moreover obtain ps' where "aspace s' r ps' (upages 0 4096)" and l: "length ps \<le> length ps' + 3"
    using g unfolding grown_def upages_one by auto
  moreover have "16 \<le> length ps'" using s(3) l by linarith
  moreover have "PTE_FLAGS (leaf (pmem s') r 0) = PTE_R OR PTE_U OR PTE_W OR PTE_V"
    using g unfolding grown_def upages_one by blast
  ultimately show ?thesis by blast
qed

theorem uvmfree_correct_witness:
  "\<exists>s r ps. aspace s r ps (upages 0 4096) \<and> only (pmem s) r (upages 0 4096) \<and>
    (\<exists>s' ps'. uvmfree r 4096 s = Inr s' \<and> pool s' ps' \<and>
      set ps' = set ps \<union> ptpages (pmem s) r \<union> uframe (pmem s) r ` upages 0 4096)"
proof -
  obtain s r ps where s: "aspace s r ps (upages 0 4096)" "only (pmem s) r (upages 0 4096)" using grown_space by blast
  have u: "unat (4096 :: uint64) = 4096" by simp
  have "\<exists>s' ps'. uvmfree r 4096 s = Inr s' \<and> pool s' ps' \<and>
      set ps' = set ps \<union> ptpages (pmem s) r \<union> uframe (pmem s) r ` upages 0 4096"
    using uvmfree_correct[of s r ps 4096, unfolded u, OF s] by auto
  then show ?thesis using s by blast
qed

section \<open>Copying a process\<close>




end
