(* ===== verification/Copy.thy ===== *)
theory Copy
  imports UvmProps
begin

text \<open>
  \<^verbatim>\<open>kernel/vm.c\<close>: \<^verbatim>\<open>copyout\<close>, \<^verbatim>\<open>copyin\<close> and \<^verbatim>\<open>copyinstr\<close>, which move bytes between kernel buffers and
  user virtual addresses. A kernel buffer is a list of bytes: what is copied out, or what has
  been stored into the destination so far.
\<close>

section \<open>Operations\<close>

lemma page_rest: "0 < unat (PGSIZE - (va - PGROUNDDOWN va))" "unat (PGSIZE - (va - PGROUNDDOWN va)) = 4096 - unat va mod 4096"
proof -
  have "va - PGROUNDDOWN va \<le> PGSIZE" by (simp add: word_le_nat_alt page_offset)
  then show "unat (PGSIZE - (va - PGROUNDDOWN va)) = 4096 - unat va mod 4096" by (simp add: unat_sub page_offset)
  then show "0 < unat (PGSIZE - (va - PGROUNDDOWN va))" by simp
qed

function copyout :: "uint64 \<Rightarrow> uint64 \<Rightarrow> uchar list \<Rightarrow> phys \<Rightarrow> (int \<times> phys) res" where
  "copyout pagetable dstva src s =
     (if src = [] then Inr (0, s)
      else
        let va0 = PGROUNDDOWN dstva in
        if va0 \<ge> MAXVA then Inr (-1, s)
        else bindE (walk pagetable va0 False s) (\<lambda>(pte, s).
          let v = load64 (pmem s) pte in
          if pte = 0 \<or> v AND PTE_V = 0 \<or> v AND PTE_U = 0 \<or> v AND PTE_W = 0 then Inr (-1, s)
          else
            let pa0 = PTE2PA v;
                n = min (unat (PGSIZE - (dstva - va0))) (length src);
                s = s\<lparr>pmem := put_bytes (pmem s) (pa0 + (dstva - va0)) (take n src)\<rparr>
            in copyout pagetable (va0 + PGSIZE) (drop n src) s))"
  by pat_completeness auto
termination
  by (relation "measure (\<lambda>(pagetable, dstva, src, s). length src)") (use page_rest(1) in auto)

declare copyout.simps [simp del]

definition get_bytes :: "mem \<Rightarrow> uint64 \<Rightarrow> nat \<Rightarrow> uchar list" where
  "get_bytes m a n = map (\<lambda>i. m (a + of_nat i)) [0..<n]"

function copyin :: "uint64 \<Rightarrow> uint64 \<Rightarrow> nat \<Rightarrow> phys \<Rightarrow> (int \<times> uchar list) res" where
  "copyin pagetable srcva len s =
     (if len = 0 then Inr (0, [])
      else
        let va0 = PGROUNDDOWN srcva in
        bindE (walkaddr pagetable va0 s) (\<lambda>pa0.
          if pa0 = 0 then Inr (-1, [])
          else
            let n = min (unat (PGSIZE - (srcva - va0))) len;
                dst = get_bytes (pmem s) (pa0 + (srcva - va0)) n
            in bindE (copyin pagetable (va0 + PGSIZE) (len - n) s) (\<lambda>(r, rest). Inr (r, dst @ rest))))"
  by pat_completeness auto
termination
  by (relation "measure (\<lambda>(pagetable, srcva, len, s). len)") (use page_rest(1) in auto)

declare copyin.simps [simp del]

text \<open>The inner loop of \<^verbatim>\<open>copyinstr\<close>: the bytes stored and \<^verbatim>\<open>got_null\<close>.\<close>

fun copyinstr_page :: "mem \<Rightarrow> uint64 \<Rightarrow> nat \<Rightarrow> uchar list \<times> bool" where
  "copyinstr_page m p 0 = ([], False)"
| "copyinstr_page m p (Suc n) =
     (if m p = 0 then ([0], True)
      else let (bs, got_null) = copyinstr_page m (p + 1) n in (m p # bs, got_null))"

function copyinstr :: "uint64 \<Rightarrow> uint64 \<Rightarrow> nat \<Rightarrow> phys \<Rightarrow> (int \<times> uchar list) res" where
  "copyinstr pagetable srcva mx s =
     (if mx = 0 then Inr (-1, [])
      else
        let va0 = PGROUNDDOWN srcva in
        bindE (walkaddr pagetable va0 s) (\<lambda>pa0.
          if pa0 = 0 then Inr (-1, [])
          else
            let n = min (unat (PGSIZE - (srcva - va0))) mx;
                (dst, got_null) = copyinstr_page (pmem s) (pa0 + (srcva - va0)) n
            in if got_null then Inr (0, dst)
               else bindE (copyinstr pagetable (va0 + PGSIZE) (mx - n) s) (\<lambda>(r, rest). Inr (r, dst @ rest))))"
  by pat_completeness auto
termination
  by (relation "measure (\<lambda>(pagetable, srcva, mx, s). mx)") (use page_rest(1) in auto)

declare copyinstr.simps [simp del]

section \<open>Pages and offsets\<close>

lemma same_page:
  assumes "unat va + i < 2 ^ 64" and "i < 4096 - unat va mod 4096"
  shows "PGROUNDDOWN (va + of_nat i) = PGROUNDDOWN va"
proof -
  have m: "4096 * (unat va div 4096) + unat va mod 4096 = unat va" by simp
  have "(unat va + i) div 4096 = unat va div 4096"
  proof (rule div_nat_eqI)
    show "4096 * (unat va div 4096) \<le> unat va + i" using m by linarith
    have "i + unat va mod 4096 < 4096" using assms(2) by simp
    then show "unat va + i < 4096 * Suc (unat va div 4096)" using m unfolding mult_Suc_right by linarith
  qed
  then show ?thesis using unat_add_nat[OF assms(1)] by (simp add: word_unat_eq_iff unat_PGROUNDDOWN)
qed

lemma next_page:
  assumes "unat va < 2 ^ 63"
  shows "PGROUNDDOWN va + PGSIZE = va + of_nat (4096 - unat va mod 4096)"
    and "unat (PGROUNDDOWN va + PGSIZE) = unat va + (4096 - unat va mod 4096)"
proof -
  have m: "unat va div 4096 * 4096 + unat va mod 4096 = unat va" by simp
  have "unat va + (4096 - unat va mod 4096) < 2 ^ 64" using assms by (simp add: less_diff_conv2)
  note u = unat_add_nat[OF this]
  have "unat (PGROUNDDOWN va + PGSIZE) = unat (PGROUNDDOWN va) + 4096"
    using unat_add_nat[of "PGROUNDDOWN va" 4096] assms by (simp add: unat_PGROUNDDOWN)
  also have "\<dots> = unat va + (4096 - unat va mod 4096)"
  proof -
    have "unat va mod 4096 < 4096" by simp
    then show ?thesis using m unfolding unat_PGROUNDDOWN by linarith
  qed
  finally show v: "unat (PGROUNDDOWN va + PGSIZE) = unat va + (4096 - unat va mod 4096)" .
  then show "PGROUNDDOWN va + PGSIZE = va + of_nat (4096 - unat va mod 4096)" using u by (simp add: word_unat_eq_iff)
qed

text \<open>The byte user code sees at a virtual address.\<close>

definition ubyte :: "phys \<Rightarrow> uint64 \<Rightarrow> uint64 \<Rightarrow> uchar" where
  "ubyte s r va = pmem s (uframe (pmem s) r (PGROUNDDOWN va) + (va - PGROUNDDOWN va))"

definition readable :: "phys \<Rightarrow> uint64 \<Rightarrow> uint64 \<Rightarrow> bool" where
  "readable s r va \<longleftrightarrow>
     (let v = leaf (pmem s) r (PGROUNDDOWN va) in v AND PTE_V \<noteq> 0 \<and> v AND PTE_U \<noteq> 0 \<and> PTE2PA v \<noteq> 0)"

definition ubytes :: "phys \<Rightarrow> uint64 \<Rightarrow> uint64 \<Rightarrow> nat \<Rightarrow> uchar list" where
  "ubytes s r va n = map (\<lambda>i. ubyte s r (va + of_nat i)) [0..<n]"

lemma length_ubytes [simp]: "length (ubytes s r va n) = n"
  by (simp add: ubytes_def)

lemma map_upt_add: "map f [0..<m + n] = map f [0..<m] @ map (\<lambda>i. f (m + i)) [0..<n]"
  by (induction n) simp_all

lemma ubytes_add: "ubytes s r va (m + n) = ubytes s r va m @ ubytes s r (va + of_nat m) n"
  unfolding ubytes_def map_upt_add by (simp add: add.assoc)

lemma get_bytes_ubytes:
  assumes "unat va + n \<le> 2 ^ 38" and "n \<le> 4096 - unat va mod 4096"
  shows "get_bytes (pmem s) (uframe (pmem s) r (PGROUNDDOWN va) + (va - PGROUNDDOWN va)) n = ubytes s r va n"
proof -
  have "PGROUNDDOWN (va + of_nat i) = PGROUNDDOWN va" if "i < n" for i
    using that assms by (intro same_page) auto
  then show ?thesis unfolding get_bytes_def ubytes_def ubyte_def by (intro map_cong) (auto simp: algebra_simps)
qed

lemma walkaddr_readable:
  assumes "ptree s r ps" and "unat va < 2 ^ 38"
  shows "walkaddr r (PGROUNDDOWN va) s = Inr (if readable s r va then uframe (pmem s) r (PGROUNDDOWN va) else 0)"
proof -
  have "PGROUNDDOWN va < MAXVA" using assms(2) PGROUNDDOWN_le[of va] by (simp add: word_less_nat_alt word_le_nat_alt)
  then show ?thesis using walkaddr_leaf[OF assms(1), of "PGROUNDDOWN va"] by (auto simp: readable_def Let_def)
qed

lemma range_split:
  assumes "n \<le> len"
  shows "(\<forall>i < len. P (va + of_nat i)) \<longleftrightarrow>
    (\<forall>i < n. P (va + of_nat i)) \<and> (\<forall>i < len - n. P ((va :: uint64) + of_nat n + of_nat i))"
proof -
  have "va + of_nat n + of_nat i = va + of_nat (n + i)" for i by (simp add: add.assoc)
  moreover have "(\<forall>i < len. Q i) \<longleftrightarrow> (\<forall>i < n. Q i) \<and> (\<forall>i < len - n. Q (n + i))" for Q
    using assms by (metis add_diff_inverse_nat add_less_cancel_left le_add_diff_inverse less_le_trans)
  ultimately show ?thesis by presburger
qed

section \<open>Reading\<close>

lemma copyin_spec:
  assumes "ptree s r ps" and "unat srcva + len \<le> 2 ^ 38"
  shows "if \<forall>i < len. readable s r (srcva + of_nat i) then copyin r srcva len s = Inr (0, ubytes s r srcva len)
    else \<exists>bs. copyin r srcva len s = Inr (-1, bs) \<and> length bs < len"
  using assms(2)
proof (induction len arbitrary: srcva rule: less_induct)
  case (less len)
  show ?case
  proof (cases "len = 0")
    case True
    then show ?thesis by (simp add: copyin.simps ubytes_def)
  next
    case False
    define n where "n = min (4096 - unat srcva mod 4096) len"
    have lt: "unat srcva < 2 ^ 38" using False less.prems by simp
    have "0 < n" "n \<le> len" using False by (simp_all add: n_def)
    have first: "readable s r (srcva + of_nat i) \<longleftrightarrow> readable s r srcva" if "i < n" for i
      using same_page[of srcva i] that less.prems by (simp add: readable_def n_def)
    note w = walkaddr_readable[OF assms(1) lt]
    show ?thesis
    proof (cases "readable s r srcva")
      case no: False
      then have "copyin r srcva len s = Inr (-1, [])" using False w by (simp add: copyin.simps[of r srcva len] Let_def)
      moreover have "\<not> (\<forall>i < len. readable s r (srcva + of_nat i))" using no False by (auto intro!: exI[of _ 0])
      ultimately show ?thesis using False by simp
    next
      case yes: True
      then have f0: "uframe (pmem s) r (PGROUNDDOWN srcva) \<noteq> 0" by (simp add: readable_def Let_def)
      have g: "get_bytes (pmem s) (uframe (pmem s) r (PGROUNDDOWN srcva) + (srcva - PGROUNDDOWN srcva)) n = ubytes s r srcva n"
        using less.prems by (intro get_bytes_ubytes) (simp_all add: n_def)
      have step: "copyin r srcva len s =
          bindE (copyin r (PGROUNDDOWN srcva + PGSIZE) (len - n) s) (\<lambda>(x, rest). Inr (x, ubytes s r srcva n @ rest))"
        using False w yes f0 g by (simp add: copyin.simps[of r srcva len] Let_def page_rest n_def)
      show ?thesis
      proof (cases "n = len")
        case True
        then show ?thesis using step first yes by (simp add: copyin.simps[of r _ 0])
      next
        case more: False
        then have n: "n = 4096 - unat srcva mod 4096" by (simp add: n_def)
        have nx: "PGROUNDDOWN srcva + PGSIZE = srcva + of_nat n" "unat (PGROUNDDOWN srcva + PGSIZE) = unat srcva + n"
          unfolding n using next_page[of srcva] lt by simp_all
        have all: "(\<forall>i < len. readable s r (srcva + of_nat i)) \<longleftrightarrow>
            (\<forall>i < len - n. readable s r (PGROUNDDOWN srcva + PGSIZE + of_nat i))"
          using range_split[OF \<open>n \<le> len\<close>, of "readable s r" srcva] first yes unfolding nx by blast
        have "len - n < len" using \<open>0 < n\<close> False by simp
        note IH = less.IH[OF this, of "PGROUNDDOWN srcva + PGSIZE"]
        have "unat (PGROUNDDOWN srcva + PGSIZE) + (len - n) \<le> 2 ^ 38" using nx(2) less.prems \<open>n \<le> len\<close> by simp
        note IH = IH[OF this]
        have "ubytes s r srcva len = ubytes s r srcva n @ ubytes s r (PGROUNDDOWN srcva + PGSIZE) (len - n)"
          using ubytes_add[of s r srcva n "len - n"] unfolding nx using \<open>n \<le> len\<close> by simp
        then show ?thesis using IH unfolding all step by (auto split: if_splits)
      qed
    qed
  qed
qed

section \<open>Writing\<close>

lemma unat_add_lt: "unat a + unat b < 2 ^ 64 \<Longrightarrow> unat (a + b :: uint64) = unat a + unat b"
  by (simp add: unat_plus_if')

lemma put_bytes_apply:
  "length bs < 2 ^ 64 \<Longrightarrow> put_bytes m a bs x = (if unat (x - a) < length bs then bs ! unat (x - a) else m x)"
proof (induction bs arbitrary: m a)
  case (Cons b bs)
  have IH: "put_bytes (m(a := b)) (a + 1) bs x =
      (if unat (x - (a + 1)) < length bs then bs ! unat (x - (a + 1)) else (m(a := b)) x)"
    using Cons.prems by (intro Cons.IH) simp
  show ?case
  proof (cases "x = a")
    case True
    then have "x - (a + 1) = - 1" by simp
    moreover have "unat (- 1 :: uint64) = 2 ^ 64 - 1" by (simp add: unsigned_minus_1_eq_mask mask_eq_exp_minus_1)
    ultimately have "unat (x - (a + 1)) = 2 ^ 64 - 1" by (simp only:)
    then show ?thesis using True IH Cons.prems by simp
  next
    case False
    then have "x - a \<noteq> 0" by simp
    then have "unat (x - a) = Suc (unat (x - a - 1))" by (metis Suc_pred' unat_gt_0 unat_minus_one)
    then have "unat (x - a) = Suc (unat (x - (a + 1)))" by (simp add: diff_diff_eq)
    then show ?thesis using False IH by simp
  qed
qed simp

lemma aspace_data:
  assumes A: "aspace s r ps U" and va: "va \<in> U" and m: "\<And>x. x \<notin> rng (uframe (pmem s) r va) 4096 \<Longrightarrow> m x = pmem s x"
    and s': "s' = s\<lparr>pmem := m\<rparr>"
  shows "aspace s' r ps U" and "leaf (pmem s') r vb = leaf (pmem s) r vb" and "ptpages (pmem s') r = ptpages (pmem s) r"
proof -
  note D = aspaceD[OF A]
  let ?f = "uframe (pmem s) r va"
  have same: "m x = pmem s x" if "a \<in> ptpages (pmem s) r \<union> set ps" "x \<in> rng a 4096" for a x
    using pages_apart[OF _ aligned_PTE2PA _ that(2), of "leaf (pmem s) r va"] D(6,7)[OF va] that(1)
      ptpages_aligned[OF D(1)] pool_aligned[OF D(1)] by (intro m) blast
  have pt: "m x = pmem s x" if "a \<in> ptpages (pmem s) r" "x \<in> rng a 4096" for a x using same that by blast
  show lf: "leaf (pmem s') r vb = leaf (pmem s) r vb" for vb unfolding s' using leaf_cong[OF pt] by simp
  show pp: "ptpages (pmem s') r = ptpages (pmem s) r" unfolding s' using ptpages_cong[OF pt] by simp
  have "ptree s' r ps"
  proof (rule ptree_cong[OF D(1)])
    show "freelist s' = freelist s" "kend s' = kend s" by (simp_all add: s')
    show "pmem s' x = pmem s x" if "a \<in> ptpages (pmem s) r" "x \<in> rng a 4096" for a x using same[of a x] that by (simp add: s')
    show "pmem s' x = pmem s x" if "a \<in> set ps" "x \<in> rng a 4096" for a x using same[of a x] that by (simp add: s')
  qed
  then show "aspace s' r ps U"
    by (rule aspace_transfer[OF A]) (use lf pp D(6,7) in \<open>auto simp: s'\<close>)
qed

definition writable :: "phys \<Rightarrow> uint64 \<Rightarrow> uint64 \<Rightarrow> bool" where
  "writable s r va \<longleftrightarrow>
     (let v = leaf (pmem s) r (PGROUNDDOWN va) in v AND PTE_V \<noteq> 0 \<and> v AND PTE_U \<noteq> 0 \<and> v AND PTE_W \<noteq> 0)"

text \<open>One round of \<^verbatim>\<open>copyout\<close>: the bytes \<open>bs\<close> stored at \<open>va\<close>, within its page.\<close>

lemma put_page:
  assumes A: "aspace s r ps U" and va: "PGROUNDDOWN va \<in> U" and n: "length bs \<le> 4096 - unat va mod 4096"
    and s': "s' = s\<lparr>pmem := put_bytes (pmem s) (uframe (pmem s) r (PGROUNDDOWN va) + (va - PGROUNDDOWN va)) bs\<rparr>"
  shows "aspace s' r ps U" and "leaf (pmem s') r vb = leaf (pmem s) r vb"
    and "PGROUNDDOWN vb \<in> U \<Longrightarrow> ubyte s' r vb =
      (if unat va \<le> unat vb \<and> unat vb < unat va + length bs then bs ! (unat vb - unat va) else ubyte s r vb)"
    and "touches {uframe (pmem s) r (PGROUNDDOWN va)} s s'"
proof -
  let ?f = "uframe (pmem s) r" and ?o = "\<lambda>a. a - PGROUNDDOWN a :: uint64"
  have off: "unat (?o a) = unat a mod 4096" "unat (?o a) < 4096" for a by (simp_all add: page_offset)
  have put: "pmem s' x = (if unat (x - (?f (PGROUNDDOWN va) + ?o va)) < length bs
      then bs ! unat (x - (?f (PGROUNDDOWN va) + ?o va)) else pmem s x)" for x
    using put_bytes_apply[of bs] n by (simp add: s')
  have in_f: "?f p + ?o a \<in> rng (?f p) 4096" for p a using off(2)[of a] by (simp add: rng_def)
  have out: "pmem s' x = pmem s x" if "x \<notin> rng (?f (PGROUNDDOWN va)) 4096" for x
  proof -
    have "\<not> unat (x - (?f (PGROUNDDOWN va) + ?o va)) < length bs"
    proof
      assume l: "unat (x - (?f (PGROUNDDOWN va) + ?o va)) < length bs"
      let ?d = "x - (?f (PGROUNDDOWN va) + ?o va)"
      have e: "x - ?f (PGROUNDDOWN va) = ?o va + ?d" by simp
      have lt: "unat (?o va) + unat ?d < 4096" using l n off[of va] by linarith
      then have "unat (?o va + ?d) = unat (?o va) + unat ?d" by (intro unat_add_lt) (erule less_trans, simp)
      then have "unat (x - ?f (PGROUNDDOWN va)) < 4096" using lt unfolding e by linarith
      then show False using that by (simp add: rng_def)
    qed
    then show ?thesis using put by simp
  qed
  note D = aspace_data[OF A va, of "pmem s'" s']
  have s'': "s' = s\<lparr>pmem := pmem s'\<rparr>" by (simp add: s')
  show "aspace s' r ps U" and lf: "leaf (pmem s') r vb = leaf (pmem s) r vb" for vb using D(1,2) out s'' by blast+
  show "touches {?f (PGROUNDDOWN va)} s s'" using out by (simp add: touches_def s')
  assume vb: "PGROUNDDOWN vb \<in> U"
  show "ubyte s' r vb = (if unat va \<le> unat vb \<and> unat vb < unat va + length bs then bs ! (unat vb - unat va) else ubyte s r vb)"
  proof (cases "PGROUNDDOWN vb = PGROUNDDOWN va")
    case False
    then have "?f (PGROUNDDOWN vb) \<noteq> ?f (PGROUNDDOWN va)" using aspaceD(8)[OF A vb va] by blast
    then have "?f (PGROUNDDOWN vb) + ?o vb \<notin> rng (?f (PGROUNDDOWN va)) 4096"
      using pages_apart[OF aligned_PTE2PA aligned_PTE2PA _ in_f] by blast
    moreover have "\<not> (unat va \<le> unat vb \<and> unat vb < unat va + length bs)"
    proof
      assume c: "unat va \<le> unat vb \<and> unat vb < unat va + length bs"
      have "PGROUNDDOWN (va + of_nat (unat vb - unat va)) = PGROUNDDOWN va"
        using c n unat_lt64[of vb] by (intro same_page) auto
      moreover have "va + of_nat (unat vb - unat va) = vb" using c by (simp add: of_nat_diff)
      ultimately show False using False by simp
    qed
    ultimately show ?thesis using out lf by (auto simp: ubyte_def)
  next
    case True
    have d: "?f (PGROUNDDOWN va) + ?o vb - (?f (PGROUNDDOWN va) + ?o va) = vb - va" using True by simp
    have "unat (PGROUNDDOWN vb) = unat (PGROUNDDOWN va)" using True by simp
    then have "unat vb div 4096 = unat va div 4096" by (simp add: unat_PGROUNDDOWN)
    then have near: "unat va < unat vb + 4096"
      using div_mult_mod_eq[of "unat va" 4096] div_mult_mod_eq[of "unat vb" 4096] mod_less_divisor[of 4096 "unat va"] by linarith
    have "unat (vb - va) < length bs \<longleftrightarrow> unat va \<le> unat vb \<and> unat vb < unat va + length bs"
    proof (cases "unat va \<le> unat vb")
      case True
      then show ?thesis by (auto simp: unat_sub_if')
    next
      case False
      then show ?thesis using n near unat_lt64[of va] by (simp add: unat_sub_if')
    qed
    moreover have "unat (vb - va) = unat vb - unat va" if "unat va \<le> unat vb" using that by (simp add: unat_sub_if')
    ultimately show ?thesis using put[of "?f (PGROUNDDOWN va) + ?o vb"] lf True d by (simp add: ubyte_def)
  qed
qed

text \<open>The pages user code may write are the process's own: the trap pages are not user pages.\<close>

definition owns_writable :: "phys \<Rightarrow> uint64 \<Rightarrow> uint64 set \<Rightarrow> bool" where
  "owns_writable s r U \<longleftrightarrow>
     (\<forall>va. user_va va \<longrightarrow> leaf (pmem s) r va AND PTE_V \<noteq> 0 \<longrightarrow> leaf (pmem s) r va AND PTE_U \<noteq> 0 \<longrightarrow> va \<in> U)"

definition stored :: "uint64 \<Rightarrow> uint64 set \<Rightarrow> uint64 \<Rightarrow> uchar list \<Rightarrow> phys \<Rightarrow> phys \<Rightarrow> bool" where
  "stored r U dstva src s s' \<longleftrightarrow>
     (\<forall>vb. PGROUNDDOWN vb \<in> U \<longrightarrow> ubyte s' r vb =
        (if unat dstva \<le> unat vb \<and> unat vb < unat dstva + length src then src ! (unat vb - unat dstva) else ubyte s r vb))"

lemma stored_append:
  assumes "stored r U dstva (take n src) s s1" and "stored r U dstva' (drop n src) s1 s'"
    and "unat dstva' = unat dstva + n" and "n \<le> length src"
  shows "stored r U dstva src s s'"
  unfolding stored_def
proof (intro allI impI)
  fix vb assume vb: "PGROUNDDOWN vb \<in> U"
  let ?in = "\<lambda>d xs. unat d \<le> unat vb \<and> unat vb < unat d + length xs"
  have 1: "ubyte s1 r vb = (if ?in dstva (take n src) then take n src ! (unat vb - unat dstva) else ubyte s r vb)"
    and 2: "ubyte s' r vb = (if ?in dstva' (drop n src) then drop n src ! (unat vb - unat dstva') else ubyte s1 r vb)"
    using assms(1,2) vb by (simp_all add: stored_def)
  show "ubyte s' r vb = (if ?in dstva src then src ! (unat vb - unat dstva) else ubyte s r vb)"
    using 1 2 assms(3,4) by (auto simp: nth_append)
qed

lemma writable_leaf: "(\<forall>va. leaf (pmem m') r va = leaf (pmem m) r va) \<Longrightarrow> writable m' r va = writable m r va"
  by (simp add: writable_def)

lemma owns_leaf: "(\<forall>va. leaf (pmem m') r va = leaf (pmem m) r va) \<Longrightarrow> owns_writable m' r U = owns_writable m r U"
  by (simp add: owns_writable_def)

lemma stored_Nil: "stored r U va [] m m"
  by (auto simp: stored_def)

lemma copyout_spec:
  assumes "aspace s r ps U" and "owns_writable s r U" and "unat dstva + length src \<le> 2 ^ 38"
  shows "\<exists>s' res. copyout r dstva src s = Inr (res, s') \<and> aspace s' r ps U \<and> (\<forall>va. leaf (pmem s') r va = leaf (pmem s) r va) \<and>
    touches (uframe (pmem s) r ` U) s s' \<and>
    (if \<forall>i < length src. writable s r (dstva + of_nat i) then res = 0 \<and> stored r U dstva src s s' else res = -1)"
  using assms
proof (induction "length src" arbitrary: src dstva s rule: less_induct)
  case less
  note A = less.prems(1) and D = aspaceD[OF less.prems(1)]
  show ?case
  proof (cases "src = []")
    case True
    then show ?thesis using A by (auto simp: copyout.simps stored_def)
  next
    case ne: False
    let ?p = "PGROUNDDOWN dstva"
    define n where "n = min (4096 - unat dstva mod 4096) (length src)"
    have n0: "0 < n" "n \<le> length src" using ne by (simp_all add: n_def)
    have lt: "unat dstva < 2 ^ 38" using less.prems(3) ne by (cases src) auto
    have up: "user_va ?p" using lt PGROUNDDOWN_le[of dstva] by (simp add: user_va_unat word_le_nat_alt)
    then have mx: "\<not> MAXVA \<le> ?p" by (simp add: user_va_def not_le)
    have first: "writable s r (dstva + of_nat i) \<longleftrightarrow> writable s r dstva" if "i < n" for i
      using same_page[of dstva i] that less.prems(3) by (simp add: writable_def n_def)
    show ?thesis
    proof (cases "writable s r dstva")
      case False
      have "copyout r dstva src s = Inr (-1, s)"
      proof (cases "ptp (pmem s) r (vpath 2 ?p)")
        case None
        then show ?thesis using ne mx by (simp add: copyout.simps[of r dstva] walk_def walk_noalloc Let_def)
      next
        case (Some b)
        then have "load64 (pmem s) (b + 8 * of_nat (PX 0 ?p)) = leaf (pmem s) r ?p" by (simp add: leaf_def slotv_def)
        then show ?thesis using Some False ne mx
          by (auto simp: copyout.simps[of r dstva] walk_def walk_noalloc Let_def writable_def)
      qed
      moreover have "\<not> (\<forall>i < length src. writable s r (dstva + of_nat i))"
        using False ne by (auto intro!: exI[of _ 0])
      ultimately show ?thesis using A by (intro exI[of _ s] exI[of _ "-1"]) simp
    next
      case True
      then have v: "leaf (pmem s) r ?p AND PTE_V \<noteq> 0" "leaf (pmem s) r ?p AND PTE_U \<noteq> 0" "leaf (pmem s) r ?p AND PTE_W \<noteq> 0"
        by (simp_all add: writable_def Let_def)
      have pU: "?p \<in> U" using less.prems(2) up v by (simp add: owns_writable_def)
      obtain b where w: "b \<noteq> 0" "walk r ?p False s = Inr (b, s)" "load64 (pmem s) b = leaf (pmem s) r ?p"
        using leaf_slot[OF D(1) v(1) up] by metis
      define s1 where "s1 = s\<lparr>pmem := put_bytes (pmem s) (uframe (pmem s) r ?p + (dstva - ?p)) (take n src)\<rparr>"
      have "length (take n src) \<le> 4096 - unat dstva mod 4096" by (simp add: n_def)
      note P = put_page[OF A pU this s1_def]
      have step: "copyout r dstva src s = copyout r (?p + PGSIZE) (drop n src) s1"
        using w v ne mx by (simp add: copyout.simps[of r dstva] Let_def page_rest n_def s1_def)
      have st1: "stored r U dstva (take n src) s s1" using P(3) by (simp add: stored_def)
      show ?thesis
      proof (cases "n = length src")
        case True
        have "touches (uframe (pmem s) r ` U) s s1" using touches_mono[OF P(4)] pU by simp
        then show ?thesis
          using step P(1,2) st1 True first \<open>writable s r dstva\<close>
          by (intro exI[of _ s1] exI[of _ 0]) (simp add: copyout.simps[of r _ "[]"])
      next
        case False
        then have n: "n = 4096 - unat dstva mod 4096" by (simp add: n_def)
        have nx: "?p + PGSIZE = dstva + of_nat n" "unat (?p + PGSIZE) = unat dstva + n"
          unfolding n using next_page[of dstva] lt by simp_all
        have all: "(\<forall>i < length src. writable s r (dstva + of_nat i)) \<longleftrightarrow>
            (\<forall>i < length (drop n src). writable s1 r (?p + PGSIZE + of_nat i))"
          using range_split[OF n0(2), of "writable s r" dstva] first True P(2) unfolding nx by (simp add: writable_def)
        have "\<exists>s' res. copyout r (?p + PGSIZE) (drop n src) s1 = Inr (res, s') \<and> aspace s' r ps U \<and>
            (\<forall>va. leaf (pmem s') r va = leaf (pmem s1) r va) \<and> touches (uframe (pmem s1) r ` U) s1 s' \<and>
            (if \<forall>i < length (drop n src). writable s1 r (?p + PGSIZE + of_nat i)
             then res = 0 \<and> stored r U (?p + PGSIZE) (drop n src) s1 s' else res = -1)"
        proof (rule less.hyps)
          show "length (drop n src) < length src" using n0 ne by simp
          show "owns_writable s1 r U" using less.prems(2) P(2) by (simp add: owns_writable_def)
          show "unat (?p + PGSIZE) + length (drop n src) \<le> 2 ^ 38" using nx(2) less.prems(3) n0(2) by simp
        qed (rule P(1))
        then obtain s' res where IH: "copyout r (?p + PGSIZE) (drop n src) s1 = Inr (res, s')" "aspace s' r ps U"
            "\<forall>va. leaf (pmem s') r va = leaf (pmem s1) r va" "touches (uframe (pmem s1) r ` U) s1 s'"
            "if \<forall>i < length src. writable s r (dstva + of_nat i)
             then res = 0 \<and> stored r U (?p + PGSIZE) (drop n src) s1 s' else res = -1"
          unfolding all by blast
        have "touches (uframe (pmem s) r ` U) s s1" using touches_mono[OF P(4)] pU by simp
        moreover have "touches (uframe (pmem s) r ` U) s1 s'" using IH(4) P(2) by simp
        ultimately have "touches (uframe (pmem s) r ` U) s s'" by (rule touches_trans)
        then show ?thesis
          using IH P(2) step stored_append[OF st1 _ nx(2) n0(2)] by (intro exI[of _ s'] exI[of _ res]) auto
      qed
    qed
  qed
qed

section \<open>Strings\<close>

lemma get_bytes_Suc: "get_bytes m p (Suc n) = m p # get_bytes m (p + 1) n"
proof -
  have "[0..<Suc n] = 0 # map Suc [0..<n]" by (metis map_Suc_upt upt_conv_Cons zero_less_Suc)
  then show ?thesis unfolding get_bytes_def by (simp add: add.assoc del: upt_Suc)
qed

lemma copyinstr_page_first:
  "(\<forall>i < j. m (p + of_nat i) \<noteq> 0) \<Longrightarrow> m (p + of_nat j) = 0 \<Longrightarrow> j < n \<Longrightarrow>
   copyinstr_page m p n = (get_bytes m p (Suc j), True)"
proof (induction n arbitrary: p j)
  case (Suc n)
  show ?case
  proof (cases j)
    case 0
    then show ?thesis using Suc.prems by (simp add: get_bytes_def)
  next
    case (Suc k)
    have "copyinstr_page m (p + 1) n = (get_bytes m (p + 1) (Suc k), True)"
    proof (rule Suc.IH)
      show "\<forall>i < k. m (p + 1 + of_nat i) \<noteq> 0"
      proof (intro allI impI)
        fix i assume "i < k"
        then show "m (p + 1 + of_nat i) \<noteq> 0" using Suc.prems(1)[rule_format, of "Suc i"] Suc by (simp add: add.assoc)
      qed
      show "m (p + 1 + of_nat k) = 0" using Suc.prems(2) Suc by (simp add: add.assoc)
      show "k < n" using Suc.prems(3) Suc by simp
    qed
    moreover have "m p \<noteq> 0" using Suc.prems(1)[rule_format, of 0] Suc by simp
    moreover have "get_bytes m p (Suc (Suc k)) = m p # get_bytes m (p + 1) (Suc k)" by (rule get_bytes_Suc)
    ultimately show ?thesis using Suc by simp
  qed
qed simp

lemma copyinstr_page_none:
  "(\<forall>i < n. m (p + of_nat i) \<noteq> 0) \<Longrightarrow> copyinstr_page m p n = (get_bytes m p n, False)"
proof (induction n arbitrary: p)
  case (Suc n)
  have "\<forall>i < n. m (p + 1 + of_nat i) \<noteq> 0"
  proof (intro allI impI)
    fix i assume "i < n"
    then show "m (p + 1 + of_nat i) \<noteq> 0" using Suc.prems[rule_format, of "Suc i"] by (simp add: add.assoc)
  qed
  then have "copyinstr_page m (p + 1) n = (get_bytes m (p + 1) n, False)" by (rule Suc.IH)
  moreover have "m p \<noteq> 0" using Suc.prems[rule_format, of 0] by simp
  moreover have "get_bytes m p (Suc n) = m p # get_bytes m (p + 1) n" by (rule get_bytes_Suc)
  ultimately show ?case by simp
qed (simp add: get_bytes_def)

lemma copyinstr_page_safe:
  "copyinstr_page m p n = (bs, g) \<Longrightarrow>
   length bs \<le> n \<and> (if g then bs \<noteq> [] \<and> last bs = 0 \<and> 0 \<notin> set (butlast bs) else length bs = n \<and> 0 \<notin> set bs)"
  by (induction n arbitrary: p bs) (auto split: prod.splits if_splits)

lemma walkaddr_returns: "\<exists>pa. walkaddr r va s = Inr pa"
  by (auto simp: walkaddr_def walk_def Let_def split: prod.splits)

lemma copyinstr_returns: "\<exists>res bs. copyinstr r va mx s = Inr (res, bs)"
proof (induction mx arbitrary: va rule: less_induct)
  case (less mx)
  let ?p = "PGROUNDDOWN va"
  define n where "n = min (unat (PGSIZE - (va - ?p))) mx"
  obtain pa where pa: "walkaddr r ?p s = Inr pa" using walkaddr_returns by blast
  obtain dst g where c: "copyinstr_page (pmem s) (pa + (va - ?p)) n = (dst, g)" by fastforce
  have "\<exists>res bs. copyinstr r (?p + PGSIZE) (mx - n) s = Inr (res, bs)" if "mx \<noteq> 0"
    using less.IH[of "mx - n"] that page_rest(1)[of va] by (simp add: n_def)
  then show ?case using pa c by (auto simp: copyinstr.simps[of r va] Let_def n_def[symmetric])
qed

lemma copyinstr_safe:
  "copyinstr r va mx s = Inr (res, bs) \<Longrightarrow>
   length bs \<le> mx \<and> (if res = 0 then bs \<noteq> [] \<and> last bs = 0 \<and> 0 \<notin> set (butlast bs) else res = -1)"
proof (induction mx arbitrary: va res bs rule: less_induct)
  case (less mx)
  show ?case
  proof (cases "mx = 0")
    case True
    then show ?thesis using less.prems by (simp add: copyinstr.simps[of r va])
  next
    case False
    let ?p = "PGROUNDDOWN va"
    define n where "n = min (unat (PGSIZE - (va - ?p))) mx"
    have n: "0 < n" "n \<le> mx" using False page_rest(1)[of va] by (simp_all add: n_def)
    obtain pa where pa: "walkaddr r ?p s = Inr pa" using less.prems False by (auto simp: copyinstr.simps[of r va] Let_def)
    show ?thesis
    proof (cases "pa = 0")
      case True
      then show ?thesis using less.prems False pa by (simp add: copyinstr.simps[of r va] Let_def)
    next
      case ne: False
      obtain dst g where c: "copyinstr_page (pmem s) (pa + (va - ?p)) n = (dst, g)" by fastforce
      note sf = copyinstr_page_safe[OF c]
      show ?thesis
      proof (cases g)
        case True
        then show ?thesis using less.prems False pa ne c sf n by (auto simp: copyinstr.simps[of r va] Let_def n_def[symmetric])
      next
        case ng: False
        then obtain rest where rest: "copyinstr r (?p + PGSIZE) (mx - n) s = Inr (res, rest)" "bs = dst @ rest"
          using less.prems False pa ne c by (auto simp: copyinstr.simps[of r va] Let_def n_def[symmetric])
        have "mx - n < mx" using n False by simp
        from less.IH[OF this rest(1)] show ?thesis using rest(2) sf ng n by (auto simp: butlast_append)
      qed
    qed
  qed
qed

lemma page_ubyte:
  assumes "unat va + n \<le> 2 ^ 38" and "n \<le> 4096 - unat va mod 4096" and "i < n"
  shows "pmem s (uframe (pmem s) r (PGROUNDDOWN va) + (va - PGROUNDDOWN va) + of_nat i) = ubyte s r (va + of_nat i)"
  using same_page[of va i] assms by (simp add: ubyte_def algebra_simps)

lemma copyinstr_found:
  assumes "ptree s r ps" and "unat va + mx \<le> 2 ^ 38" and "j < mx" and "\<forall>i \<le> j. readable s r (va + of_nat i)"
    and "\<forall>i < j. ubyte s r (va + of_nat i) \<noteq> 0" and "ubyte s r (va + of_nat j) = 0"
  shows "copyinstr r va mx s = Inr (0, ubytes s r va (Suc j))"
  using assms(2-)
proof (induction mx arbitrary: va j rule: less_induct)
  case (less mx)
  let ?p = "PGROUNDDOWN va"
  define n where "n = min (4096 - unat va mod 4096) mx"
  have n: "0 < n" "n \<le> mx" "n \<le> 4096 - unat va mod 4096" using less.prems(2) by (simp_all add: n_def)
  have lt: "unat va < 2 ^ 38" using less.prems(1,2) by simp
  have rd: "readable s r va" using less.prems(3)[rule_format, of 0] by simp
  then have f0: "uframe (pmem s) r ?p \<noteq> 0" by (simp add: readable_def Let_def)
  have w: "walkaddr r ?p s = Inr (uframe (pmem s) r ?p)" using walkaddr_readable[OF assms(1) lt] rd by simp
  have vn: "unat va + n \<le> 2 ^ 38" using less.prems(1) n(2) by simp
  note byte = page_ubyte[OF vn n(3)]
  let ?a = "uframe (pmem s) r ?p + (va - ?p)"
  have step: "copyinstr r va mx s = (case copyinstr_page (pmem s) ?a n of (dst, got_null) \<Rightarrow>
      if got_null then Inr (0, dst)
      else bindE (copyinstr r (?p + PGSIZE) (mx - n) s) (\<lambda>(x, rest). Inr (x, dst @ rest)))"
    using w f0 less.prems(2) by (simp add: copyinstr.simps[of r va] Let_def page_rest n_def[symmetric])
  show ?case
  proof (cases "j < n")
    case True
    have "copyinstr_page (pmem s) ?a n = (get_bytes (pmem s) ?a (Suc j), True)"
      using byte less.prems(4,5) True by (intro copyinstr_page_first) auto
    moreover have "get_bytes (pmem s) ?a (Suc j) = ubytes s r va (Suc j)"
      using True n vn by (intro get_bytes_ubytes) auto
    ultimately show ?thesis using step by simp
  next
    case False
    then have n': "n = 4096 - unat va mod 4096" using less.prems(2) by (simp add: n_def)
    have nx: "?p + PGSIZE = va + of_nat n" "unat (?p + PGSIZE) = unat va + n"
      unfolding n' using next_page[of va] lt by simp_all
    have sh: "va + of_nat n + of_nat i = va + of_nat (n + i)" for i by (simp add: add.assoc)
    have "copyinstr_page (pmem s) ?a n = (get_bytes (pmem s) ?a n, False)"
      using byte less.prems(4) False by (intro copyinstr_page_none) auto
    moreover have "get_bytes (pmem s) ?a n = ubytes s r va n" using n vn by (intro get_bytes_ubytes) auto
    moreover have "copyinstr r (?p + PGSIZE) (mx - n) s = Inr (0, ubytes s r (?p + PGSIZE) (Suc (j - n)))"
    proof (rule less.IH)
      show "unat (?p + PGSIZE) + (mx - n) \<le> 2 ^ 38" using nx(2) less.prems(1) n(2) by simp
      show "\<forall>i \<le> j - n. readable s r (?p + PGSIZE + of_nat i)" unfolding nx(1) sh using less.prems(3) False by (auto simp del: of_nat_add)
      show "\<forall>i < j - n. ubyte s r (?p + PGSIZE + of_nat i) \<noteq> 0" unfolding nx(1) sh using less.prems(4) by (auto simp del: of_nat_add)
      show "ubyte s r (?p + PGSIZE + of_nat (j - n)) = 0" unfolding nx(1) sh using less.prems(5) False by (simp del: of_nat_add)
    qed (use n less.prems(2) False in auto)
    moreover have "ubytes s r va (Suc j) = ubytes s r va n @ ubytes s r (va + of_nat n) (Suc (j - n))"
      using ubytes_add[of s r va n "Suc (j - n)"] False by simp
    ultimately show ?thesis using step unfolding nx(1) by simp
  qed
qed

section \<open>Properties\<close>

lemma writable_readable:
  assumes "aspace s r ps U" and "owns_writable s r U" and "writable s r va" and "unat va < 2 ^ 38"
  shows "readable s r va" and "PGROUNDDOWN va \<in> U"
proof -
  have u: "user_va (PGROUNDDOWN va)" using assms(4) PGROUNDDOWN_le[of va] by (simp add: user_va_unat word_le_nat_alt)
  show U: "PGROUNDDOWN va \<in> U" using assms(2,3) u by (simp add: owns_writable_def writable_def Let_def)
  show "readable s r va" using assms(3) aspaceD(5)[OF assms(1) U] by (simp add: writable_def readable_def Let_def usable_def)
qed

text \<open>
  C13. \<^verbatim>\<open>copyout\<close> to addresses that are all mapped for user writing succeeds, and
  \<^verbatim>\<open>copyin\<close> then reads the same bytes back; every other byte of the process is as it was,
  and so are the mapping and all memory outside the process's pages.
\<close>

theorem copyout_copyin:
  assumes "aspace s r ps U" and "owns_writable s r U" and "unat va + length src \<le> 2 ^ 38"
    and "\<forall>i < length src. writable s r (va + of_nat i)"
  shows "\<exists>s'. copyout r va src s = Inr (0, s') \<and> copyin r va (length src) s' = Inr (0, src) \<and> aspace s' r ps U \<and>
    (\<forall>vb. leaf (pmem s') r vb = leaf (pmem s) r vb) \<and> touches (uframe (pmem s) r ` U) s s' \<and>
    (\<forall>vb. PGROUNDDOWN vb \<in> U \<longrightarrow> \<not> (unat va \<le> unat vb \<and> unat vb < unat va + length src) \<longrightarrow> ubyte s' r vb = ubyte s r vb)"
proof -
  obtain s' where s': "copyout r va src s = Inr (0, s')" "aspace s' r ps U" "\<forall>va. leaf (pmem s') r va = leaf (pmem s) r va"
      "touches (uframe (pmem s) r ` U) s s'" and st: "stored r U va src s s'"
    using copyout_spec[OF assms(1-3)] assms(4) by auto
  have lt: "unat (va + of_nat i) = unat va + i" if "i < length src" for i
    using that assms(3) by (intro unat_add_nat) simp
  have rU: "readable s r (va + of_nat i) \<and> PGROUNDDOWN (va + of_nat i) \<in> U" if i: "i < length src" for i
  proof -
    have "unat (va + of_nat i) < 2 ^ 38" using lt[OF i] i assms(3) by simp
    then show ?thesis using writable_readable[OF assms(1,2)] assms(4) i by simp
  qed
  then have "\<forall>i < length src. readable s' r (va + of_nat i)" using s'(3) by (simp add: readable_def)
  then have "copyin r va (length src) s' = Inr (0, ubytes s' r va (length src))"
    using copyin_spec[OF aspaceD(1)[OF s'(2)] assms(3)] by simp
  moreover have "ubytes s' r va (length src) = src"
  proof (rule nth_equalityI)
    fix i assume "i < length (ubytes s' r va (length src))"
    then have i: "i < length src" by simp
    then show "ubytes s' r va (length src) ! i = src ! i"
      using st rU[OF i] lt[OF i] by (simp add: ubytes_def stored_def)
  qed simp
  ultimately show ?thesis using s' st by (auto simp: stored_def)
qed

lemma flags_and: "take_bit 10 f = f \<Longrightarrow> v AND f = PTE_FLAGS v AND f"
proof -
  assume f: "take_bit 10 f = f"
  have "(0x3FF :: uint64) = mask 10" by (simp add: mask_eq_exp_minus_1)
  then have "f = f AND 0x3FF" using f by (simp only: take_bit_eq_mask)
  then show ?thesis unfolding PTE_FLAGS_def by (metis and.assoc and.commute)
qed

lemma example_space:
  "\<exists>s r ps. aspace s r ps (upages 0 4096) \<and> owns_writable s r (upages 0 4096) \<and> (\<forall>i < 4096. writable s r (of_nat i))"
proof -
  obtain s r ps where s: "aspace s r ps (upages 0 4096)" "only (pmem s) r (upages 0 4096)"
    "PTE_FLAGS (leaf (pmem s) r 0) = PTE_R OR PTE_U OR PTE_W OR PTE_V" using grown_space by blast
  have "writable s r (of_nat i)" if "i < 4096" for i
    using same_page[of 0 i] that s(3) flags_and[of PTE_V "leaf (pmem s) r 0"] flags_and[of PTE_U "leaf (pmem s) r 0"]
      flags_and[of PTE_W "leaf (pmem s) r 0"] by (simp add: writable_def)
  moreover have "owns_writable s r (upages 0 4096)" using s(2) by (simp add: owns_writable_def only_def)
  ultimately show ?thesis using s(1) by blast
qed

theorem copyout_copyin_witness:
  "\<exists>s r s'. copyout r 100 [1, 2, 3] s = Inr (0, s') \<and> copyin r 100 3 s' = Inr (0, [1, 2, 3])"
proof -
  obtain s r ps where s: "aspace s r ps (upages 0 4096)" "owns_writable s r (upages 0 4096)"
    "\<forall>i < 4096. writable s r (of_nat i)" using example_space by blast
  have "writable s r (100 + of_nat i)" if "i < 3" for i using s(3)[rule_format, of "100 + i"] that by simp
  then have "\<exists>s'. copyout r 100 [1, 2, 3] s = Inr (0, s') \<and> copyin r 100 3 s' = Inr (0, [1, 2, 3])"
    using copyout_copyin[OF s(1,2), of 100 "[1, 2, 3]"] by (simp add: numeral_3_eq_3) blast
  then show ?thesis by blast
qed



text \<open>
  C31. \<^verbatim>\<open>copyinstr\<close> of a string whose terminating NUL comes before \<open>max\<close> bytes, in mapped
  pages, returns 0 with the string and its NUL.
\<close>

theorem copyinstr_correct:
  assumes "ptree s r ps" and "unat va + mx \<le> 2 ^ 38" and "j < mx" and "\<forall>i \<le> j. readable s r (va + of_nat i)"
    and "\<forall>i < j. ubyte s r (va + of_nat i) \<noteq> 0" and "ubyte s r (va + of_nat j) = 0"
  shows "copyinstr r va mx s = Inr (0, ubytes s r va (Suc j))"
  using assms by (rule copyinstr_found)

theorem copyinstr_correct_witness: "\<exists>s r. copyinstr r 100 16 s = Inr (0, [104, 105, 0])"
proof -
  obtain s r ps where s: "aspace s r ps (upages 0 4096)" "owns_writable s r (upages 0 4096)"
    "\<forall>i < 4096. writable s r (of_nat i)" using example_space by blast
  have w: "writable s r (100 + of_nat i)" if "i < 3" for i using s(3)[rule_format, of "100 + i"] that by simp
  obtain s' where s': "copyout r 100 [104, 105, 0] s = Inr (0, s')" "aspace s' r ps (upages 0 4096)"
    "\<forall>va. leaf (pmem s') r va = leaf (pmem s) r va" and st: "stored r (upages 0 4096) 100 [104, 105, 0] s s'"
    using copyout_spec[OF s(1,2), of 100 "[104, 105, 0]"] w by (auto split: if_splits)
  have rd: "readable s r (100 + of_nat i) \<and> PGROUNDDOWN (100 + of_nat i) \<in> upages 0 4096" if "i < 3" for i
    using writable_readable[OF s(1,2) w[OF that]] unat_add_nat[of 100 i] that by simp
  have b: "ubyte s' r (100 + of_nat i) = [104, 105, 0] ! i" if "i < 3" for i
    using st rd[OF that] unat_add_nat[of 100 i] that by (simp add: stored_def)
  have "\<forall>i \<le> 2. readable s' r (100 + of_nat i)" using rd s'(3) by (simp add: readable_def)
  moreover have "\<forall>i < 2. ubyte s' r (100 + of_nat i) \<noteq> 0" using b[of 0] b[of 1] by (auto simp: less_2_cases_iff)
  moreover have "ubyte s' r (100 + of_nat 2) = 0" using b[of 2] by simp
  ultimately have "copyinstr r 100 16 s' = Inr (0, ubytes s' r 100 (Suc 2))"
    using copyinstr_correct[OF aspaceD(1)[OF s'(2)], of 100 16 2] by simp
  moreover have "ubytes s' r 100 (Suc 2) = [104, 105, 0]" using b[of 0] b[of 1] b[of 2] by (simp add: ubytes_def numeral_eq_Suc)
  ultimately show ?thesis by auto
qed

text \<open>
  \<^verbatim>\<open>copyinstr\<close> never stores more than \<open>max\<close> bytes into the kernel buffer, and when it
  returns 0 what it stored is one NUL-terminated string.
\<close>

theorem copyinstr_bounds:
  "\<exists>res bs. copyinstr r va mx s = Inr (res, bs) \<and> length bs \<le> mx \<and>
     (if res = 0 then bs \<noteq> [] \<and> last bs = 0 \<and> 0 \<notin> set (butlast bs) else res = -1)"
  using copyinstr_returns[of r va mx s] copyinstr_safe by blast

end
