(* ===== verification/Fs.thy ===== *)
theory Fs
  imports Log Copy Strings
begin

text \<open>
  \<^verbatim>\<open>kernel/fs.c\<close>: block allocation, inodes, directories and path names, over the log. The state adds
  to that of the log the superblock, the table of in-memory inodes and what the routines use of
  the current process: its memory, its page table and its current directory. A pointer to an
  inode is its index in the table. A kernel buffer that \<^verbatim>\<open>readi\<close> fills is the list of the
  bytes stored so far, one that \<^verbatim>\<open>writei\<close> reads is the list of the bytes left. Output on the
  console is left out.
\<close>

section \<open>State\<close>

abbreviation NINODE :: nat where "NINODE \<equiv> 50"
abbreviation ROOTINO :: uint where "ROOTINO \<equiv> 1"
abbreviation NDIRECT :: nat where "NDIRECT \<equiv> 12"
abbreviation NINDIRECT :: nat where "NINDIRECT \<equiv> 256"
abbreviation BPB :: nat where "BPB \<equiv> 8192"
abbreviation DIRSIZ :: nat where "DIRSIZ \<equiv> 14"
abbreviation T_DIR :: ushort where "T_DIR \<equiv> 1"
abbreviation T_FILE :: ushort where "T_FILE \<equiv> 2"
abbreviation T_DEVICE :: ushort where "T_DEVICE \<equiv> 3"

record inode =
  i_dev :: uint
  i_inum :: uint
  i_ref :: int
  i_lock :: "nat option"
  i_valid :: bool
  i_type :: ushort
  i_major :: ushort
  i_minor :: ushort
  i_nlink :: ushort
  i_size :: uint
  i_addrs :: "uint list"

record fs = log +
  sb :: superblock
  itable :: "nat \<Rightarrow> inode"
  umem :: phys
  upagetable :: uint64
  cwd :: nat

definition set_inode :: "nat \<Rightarrow> (inode \<Rightarrow> inode) \<Rightarrow> 'a fs_scheme \<Rightarrow> 'a fs_scheme" where
  "set_inode ip f s = s\<lparr>itable := (itable s)(ip := f (itable s ip))\<rparr>"

section \<open>Blocks\<close>

definition decode_sb :: "block \<Rightarrow> superblock" where
  "decode_sb v = \<lparr>magic = get32 v 0, fssize = get32 v 4, nblocks = get32 v 8, ninodes = get32 v 12,
     nlog = get32 v 16, logstart = get32 v 20, inodestart = get32 v 24, bmapstart = get32 v 28\<rparr>"

definition readsb :: "uint \<Rightarrow> 'a fs_scheme \<Rightarrow> 'a fs_scheme res" where
  "readsb d s = bindE (bread d 1 s) (\<lambda>(bp, s). brelse bp (s\<lparr>sb := decode_sb (data (bufs s bp))\<rparr>))"

definition fsinit :: "uint \<Rightarrow> 'a fs_scheme \<Rightarrow> 'a fs_scheme res" where
  "fsinit d s =
     bindE (readsb d s) (\<lambda>s.
       if magic (sb s) \<noteq> 0x10203040 then Inl (Panic ''invalid file system'')
       else initlog d (sb s) s)"

definition bzero :: "uint \<Rightarrow> uint \<Rightarrow> 'a fs_scheme \<Rightarrow> 'a fs_scheme res" where
  "bzero d bno s =
     bindE (bread d bno s) (\<lambda>(bp, s).
     bindE (log_write bp (set_data bp (\<lambda>i. if i < BSIZE then 0 else data (bufs s bp) i) s)) (brelse bp))"

definition BBLOCK :: "uint \<Rightarrow> superblock \<Rightarrow> uint" where
  "BBLOCK b sbk = b div 8192 + bmapstart sbk"

definition bit_free :: "block \<Rightarrow> nat \<Rightarrow> bool" where
  "bit_free v bi \<longleftrightarrow> v (bi div 8) AND push_bit (bi mod 8) 1 = 0"

definition mark_bit :: "nat \<Rightarrow> block \<Rightarrow> block" where
  "mark_bit bi v = v(bi div 8 := v (bi div 8) OR push_bit (bi mod 8) 1)"

definition clear_bit :: "nat \<Rightarrow> block \<Rightarrow> block" where
  "clear_bit bi v = v(bi div 8 := v (bi div 8) AND NOT (push_bit (bi mod 8) 1))"

text \<open>The loops of \<^verbatim>\<open>balloc\<close>: over the first blocks \<open>b\<close> of the bitmap blocks, and over the bits of one.\<close>

fun balloc_loop :: "uint \<Rightarrow> nat list \<Rightarrow> 'a fs_scheme \<Rightarrow> (uint \<times> 'a fs_scheme) res" where
  "balloc_loop d [] s = Inr (0, s)"
| "balloc_loop d (b # bs) s =
     bindE (bread d (BBLOCK (of_nat b) (sb s)) s) (\<lambda>(bp, s).
       case find (bit_free (data (bufs s bp))) [0..<min BPB (unat (fssize (sb s)) - b)] of
         Some bi \<Rightarrow>
           bindE (log_write bp (set_data bp (mark_bit bi (data (bufs s bp))) s)) (\<lambda>s.
           bindE (brelse bp s) (\<lambda>s.
           bindE (bzero d (of_nat (b + bi)) s) (\<lambda>s. Inr (of_nat (b + bi), s))))
       | None \<Rightarrow> bindE (brelse bp s) (balloc_loop d bs))"

definition balloc :: "uint \<Rightarrow> 'a fs_scheme \<Rightarrow> (uint \<times> 'a fs_scheme) res" where
  "balloc d s = balloc_loop d (map (\<lambda>i. BPB * i) [0..<(unat (fssize (sb s)) + (BPB - 1)) div BPB]) s"

definition bfree :: "uint \<Rightarrow> uint \<Rightarrow> 'a fs_scheme \<Rightarrow> 'a fs_scheme res" where
  "bfree d b s =
     bindE (bread d (BBLOCK b (sb s)) s) (\<lambda>(bp, s).
       let bi = unat b mod BPB in
       if bit_free (data (bufs s bp)) bi then Inl (Panic ''freeing free block'')
       else bindE (log_write bp (set_data bp (clear_bit bi (data (bufs s bp))) s)) (brelse bp))"

section \<open>Inodes\<close>

definition iinit :: "'a fs_scheme \<Rightarrow> 'a fs_scheme" where
  "iinit s = fold (\<lambda>i. set_inode i (\<lambda>x. x\<lparr>i_lock := None\<rparr>)) [0..<NINODE] s"

definition IBLOCK :: "uint \<Rightarrow> superblock \<Rightarrow> uint" where
  "IBLOCK i sbk = i div 16 + inodestart sbk"

text \<open>The offset of an inode in its block, and its fields there.\<close>

definition dino :: "uint \<Rightarrow> nat" where
  "dino i = 64 * (unat i mod 16)"

definition dinode_type :: "block \<Rightarrow> uint \<Rightarrow> ushort" where
  "dinode_type v i = get16 v (dino i)"

definition put_dinode :: "uint \<Rightarrow> inode \<Rightarrow> block \<Rightarrow> block" where
  "put_dinode i x v =
     (let a = dino i;
          v = put16 v a (i_type x);
          v = put16 v (a + 2) (i_major x);
          v = put16 v (a + 4) (i_minor x);
          v = put16 v (a + 6) (i_nlink x);
          v = put32 v (a + 8) (i_size x)
      in fold (\<lambda>k v. put32 v (a + 12 + 4 * k) (i_addrs x ! k)) [0..<NDIRECT + 1] v)"

definition get_dinode :: "uint \<Rightarrow> block \<Rightarrow> inode \<Rightarrow> inode" where
  "get_dinode i v x =
     (let a = dino i in
      x\<lparr>i_type := get16 v a, i_major := get16 v (a + 2), i_minor := get16 v (a + 4), i_nlink := get16 v (a + 6),
        i_size := get32 v (a + 8), i_addrs := map (\<lambda>k. get32 v (a + 12 + 4 * k)) [0..<NDIRECT + 1]\<rparr>)"

definition zero_dinode :: "uint \<Rightarrow> block \<Rightarrow> block" where
  "zero_dinode i v = (\<lambda>k. if dino i \<le> k \<and> k < dino i + 64 then 0 else v k)"

definition iget :: "uint \<Rightarrow> uint \<Rightarrow> 'a fs_scheme \<Rightarrow> (nat \<times> 'a fs_scheme) res" where
  "iget d inum s =
     (case find (\<lambda>ip. i_ref (itable s ip) > 0 \<and> i_dev (itable s ip) = d \<and> i_inum (itable s ip) = inum) [0..<NINODE] of
        Some ip \<Rightarrow> Inr (ip, set_inode ip (\<lambda>x. x\<lparr>i_ref := i_ref x + 1\<rparr>) s)
      | None \<Rightarrow>
          (case find (\<lambda>ip. i_ref (itable s ip) = 0) [0..<NINODE] of
             None \<Rightarrow> Inl (Panic ''iget: no inodes'')
           | Some ip \<Rightarrow> Inr (ip, set_inode ip (\<lambda>x. x\<lparr>i_dev := d, i_inum := inum, i_ref := 1, i_valid := False\<rparr>) s)))"

fun ialloc_loop :: "uint \<Rightarrow> ushort \<Rightarrow> uint list \<Rightarrow> 'a fs_scheme \<Rightarrow> (nat option \<times> 'a fs_scheme) res" where
  "ialloc_loop d type [] s = Inr (None, s)"
| "ialloc_loop d type (inum # is) s =
     bindE (bread d (IBLOCK inum (sb s)) s) (\<lambda>(bp, s).
       if dinode_type (data (bufs s bp)) inum = 0 then
         let v = put16 (zero_dinode inum (data (bufs s bp))) (dino inum) type in
         bindE (log_write bp (set_data bp v s)) (\<lambda>s.
         bindE (brelse bp s) (\<lambda>s.
         bindE (iget d inum s) (\<lambda>(ip, s). Inr (Some ip, s))))
       else bindE (brelse bp s) (ialloc_loop d type is))"

definition ialloc :: "uint \<Rightarrow> ushort \<Rightarrow> 'a fs_scheme \<Rightarrow> (nat option \<times> 'a fs_scheme) res" where
  "ialloc d type s = ialloc_loop d type (map of_nat [1..<unat (ninodes (sb s))]) s"

definition iupdate :: "nat \<Rightarrow> 'a fs_scheme \<Rightarrow> 'a fs_scheme res" where
  "iupdate ip s =
     (let x = itable s ip in
      bindE (bread (i_dev x) (IBLOCK (i_inum x) (sb s)) s) (\<lambda>(bp, s).
      bindE (log_write bp (set_data bp (put_dinode (i_inum x) x (data (bufs s bp))) s)) (brelse bp)))"

definition idup :: "nat \<Rightarrow> 'a fs_scheme \<Rightarrow> 'a fs_scheme" where
  "idup ip s = set_inode ip (\<lambda>x. x\<lparr>i_ref := i_ref x + 1\<rparr>) s"

definition acquire_inode :: "nat \<Rightarrow> 'a fs_scheme \<Rightarrow> 'a fs_scheme res" where
  "acquire_inode ip s =
     (if i_lock (itable s ip) \<noteq> None then Inl Sleeping else Inr (set_inode ip (\<lambda>x. x\<lparr>i_lock := Some (pid s)\<rparr>) s))"

definition release_inode :: "nat \<Rightarrow> 'a fs_scheme \<Rightarrow> 'a fs_scheme" where
  "release_inode ip s = set_inode ip (\<lambda>x. x\<lparr>i_lock := None\<rparr>) s"

definition ilock :: "nat \<Rightarrow> 'a fs_scheme \<Rightarrow> 'a fs_scheme res" where
  "ilock ip s =
     (if i_ref (itable s ip) < 1 then Inl (Panic ''ilock'')
      else bindE (acquire_inode ip s) (\<lambda>s.
        if \<not> i_valid (itable s ip) then
          bindE (bread (i_dev (itable s ip)) (IBLOCK (i_inum (itable s ip)) (sb s)) s) (\<lambda>(bp, s).
          let s = set_inode ip (get_dinode (i_inum (itable s ip)) (data (bufs s bp))) s in
          bindE (brelse bp s) (\<lambda>s.
          let s = set_inode ip (\<lambda>x. x\<lparr>i_valid := True\<rparr>) s in
          if i_type (itable s ip) = 0 then Inl (Panic ''ilock: no type'') else Inr s))
        else Inr s))"

definition iunlock :: "nat \<Rightarrow> 'a fs_scheme \<Rightarrow> 'a fs_scheme res" where
  "iunlock ip s =
     (if i_lock (itable s ip) \<noteq> Some (pid s) \<or> i_ref (itable s ip) < 1 then Inl (Panic ''iunlock'')
      else Inr (release_inode ip s))"

section \<open>Inode contents\<close>

definition set_addr :: "nat \<Rightarrow> nat \<Rightarrow> uint \<Rightarrow> 'a fs_scheme \<Rightarrow> 'a fs_scheme" where
  "set_addr ip k a s = set_inode ip (\<lambda>x. x\<lparr>i_addrs := (i_addrs x)[k := a]\<rparr>) s"

text \<open>The element \<^verbatim>\<open>ip->addrs[k]\<close>, allocated when it is zero; 0 when there is no free block.\<close>

definition bmap_slot :: "nat \<Rightarrow> nat \<Rightarrow> 'a fs_scheme \<Rightarrow> (uint \<times> 'a fs_scheme) res" where
  "bmap_slot ip k s =
     (let addr = i_addrs (itable s ip) ! k in
      if addr = 0 then
        bindE (balloc (i_dev (itable s ip)) s) (\<lambda>(addr, s).
          if addr = 0 then Inr (0, s) else Inr (addr, set_addr ip k addr s))
      else Inr (addr, s))"

definition bmap :: "nat \<Rightarrow> uint \<Rightarrow> 'a fs_scheme \<Rightarrow> (uint \<times> 'a fs_scheme) res" where
  "bmap ip bn s =
     (if unat bn < NDIRECT then bmap_slot ip (unat bn) s
      else
        let bn = bn - of_nat NDIRECT in
        if unat bn < NINDIRECT then
          bindE (bmap_slot ip NDIRECT s) (\<lambda>(addr, s).
            if addr = 0 then Inr (0, s)
            else bindE (bread (i_dev (itable s ip)) addr s) (\<lambda>(bp, s).
              let addr = get32 (data (bufs s bp)) (4 * unat bn) in
              if addr = 0 then
                bindE (balloc (i_dev (itable s ip)) s) (\<lambda>(addr, s).
                bindE (if addr \<noteq> 0
                       then log_write bp (set_data bp (put32 (data (bufs s bp)) (4 * unat bn) addr) s)
                       else Inr s) (\<lambda>s.
                bindE (brelse bp s) (\<lambda>s. Inr (addr, s))))
              else bindE (brelse bp s) (\<lambda>s. Inr (addr, s))))
        else Inl (Panic ''bmap: out of range''))"

definition itrunc :: "nat \<Rightarrow> 'a fs_scheme \<Rightarrow> 'a fs_scheme res" where
  "itrunc ip s =
     bindE (foldE (\<lambda>i s.
              if i_addrs (itable s ip) ! i \<noteq> 0
              then bindE (bfree (i_dev (itable s ip)) (i_addrs (itable s ip) ! i) s) (\<lambda>s. Inr (set_addr ip i 0 s))
              else Inr s) [0..<NDIRECT] s) (\<lambda>s.
     bindE (if i_addrs (itable s ip) ! NDIRECT \<noteq> 0 then
              bindE (bread (i_dev (itable s ip)) (i_addrs (itable s ip) ! NDIRECT) s) (\<lambda>(bp, s).
              bindE (foldE (\<lambda>j s.
                       if get32 (data (bufs s bp)) (4 * j) \<noteq> 0
                       then bfree (i_dev (itable s ip)) (get32 (data (bufs s bp)) (4 * j)) s
                       else Inr s) [0..<NINDIRECT] s) (\<lambda>s.
              bindE (brelse bp s) (\<lambda>s.
              bindE (bfree (i_dev (itable s ip)) (i_addrs (itable s ip) ! NDIRECT) s) (\<lambda>s.
              Inr (set_addr ip NDIRECT 0 s)))))
            else Inr s) (\<lambda>s.
     iupdate ip (set_inode ip (\<lambda>x. x\<lparr>i_size := 0\<rparr>) s)))"

definition iput :: "nat \<Rightarrow> 'a fs_scheme \<Rightarrow> 'a fs_scheme res" where
  "iput ip s =
     bindE (if i_ref (itable s ip) = 1 \<and> i_valid (itable s ip) \<and> i_nlink (itable s ip) = 0 then
              bindE (acquire_inode ip s) (\<lambda>s.
              bindE (itrunc ip s) (\<lambda>s.
              bindE (iupdate ip (set_inode ip (\<lambda>x. x\<lparr>i_type := 0\<rparr>) s)) (\<lambda>s.
              Inr (release_inode ip (set_inode ip (\<lambda>x. x\<lparr>i_valid := False\<rparr>) s)))))
            else Inr s) (\<lambda>s.
     Inr (set_inode ip (\<lambda>x. x\<lparr>i_ref := i_ref x - 1\<rparr>) s))"

definition iunlockput :: "nat \<Rightarrow> 'a fs_scheme \<Rightarrow> 'a fs_scheme res" where
  "iunlockput ip s = bindE (iunlock ip s) (iput ip)"

record stat =
  st_dev :: uint
  st_ino :: uint
  st_type :: ushort
  st_nlink :: ushort
  st_size :: uint64

definition stati :: "nat \<Rightarrow> 'a fs_scheme \<Rightarrow> stat" where
  "stati ip s = (let x = itable s ip in
     \<lparr>st_dev = i_dev x, st_ino = i_inum x, st_type = i_type x, st_nlink = i_nlink x, st_size = ucast (i_size x)\<rparr>)"

text \<open>
  The end of a copy that is not in the buffer cache, moving forward as bytes are copied: a user
  address, or a kernel buffer. Both routines are in \<^verbatim>\<open>kernel/proc.c\<close>.
\<close>

datatype end_addr = User uint64 | Kern "uchar list"

fun either_copyout :: "end_addr \<Rightarrow> uchar list \<Rightarrow> 'a fs_scheme \<Rightarrow> (int \<times> end_addr \<times> 'a fs_scheme) res" where
  "either_copyout (User dst) src s =
     bindE (copyout (upagetable s) dst src (umem s)) (\<lambda>(r, m). Inr (r, User (dst + of_nat (length src)), s\<lparr>umem := m\<rparr>))"
| "either_copyout (Kern dst) src s = Inr (0, Kern (dst @ src), s)"

fun either_copyin :: "end_addr \<Rightarrow> nat \<Rightarrow> 'a fs_scheme \<Rightarrow> (int \<times> uchar list \<times> end_addr) res" where
  "either_copyin (User src) len s =
     bindE (copyin (upagetable s) src len (umem s)) (\<lambda>(r, bs). Inr (r, bs, User (src + of_nat len)))"
| "either_copyin (Kern src) len s = Inr (0, take len src, Kern (drop len src))"

definition block_bytes :: "block \<Rightarrow> nat \<Rightarrow> nat \<Rightarrow> uchar list" where
  "block_bytes v a n = map v [a..<a + n]"

definition put_block :: "block \<Rightarrow> nat \<Rightarrow> uchar list \<Rightarrow> block" where
  "put_block v a bs = (\<lambda>i. if a \<le> i \<and> i < a + length bs then bs ! (i - a) else v i)"

function readi_loop :: "nat \<Rightarrow> end_addr \<Rightarrow> uint \<Rightarrow> nat \<Rightarrow> int \<Rightarrow> 'a fs_scheme \<Rightarrow> (int \<times> end_addr \<times> 'a fs_scheme) res" where
  "readi_loop ip dst off left tot s =
     (if left = 0 then Inr (tot, dst, s)
      else bindE (bmap ip (off div 1024) s) (\<lambda>(addr, s).
        if addr = 0 then Inr (tot, dst, s)
        else bindE (bread (i_dev (itable s ip)) addr s) (\<lambda>(bp, s).
          let m = min left (BSIZE - unat off mod BSIZE) in
          bindE (either_copyout dst (block_bytes (data (bufs s bp)) (unat off mod BSIZE) m) s) (\<lambda>(r, dst, s).
            if r = -1 then bindE (brelse bp s) (\<lambda>s. Inr (-1, dst, s))
            else bindE (brelse bp s) (\<lambda>s. readi_loop ip dst (off + of_nat m) (left - m) (tot + int m) s)))))"
  by pat_completeness auto
termination
  by (relation "measure (\<lambda>(ip, dst, off, left, tot, s). left)") auto

declare readi_loop.simps [simp del]

definition readi :: "nat \<Rightarrow> end_addr \<Rightarrow> uint \<Rightarrow> uint \<Rightarrow> 'a fs_scheme \<Rightarrow> (int \<times> end_addr \<times> 'a fs_scheme) res" where
  "readi ip dst off n s =
     (let sz = i_size (itable s ip) in
      if off > sz \<or> off + n < off then Inr (0, dst, s)
      else readi_loop ip dst off (unat (if off + n > sz then sz - off else n)) 0 s)"

text \<open>\<^verbatim>\<open>either_copyin\<close> stores straight into the buffer, also the bytes before the one where it fails.\<close>

function writei_loop :: "nat \<Rightarrow> end_addr \<Rightarrow> uint \<Rightarrow> nat \<Rightarrow> int \<Rightarrow> 'a fs_scheme \<Rightarrow> (int \<times> uint \<times> 'a fs_scheme) res" where
  "writei_loop ip src off left tot s =
     (if left = 0 then Inr (tot, off, s)
      else bindE (bmap ip (off div 1024) s) (\<lambda>(addr, s).
        if addr = 0 then Inr (tot, off, s)
        else bindE (bread (i_dev (itable s ip)) addr s) (\<lambda>(bp, s).
          let m = min left (BSIZE - unat off mod BSIZE) in
          bindE (either_copyin src m s) (\<lambda>(r, bs, src).
            let s = set_data bp (put_block (data (bufs s bp)) (unat off mod BSIZE) bs) s in
            if r = -1 then bindE (brelse bp s) (\<lambda>s. Inr (tot, off, s))
            else bindE (log_write bp s) (\<lambda>s.
              bindE (brelse bp s) (\<lambda>s. writei_loop ip src (off + of_nat m) (left - m) (tot + int m) s))))))"
  by pat_completeness auto
termination
  by (relation "measure (\<lambda>(ip, src, off, left, tot, s). left)") auto

declare writei_loop.simps [simp del]

abbreviation MAXFILE :: nat where "MAXFILE \<equiv> NDIRECT + NINDIRECT"

definition writei :: "nat \<Rightarrow> end_addr \<Rightarrow> uint \<Rightarrow> uint \<Rightarrow> 'a fs_scheme \<Rightarrow> (int \<times> 'a fs_scheme) res" where
  "writei ip src off n s =
     (if off > i_size (itable s ip) \<or> off + n < off then Inr (-1, s)
      else if unat (off + n) > MAXFILE * BSIZE then Inr (-1, s)
      else bindE (writei_loop ip src off (unat n) 0 s) (\<lambda>(tot, off, s).
        let s = (if off > i_size (itable s ip) then set_inode ip (\<lambda>x. x\<lparr>i_size := off\<rparr>) s else s) in
        bindE (iupdate ip s) (\<lambda>s. Inr (tot, s))))"

section \<open>Directories\<close>

text \<open>A string or structure that is only read, as the bytes from its address on.\<close>

definition cstr_of :: "uchar list \<Rightarrow> cstr" where
  "cstr_of xs = (\<lambda>i. if i < length xs then xs ! i else 0)"

definition namecmp :: "cstr \<Rightarrow> cstr \<Rightarrow> int" where
  "namecmp p q = strncmp p q DIRSIZ"

definition de_inum :: "uchar list \<Rightarrow> ushort" where
  "de_inum de = get16 (cstr_of de) 0"

definition de_name :: "uchar list \<Rightarrow> cstr" where
  "de_name de = (\<lambda>i. cstr_of de (i + 2))"

definition put_dirent :: "ushort \<Rightarrow> cstr \<Rightarrow> uchar list" where
  "put_dirent inum name = [ucast inum, ucast (drop_bit 8 inum)] @ strncpy name DIRSIZ"

text \<open>The offsets of the entries of a directory of a given size.\<close>

definition dir_offs :: "uint \<Rightarrow> uint list" where
  "dir_offs sz = map (\<lambda>i. of_nat (16 * i)) [0..<(unat sz + 15) div 16]"

fun dirlookup_loop :: "nat \<Rightarrow> cstr \<Rightarrow> uint list \<Rightarrow> 'a fs_scheme \<Rightarrow> ((nat \<times> uint) option \<times> 'a fs_scheme) res" where
  "dirlookup_loop dp name [] s = Inr (None, s)"
| "dirlookup_loop dp name (off # offs) s =
     bindE (readi dp (Kern []) off 16 s) (\<lambda>(r, de, s).
       case de of
         User _ \<Rightarrow> Inl Undefined
       | Kern de \<Rightarrow>
           if r \<noteq> 16 then Inl (Panic ''dirlookup read'')
           else if de_inum de = 0 then dirlookup_loop dp name offs s
           else if namecmp name (de_name de) = 0
           then bindE (iget (i_dev (itable s dp)) (ucast (de_inum de)) s) (\<lambda>(ip, s). Inr (Some (ip, off), s))
           else dirlookup_loop dp name offs s)"

definition dirlookup :: "nat \<Rightarrow> cstr \<Rightarrow> 'a fs_scheme \<Rightarrow> ((nat \<times> uint) option \<times> 'a fs_scheme) res" where
  "dirlookup dp name s =
     (if i_type (itable s dp) \<noteq> T_DIR then Inl (Panic ''dirlookup not DIR'')
      else dirlookup_loop dp name (dir_offs (i_size (itable s dp))) s)"

text \<open>The offset of the first empty entry, else the size rounded up to entries.\<close>

fun dirlink_loop :: "nat \<Rightarrow> uint list \<Rightarrow> 'a fs_scheme \<Rightarrow> (uint \<times> 'a fs_scheme) res" where
  "dirlink_loop dp [] s = Inr (of_nat (16 * ((unat (i_size (itable s dp)) + 15) div 16)), s)"
| "dirlink_loop dp (off # offs) s =
     bindE (readi dp (Kern []) off 16 s) (\<lambda>(r, de, s).
       case de of
         User _ \<Rightarrow> Inl Undefined
       | Kern de \<Rightarrow>
           if r \<noteq> 16 then Inl (Panic ''dirlink read'')
           else if de_inum de = 0 then Inr (off, s)
           else dirlink_loop dp offs s)"

definition dirlink :: "nat \<Rightarrow> cstr \<Rightarrow> uint \<Rightarrow> 'a fs_scheme \<Rightarrow> (int \<times> 'a fs_scheme) res" where
  "dirlink dp name inum s =
     bindE (dirlookup dp name s) (\<lambda>(found, s).
       case found of
         Some (ip, _) \<Rightarrow> bindE (iput ip s) (\<lambda>s. Inr (-1, s))
       | None \<Rightarrow>
           bindE (dirlink_loop dp (dir_offs (i_size (itable s dp))) s) (\<lambda>(off, s).
           bindE (writei dp (Kern (put_dirent (ucast inum) name)) off 16 s) (\<lambda>(r, s).
           Inr (if r \<noteq> 16 then -1 else 0, s))))"

section \<open>Path names\<close>

abbreviation slash :: uchar where "slash \<equiv> 47"

text \<open>
  A path is the list of its bytes before the NUL. \<^verbatim>\<open>skipelem\<close> returns the rest of the path and
  the bytes it stores into \<^verbatim>\<open>name\<close>.
\<close>

definition skipelem :: "uchar list \<Rightarrow> (uchar list \<times> uchar list) option" where
  "skipelem path =
     (let path = dropWhile (\<lambda>c. c = slash) path in
      if path = [] then None
      else
        let s = takeWhile (\<lambda>c. c \<noteq> slash) path;
            path = dropWhile (\<lambda>c. c \<noteq> slash) path;
            name = (if length s \<ge> DIRSIZ then take DIRSIZ s else s @ [0])
        in Some (dropWhile (\<lambda>c. c = slash) path, name))"

lemma skipelem_shorter: "skipelem path = Some (rest, name) \<Longrightarrow> length rest < length path"
proof -
  assume a: "skipelem path = Some (rest, name)"
  let ?p = "dropWhile (\<lambda>c. c = slash) path"
  have ne: "?p \<noteq> []" and r: "rest = dropWhile (\<lambda>c. c = slash) (dropWhile (\<lambda>c. c \<noteq> slash) ?p)"
    using a by (auto simp: skipelem_def Let_def split: if_splits)
  have "hd ?p \<noteq> slash" using ne hd_dropWhile by blast
  then have "length (dropWhile (\<lambda>c. c \<noteq> slash) ?p) < length ?p"
    using ne by (cases ?p) (auto simp: less_Suc_eq_le length_dropWhile_le)
  moreover have "length rest \<le> length (dropWhile (\<lambda>c. c \<noteq> slash) ?p)" unfolding r by (rule length_dropWhile_le)
  moreover have "length ?p \<le> length path" by (rule length_dropWhile_le)
  ultimately show ?thesis by linarith
qed

function namex_loop :: "nat \<Rightarrow> uchar list \<Rightarrow> bool \<Rightarrow> uchar list \<Rightarrow> 'a fs_scheme \<Rightarrow>
    ((nat \<times> uchar list) option \<times> 'a fs_scheme) res" where
  "namex_loop ip path nameiparent name s =
     (case skipelem path of
        None \<Rightarrow> if nameiparent then bindE (iput ip s) (\<lambda>s. Inr (None, s)) else Inr (Some (ip, name), s)
      | Some (path', name) \<Rightarrow>
          bindE (ilock ip s) (\<lambda>s.
            if i_type (itable s ip) \<noteq> T_DIR then bindE (iunlockput ip s) (\<lambda>s. Inr (None, s))
            else if nameiparent \<and> path' = [] then bindE (iunlock ip s) (\<lambda>s. Inr (Some (ip, name), s))
            else bindE (dirlookup ip (cstr_of name) s) (\<lambda>(next, s).
              case next of
                None \<Rightarrow> bindE (iunlockput ip s) (\<lambda>s. Inr (None, s))
              | Some (n, _) \<Rightarrow> bindE (iunlockput ip s) (\<lambda>s. namex_loop n path' nameiparent name s))))"
  by pat_completeness auto
termination
  by (relation "measure (\<lambda>(ip, path, np, name, s). length path)") (auto dest: skipelem_shorter)

declare namex_loop.simps [simp del]

definition namex :: "uchar list \<Rightarrow> bool \<Rightarrow> 'a fs_scheme \<Rightarrow> ((nat \<times> uchar list) option \<times> 'a fs_scheme) res" where
  "namex path nameiparent s =
     bindE (if path \<noteq> [] \<and> hd path = slash then iget ROOTDEV ROOTINO s else Inr (cwd s, idup (cwd s) s)) (\<lambda>(ip, s).
       namex_loop ip path nameiparent [] s)"

definition namei :: "uchar list \<Rightarrow> 'a fs_scheme \<Rightarrow> (nat option \<times> 'a fs_scheme) res" where
  "namei path s = bindE (namex path False s) (\<lambda>(r, s). Inr (map_option fst r, s))"

definition nameiparent :: "uchar list \<Rightarrow> 'a fs_scheme \<Rightarrow> ((nat \<times> uchar list) option \<times> 'a fs_scheme) res" where
  "nameiparent path s = namex path True s"

end
