(* ===== verification/Ring.thy ===== *)
theory Ring
  imports Prelude
begin

text \<open>
  Ring buffers with free-running counters, as used by pipes, the console and the UART: the reader is at \<open>r\<close>, the writer at \<open>w\<close>, both
  count bytes modulo the size of their type, and byte \<open>i\<close> is at position \<open>i mod N\<close> of the buffer.
\<close>

text \<open>The bytes between two counters, oldest first.\<close>

definition window :: "nat \<Rightarrow> (nat \<Rightarrow> 'b) \<Rightarrow> 'a::len word \<Rightarrow> 'a word \<Rightarrow> 'b list" where
  "window N buf r w = map (\<lambda>k. buf (unat (r + of_nat k) mod N)) [0..<unat (w - r)]"

lemma length_window [simp]: "length (window N buf r w) = unat (w - r)"
  by (simp add: window_def)

lemma window_empty: "window N buf r w = [] \<longleftrightarrow> r = w"
  by (auto simp: window_def unat_eq_0)

lemma unat_minus_Suc: "x \<noteq> (0 :: 'a::len word) \<Longrightarrow> unat x = Suc (unat (x - 1))"
  using unat_minus_one[of x] by (simp add: unat_gt_0)

text \<open>The size of the buffer divides the range of the counters, so positions survive their wrap-around.\<close>

locale ring =
  fixes N :: nat and width :: "'a::len itself"
  assumes N_dvd: "N dvd 2 ^ LENGTH('a)" and N_less: "N < 2 ^ LENGTH('a)"
begin

lemma position: "unat (a + of_nat k :: 'a word) mod N = (unat a + k) mod N"
proof -
  have "unat (a + of_nat k) = (unat a + k) mod 2 ^ LENGTH('a)"
    by (simp add: unat_word_ariths unsigned_of_nat take_bit_eq_mod mod_add_right_eq)
  also have "\<dots> mod N = (unat a + k) mod N" by (rule mod_mod_cancel) (rule N_dvd)
  finally show ?thesis .
qed

lemma full: "(w :: 'a word) = r + of_nat N \<longleftrightarrow> unat (w - r) = N"
proof -
  have "w = r + of_nat N \<longleftrightarrow> w - r = of_nat N" by (auto simp: algebra_simps)
  also have "\<dots> \<longleftrightarrow> unat (w - r) = N" using unat_of_nat_small[OF N_less] by (auto simp: word_unat_eq_iff)
  finally show ?thesis .
qed

text \<open>Positions in the window are distinct as long as it is not longer than the buffer.\<close>

lemma positions_differ: "j < k \<Longrightarrow> k < N \<Longrightarrow> unat (a + of_nat j :: 'a word) mod N \<noteq> unat (a + of_nat k) mod N"
proof
  assume jk: "j < k" "k < N" and "unat (a + of_nat j) mod N = unat (a + of_nat k) mod N"
  then have "(unat a + j) mod N = (unat a + k) mod N" by (simp only: position)
  then have "j mod N = k mod N" unfolding nat_mod_eq_iff by (metis add.assoc add_left_cancel)
  then show False using jk by simp
qed

lemma put:
  assumes "unat (w - r :: 'a word) < N"
  shows "unat (w + 1 - r) = Suc (unat (w - r))" and "window N (buf(unat w mod N := c)) r (w + 1) = window N buf r w @ [c]"
proof -
  let ?n = "unat (w - r)"
  have n: "Suc ?n < 2 ^ LENGTH('a)" using assms N_less by simp
  have "w + 1 - r = of_nat (Suc ?n)" by (simp add: algebra_simps)
  then show s: "unat (w + 1 - r) = Suc ?n" by (simp only: unat_of_nat_small[OF n])
  have "r + of_nat ?n = w" by simp
  then have "unat (r + of_nat k) mod N \<noteq> unat w mod N" if "k < ?n" for k
    using positions_differ[of k ?n r] that assms by simp
  then show "window N (buf(unat w mod N := c)) r (w + 1) = window N buf r w @ [c]"
    unfolding window_def s by simp
qed

lemma get:
  assumes "r \<noteq> (w :: 'a word)"
  shows "unat (w - r) = Suc (unat (w - (r + 1)))" and "window N buf r w = buf (unat r mod N) # window N buf (r + 1) w"
proof -
  show s: "unat (w - r) = Suc (unat (w - (r + 1)))" using unat_minus_Suc[of "w - r"] assms by (simp add: diff_diff_eq)
  have "[0..<unat (w - r)] = 0 # map Suc [0..<unat (w - (r + 1))]"
    unfolding s by (simp add: upt_conv_Cons map_Suc_upt del: upt_Suc)
  then show "window N buf r w = buf (unat r mod N) # window N buf (r + 1) w"
    by (simp add: window_def add.assoc comp_def)
qed

text \<open>Taking back the last byte.\<close>

lemma unput:
  assumes "r \<noteq> (w :: 'a word)"
  shows "unat (w - r) = Suc (unat (w - 1 - r))" and "window N buf r w = window N buf r (w - 1) @ [buf (unat (w - 1) mod N)]"
proof -
  show s: "unat (w - r) = Suc (unat (w - 1 - r))" using unat_minus_Suc[of "w - r"] assms by (simp add: algebra_simps)
  have "r + of_nat (unat (w - 1 - r)) = w - 1" by simp
  then show "window N buf r w = window N buf r (w - 1) @ [buf (unat (w - 1) mod N)]"
    unfolding window_def s by simp
qed

text \<open>A counter in between splits the window.\<close>

lemma split_at:
  assumes "unat (w - r :: 'a word) \<le> unat (e - r)"
  shows "unat (e - r) = unat (w - r) + unat (e - w)" and "window N buf r e = window N buf r w @ window N buf w e"
proof -
  have "e - w = (e - r) - (w - r)" by simp
  then have "unat (e - w) = unat (e - r) - unat (w - r)" using assms by (simp only: unat_sub word_le_nat_alt)
  then show s: "unat (e - r) = unat (w - r) + unat (e - w)" using assms by simp
  have w: "r + of_nat (unat (w - r) + k) = w + of_nat k" for k by (simp add: algebra_simps)
  have "[0..<unat (e - r)] = [0..<unat (w - r)] @ map (\<lambda>k. unat (w - r) + k) [0..<unat (e - w)]"
    unfolding s using upt_add_eq_append[of 0 "unat (w - r)" "unat (e - w)"] map_add_upt[of "unat (w - r)" "unat (e - w)"]
    by (simp only: le0 add_0 add.commute[of "unat (w - r)"])
  then show "window N buf r e = window N buf r w @ window N buf w e"
    by (simp add: window_def comp_def w del: of_nat_add)
qed

end

end
