(* ===== verification/Pipe.thy ===== *)
theory Pipe
  imports Copy Ring
begin

text \<open>
  \<^verbatim>\<open>kernel/pipe.c\<close>: the ring buffer of a pipe. The counters \<open>nread\<close> and \<open>nwrite\<close> run freely and wrap
  around at \<open>2 ^ 32\<close>. A call that has to sleep stops with \<open>Waiting i\<close>, having moved \<open>i\<close> bytes,
  and goes on from there when it is woken. Allocation and closing, which involve the file
  table and the page allocator, are with \<^verbatim>\<open>file.c\<close>.
\<close>

section \<open>Operations\<close>

abbreviation PIPESIZE :: nat where "PIPESIZE \<equiv> 512"

record pipe =
  pdata :: "nat \<Rightarrow> uchar"
  nread :: uint
  nwrite :: uint
  readopen :: bool
  writeopen :: bool

datatype pipe_io = Returned int | Waiting nat

definition pipe_put :: "uchar \<Rightarrow> pipe \<Rightarrow> pipe" where
  "pipe_put c p = p\<lparr>pdata := (pdata p)(unat (nwrite p) mod PIPESIZE := c), nwrite := nwrite p + 1\<rparr>"

function pipewrite_loop :: "uint64 \<Rightarrow> uint64 \<Rightarrow> nat \<Rightarrow> nat \<Rightarrow> bool \<Rightarrow> phys \<Rightarrow> pipe \<Rightarrow> (pipe_io \<times> pipe) res" where
  "pipewrite_loop pagetable addr n i killed m p =
     (if i < n then
        if \<not> readopen p \<or> killed then Inr (Returned (-1), p)
        else if nwrite p = nread p + of_nat PIPESIZE then Inr (Waiting i, p)
        else bindE (copyin pagetable (addr + of_nat i) 1 m) (\<lambda>(r, ch).
          if r = -1 then Inr (Returned (int i), p)
          else pipewrite_loop pagetable addr n (Suc i) killed m (pipe_put (ch ! 0) p))
      else Inr (Returned (int i), p))"
  by pat_completeness auto
termination
  by (relation "measure (\<lambda>(pagetable, addr, n, i, killed, m, p). n - i)") auto

declare pipewrite_loop.simps [simp del]

definition pipewrite :: "uint64 \<Rightarrow> uint64 \<Rightarrow> int \<Rightarrow> bool \<Rightarrow> phys \<Rightarrow> pipe \<Rightarrow> (pipe_io \<times> pipe) res" where
  "pipewrite pagetable addr n killed m p = pipewrite_loop pagetable addr (nat n) 0 killed m p"

function piperead_loop :: "uint64 \<Rightarrow> uint64 \<Rightarrow> nat \<Rightarrow> nat \<Rightarrow> phys \<Rightarrow> pipe \<Rightarrow> (int \<times> pipe \<times> phys) res" where
  "piperead_loop pagetable addr n i m p =
     (if i < n then
        if nread p = nwrite p then Inr (int i, p, m)
        else
          let ch = pdata p (unat (nread p) mod PIPESIZE);
              p = p\<lparr>nread := nread p + 1\<rparr>
          in bindE (copyout pagetable (addr + of_nat i) [ch] m) (\<lambda>(r, m).
            if r = -1 then Inr (int i, p, m)
            else piperead_loop pagetable addr n (Suc i) m p)
      else Inr (int i, p, m))"
  by pat_completeness auto
termination
  by (relation "measure (\<lambda>(pagetable, addr, n, i, m, p). n - i)") auto

declare piperead_loop.simps [simp del]

definition piperead :: "uint64 \<Rightarrow> uint64 \<Rightarrow> int \<Rightarrow> bool \<Rightarrow> phys \<Rightarrow> pipe \<Rightarrow> (pipe_io \<times> pipe \<times> phys) res" where
  "piperead pagetable addr n killed m p =
     (if nread p = nwrite p \<and> writeopen p then
        if killed then Inr (Returned (-1), p, m) else Inr (Waiting 0, p, m)
      else bindE (piperead_loop pagetable addr (nat n) 0 m p) (\<lambda>(i, p, m). Inr (Returned i, p, m)))"

section \<open>The queue\<close>

definition pinv :: "pipe \<Rightarrow> bool" where
  "pinv p \<longleftrightarrow> unat (nwrite p - nread p) \<le> PIPESIZE"

definition queue :: "pipe \<Rightarrow> uchar list" where
  "queue p = window PIPESIZE (pdata p) (nread p) (nwrite p)"

interpretation pring: ring PIPESIZE "TYPE(32)"
  by unfold_locales simp_all

lemma length_queue [simp]: "length (queue p) = unat (nwrite p - nread p)"
  by (simp add: queue_def)

lemma queue_empty: "queue p = [] \<longleftrightarrow> nread p = nwrite p"
  by (simp add: queue_def window_empty)

lemma queue_full: "nwrite p = nread p + of_nat PIPESIZE \<longleftrightarrow> length (queue p) = PIPESIZE"
  unfolding length_queue by (rule pring.full)

lemma pipe_put_queue:
  assumes "length (queue p) < PIPESIZE"
  shows "pinv (pipe_put c p)" and "queue (pipe_put c p) = queue p @ [c]"
  using pring.put[of "nwrite p" "nread p"] assms by (simp_all add: pinv_def pipe_put_def queue_def)

lemma fold_put_queue:
  "pinv p \<Longrightarrow> length (queue p) + length cs \<le> PIPESIZE \<Longrightarrow> pinv (fold pipe_put cs p) \<and> queue (fold pipe_put cs p) = queue p @ cs"
proof (induction cs arbitrary: p)
  case (Cons c cs)
  then have "length (queue p) < PIPESIZE" by simp
  note P = pipe_put_queue[OF this, of c]
  then have "length (queue (pipe_put c p)) + length cs \<le> PIPESIZE" using Cons.prems(2) by (simp only: P length_append) simp
  then show ?case using Cons.IH[OF P(1)] P(2) by simp
qed simp

lemma pipe_get_queue:
  assumes "pinv p" and "nread p \<noteq> nwrite p"
  shows "pinv (p\<lparr>nread := nread p + 1\<rparr>)" and "queue p = pdata p (unat (nread p) mod PIPESIZE) # queue (p\<lparr>nread := nread p + 1\<rparr>)"
  using pring.get[OF assms(2)] assms(1) by (simp_all add: pinv_def queue_def)

section \<open>Transfers\<close>

lemma ubytes_Suc: "ubytes m r va (Suc k) = ubyte m r va # ubytes m r (va + 1) k"
  using ubytes_add[of m r va 1 k] by (simp add: ubytes_def)

lemma next_addr: "(a :: uint64) + of_nat (Suc i) = a + of_nat i + 1"
  by (simp add: algebra_simps)

lemma copyin_one:
  assumes "ptree m r ps" and "unat va < 2 ^ 38"
  shows "copyin r va 1 m = (if readable m r va then Inr (0, [ubyte m r va]) else Inr (-1, []))"
  using copyin_spec[OF assms(1), of va 1] assms(2) by (auto simp: ubytes_def split: if_splits)

text \<open>
  A write from byte \<open>i\<close> on moves \<open>k\<close> more bytes of user memory to the end of the queue; it stops
  when all is written, when the pipe is full, or at an unreadable byte.
\<close>

lemma pipewrite_loop_spec:
  assumes t: "ptree m r ps" and a: "unat addr + n \<le> 2 ^ 38"
  shows "pinv p \<Longrightarrow> readopen p \<Longrightarrow> i \<le> n \<Longrightarrow>
    \<exists>k io p'. pipewrite_loop r addr n i False m p = Inr (io, p') \<and> pinv p' \<and> i + k \<le> n \<and>
      queue p' = queue p @ ubytes m r (addr + of_nat i) k \<and> (\<forall>j < k. readable m r (addr + of_nat (i + j))) \<and>
      (io = Returned (int (i + k)) \<and> (i + k = n \<or> \<not> readable m r (addr + of_nat (i + k))) \<or>
       io = Waiting (i + k) \<and> i + k < n \<and> length (queue p') = PIPESIZE) \<and>
      readopen p' \<and> writeopen p' = writeopen p"
proof (induction "n - i" arbitrary: i p)
  case 0
  then show ?case by (intro exI[of _ 0] exI[of _ "Returned (int i)"] exI[of _ p]) (simp add: pipewrite_loop.simps[of r] ubytes_def)
next
  case (Suc d)
  have lt: "i < n" using Suc.hyps(2) by simp
  show ?case
  proof (cases "nwrite p = nread p + of_nat PIPESIZE")
    case True
    then show ?thesis using lt Suc.prems queue_full[of p]
      by (intro exI[of _ 0] exI[of _ "Waiting i"] exI[of _ p]) (simp add: pipewrite_loop.simps[of r] ubytes_def)
  next
    case nf: False
    have u: "unat (addr + of_nat i) = unat addr + i" using lt a by (intro unat_add_nat) simp
    have C: "copyin r (addr + of_nat i) 1 m = (if readable m r (addr + of_nat i) then Inr (0, [ubyte m r (addr + of_nat i)]) else Inr (-1, []))"
      using u lt a by (intro copyin_one[OF t]) simp
    show ?thesis
    proof (cases "readable m r (addr + of_nat i)")
      case True
      then have c: "copyin r (addr + of_nat i) 1 m = Inr (0, [ubyte m r (addr + of_nat i)])"
        using C by simp
      let ?p = "pipe_put (ubyte m r (addr + of_nat i)) p"
      have "length (queue p) < PIPESIZE" using nf queue_full[of p] Suc.prems(1) by (simp add: pinv_def)
      note Q = pipe_put_queue[OF this, of "ubyte m r (addr + of_nat i)"]
      have st: "readopen ?p" "writeopen ?p = writeopen p" "Suc i \<le> n" "d = n - Suc i" using Suc.prems Suc.hyps(2) lt by (simp_all add: pipe_put_def)
      obtain k io p' where k: "pipewrite_loop r addr n (Suc i) False m ?p = Inr (io, p')" "pinv p'" "Suc i + k \<le> n"
        "queue p' = queue ?p @ ubytes m r (addr + of_nat (Suc i)) k" "\<forall>j < k. readable m r (addr + of_nat (Suc i + j))"
        "io = Returned (int (Suc i + k)) \<and> (Suc i + k = n \<or> \<not> readable m r (addr + of_nat (Suc i + k))) \<or>
          io = Waiting (Suc i + k) \<and> Suc i + k < n \<and> length (queue p') = PIPESIZE" "readopen p'" "writeopen p' = writeopen ?p"
        using Suc.hyps(1)[OF st(4) Q(1) st(1,3)] by (elim exE conjE) (rule that)
      have "pipewrite_loop r addr n i False m p = Inr (io, p')"
        using lt Suc.prems nf c k(1) by (simp add: pipewrite_loop.simps[of r addr n i])
      moreover have "queue p' = queue p @ ubytes m r (addr + of_nat i) (Suc k)"
        using k(4) Q(2) unfolding next_addr by (simp add: ubytes_Suc)
      moreover have "\<forall>j < Suc k. readable m r (addr + of_nat (i + j))"
        using k(5) True by (auto simp: less_Suc_eq_0_disj simp del: of_nat_add)
      ultimately show ?thesis using k st(2) by (intro exI[of _ "Suc k"] exI[of _ io] exI[of _ p']) (simp del: of_nat_add)
    next
      case False
      then have "copyin r (addr + of_nat i) 1 m = Inr (-1, [])" using C by simp
      then show ?thesis using lt Suc.prems nf False
        by (intro exI[of _ 0] exI[of _ "Returned (int i)"] exI[of _ p]) (simp add: pipewrite_loop.simps[of r] ubytes_def)
    qed
  qed
qed

lemma piperead_loop_spec:
  "aspace m r ps U \<Longrightarrow> owns_writable m r U \<Longrightarrow> unat addr + n \<le> 2 ^ 38 \<Longrightarrow> (\<forall>j < n. writable m r (addr + of_nat j)) \<Longrightarrow>
   pinv p \<Longrightarrow> i \<le> n \<Longrightarrow>
    \<exists>k p' m'. piperead_loop r addr n i m p = Inr (int (i + k), p', m') \<and> k = min (n - i) (length (queue p)) \<and> pinv p' \<and>
      queue p' = drop k (queue p) \<and> aspace m' r ps U \<and> (\<forall>va. leaf (pmem m') r va = leaf (pmem m) r va) \<and>
      stored r U (addr + of_nat i) (take k (queue p)) m m' \<and> readopen p' = readopen p \<and> writeopen p' = writeopen p"
proof (induction "n - i" arbitrary: i p m)
  case 0
  then show ?case by (intro exI[of _ 0] exI[of _ p] exI[of _ m]) (simp add: piperead_loop.simps[of r] stored_Nil)
next
  case (Suc d)
  have lt: "i < n" using Suc.hyps(2) by simp
  note A = Suc.prems
  show ?case
  proof (cases "nread p = nwrite p")
    case True
    then show ?thesis using A lt by (intro exI[of _ 0] exI[of _ p] exI[of _ m]) (simp add: piperead_loop.simps[of r] stored_Nil)
  next
    case False
    let ?c = "pdata p (unat (nread p) mod PIPESIZE)" and ?p = "p\<lparr>nread := nread p + 1\<rparr>"
    note Q = pipe_get_queue[OF A(5) False]
    have u: "unat (addr + of_nat i) = unat addr + i" using lt A(3) by (intro unat_add_nat) simp
    have w: "\<forall>j < length [?c]. writable m r (addr + of_nat i + of_nat j)" using A(4) lt by simp
    obtain m1 where m1: "copyout r (addr + of_nat i) [?c] m = Inr (0, m1)" "aspace m1 r ps U"
      "\<forall>va. leaf (pmem m1) r va = leaf (pmem m) r va" "stored r U (addr + of_nat i) [?c] m m1"
      using copyout_spec[OF A(1,2), of "addr + of_nat i" "[?c]"] w u lt A(3) by auto
    have st: "d = n - Suc i" "owns_writable m1 r U" "\<forall>j < n. writable m1 r (addr + of_nat j)" "Suc i \<le> n"
      using Suc.hyps(2) lt A(2,4) m1(3) by (simp_all add: owns_leaf[OF m1(3)] writable_leaf[OF m1(3)])
    obtain k p' m' where k: "piperead_loop r addr n (Suc i) m1 ?p = Inr (int (Suc i + k), p', m')" "k = min (n - Suc i) (length (queue ?p))"
      "pinv p'" "queue p' = drop k (queue ?p)" "aspace m' r ps U" "\<forall>va. leaf (pmem m') r va = leaf (pmem m1) r va"
      "stored r U (addr + of_nat (Suc i)) (take k (queue ?p)) m1 m'" "readopen p' = readopen ?p" "writeopen p' = writeopen ?p"
      using Suc.hyps(1)[OF st(1) m1(2) st(2) A(3) st(3) Q(1) st(4)] by (elim exE conjE) (rule that)
    have q: "queue p = ?c # queue ?p" by (rule Q(2))
    have e: "piperead_loop r addr n i m p = Inr (int (i + Suc k), p', m')"
      using lt False m1(1) k(1) by (simp add: piperead_loop.simps[of r addr n i])
    have kk: "Suc k = min (n - i) (length (queue p))" using k(2) lt unfolding q by simp
    have ua: "unat (addr + of_nat (Suc i)) = unat (addr + of_nat i) + 1"
    proof -
      have "unat (addr + of_nat (Suc i)) = unat addr + Suc i" using lt A(3) by (intro unat_add_nat) simp
      then show ?thesis using u by simp
    qed
    have st': "stored r U (addr + of_nat i) (take (Suc k) (queue p)) m m'" unfolding q take_Suc_Cons
      using stored_append[of r U "addr + of_nat i" 1 "?c # take k (queue ?p)" m m1 "addr + of_nat (Suc i)" m'] m1(4) k(7) ua by simp
    have dr: "queue p' = drop (Suc k) (queue p)" unfolding q drop_Suc_Cons by (rule k(4))
    have le: "\<forall>va. leaf (pmem m') r va = leaf (pmem m) r va" "readopen p' = readopen p" "writeopen p' = writeopen p"
      using k(6,8,9) m1(3) by simp_all
    show ?thesis using e kk k(3) dr k(5) le(1) st' le(2,3) by (intro exI[of _ "Suc k"] exI[of _ p'] exI[of _ m'] conjI)
  qed
qed

section \<open>Properties\<close>

text \<open>
  \<^verbatim>\<open>piperead\<close> of a pipe that is not empty, into writable user memory, returns the number of bytes
  asked for or in the pipe, whichever is less; user memory holds the first bytes of the queue, the
  pipe the others. Of an empty pipe with the writing end open it waits, or returns -1 for a killed
  process; with the writing end closed it returns 0.
\<close>

theorem piperead_correct:
  assumes "aspace m r ps U" and "owns_writable m r U" and "unat addr + nat n \<le> 2 ^ 38"
    and "\<forall>j < nat n. writable m r (addr + of_nat j)" and "pinv p"
  shows "if queue p = [] then
      piperead r addr n killed m p = Inr (if writeopen p then if killed then Returned (-1) else Waiting 0 else Returned 0, p, m)
    else \<exists>k p' m'. piperead r addr n killed m p = Inr (Returned (int k), p', m') \<and> k = min (nat n) (length (queue p)) \<and>
      pinv p' \<and> queue p' = drop k (queue p) \<and> aspace m' r ps U \<and> stored r U addr (take k (queue p)) m m'"
proof (cases "queue p = []")
  case True
  then show ?thesis by (simp add: piperead_def queue_empty piperead_loop.simps[of r])
next
  case False
  then have ne: "nread p \<noteq> nwrite p" by (simp add: queue_empty)
  show ?thesis using piperead_loop_spec[OF assms le0] ne False by (auto simp: piperead_def)
qed

lemma example_pipe:
  "\<exists>m r ps p. aspace m r ps (upages 0 4096) \<and> owns_writable m r (upages 0 4096) \<and> (\<forall>j < 8. writable m r (of_nat j)) \<and>
     pinv p \<and> queue p = [1, 2, 3] \<and> nread p = -1"
proof -
  let ?empty = "\<lparr>pdata = (\<lambda>_. 0), nread = -1, nwrite = -1, readopen = True, writeopen = True\<rparr> :: pipe"
  let ?p = "fold pipe_put [1, 2, 3] ?empty"
  have "pinv ?empty" "queue ?empty = []" by (simp_all add: pinv_def queue_empty)
  then have p3: "pinv ?p" "queue ?p = [1, 2, 3]" using fold_put_queue[of ?empty "[1, 2, 3]"] by simp_all
  obtain s r ps where s: "aspace s r ps (upages 0 4096)" "owns_writable s r (upages 0 4096)" "\<forall>i < 4096. writable s r (of_nat i)"
    using example_space by blast
  then have "\<forall>i < 8. writable s r (of_nat i)" by simp
  moreover have "nread ?p = -1" by (simp add: pipe_put_def)
  ultimately show ?thesis using p3 s by blast
qed

theorem piperead_correct_witness:
  "\<exists>r m p p' m'. piperead r 0 2 False m p = Inr (Returned 2, p', m') \<and> queue p = [1, 2, 3] \<and> queue p' = [3] \<and> nread p = -1"
proof -
  obtain m r ps p where p: "aspace m r ps (upages 0 4096)" "owns_writable m r (upages 0 4096)" "\<forall>j < 8. writable m r (of_nat j)"
    "pinv p" "queue p = [1, 2, 3]" "nread p = -1" using example_pipe by blast
  have w: "\<forall>j < nat 2. writable m r (0 + of_nat j)" using p(3) by simp
  have b: "unat (0 :: uint64) + nat 2 \<le> 2 ^ 38" by simp
  have l: "length (queue p) = 3" by (simp only: p(5)) simp
  obtain p' m' where "piperead r 0 2 False m p = Inr (Returned 2, p', m')" "queue p' = drop 2 (queue p)"
    using piperead_correct[OF p(1,2) b w p(4), of False] p(5) l by auto
  then show ?thesis using p(5,6) by (intro exI[of _ r] exI[of _ m] exI[of _ p] exI[of _ p'] exI[of _ m']) simp
qed

text \<open>
  The life of a pipe used by any number of readers and writers: \<open>sent\<close> are the bytes of user memory the
  writers' calls have moved so far, \<open>got\<close> those the readers' calls have stored. A write may start
  anew or go on from where it waited.
\<close>

inductive pipe_hist :: "uchar list \<Rightarrow> uchar list \<Rightarrow> pipe \<Rightarrow> bool" where
  new: "nread p = nwrite p \<Longrightarrow> pipe_hist [] [] p"
| sends: "pipe_hist sent got p \<Longrightarrow> readopen p \<Longrightarrow> ptree m r ps \<Longrightarrow> unat addr + n \<le> 2 ^ 38 \<Longrightarrow> i \<le> n \<Longrightarrow>
    pipewrite_loop r addr n i False m p = Inr (io, p') \<Longrightarrow> io = Returned (int j) \<or> io = Waiting j \<Longrightarrow>
    pipe_hist (sent @ ubytes m r (addr + of_nat i) (j - i)) got p'"
| gets: "pipe_hist sent got p \<Longrightarrow> aspace m r ps U \<Longrightarrow> owns_writable m r U \<Longrightarrow> unat addr + nat n \<le> 2 ^ 38 \<Longrightarrow>
    \<forall>j < nat n. writable m r (addr + of_nat j) \<Longrightarrow> piperead r addr n False m p = Inr (Returned (int k), p', m') \<Longrightarrow>
    pipe_hist sent (got @ ubytes m' r addr k) p'"

lemma stored_ubytes:
  assumes "aspace m r ps U" and "owns_writable m r U" and "unat addr + length bs \<le> 2 ^ 38"
    and "\<forall>j < length bs. writable m r (addr + of_nat j)" and "stored r U addr bs m m'"
  shows "ubytes m' r addr (length bs) = bs"
proof (rule nth_equalityI)
  fix i assume "i < length (ubytes m' r addr (length bs))"
  then have i: "i < length bs" by simp
  have u: "unat (addr + of_nat i) = unat addr + i" using i assms(3) by (intro unat_add_nat) simp
  then have "PGROUNDDOWN (addr + of_nat i) \<in> U" using writable_readable[OF assms(1,2)] assms(3,4) i by simp
  then show "ubytes m' r addr (length bs) ! i = bs ! i" using assms(5) u i by (simp add: ubytes_def stored_def)
qed simp

text \<open>
  C14. Whatever the interleaving of writes and reads, also across the wrap-around of the counters, the bytes
  read are the bytes written, in order, none lost and none twice; those not yet read are the
  queue, of at most 512 bytes.
\<close>

theorem pipe_fifo:
  assumes "pipe_hist sent got p"
  shows "sent = got @ queue p \<and> length (queue p) \<le> PIPESIZE"
proof -
  have "pinv p \<and> sent = got @ queue p"
    using assms
  proof induction
    case (new p)
    then show ?case using queue_empty[of p] by (simp add: pinv_def)
  next
    case (sends sent got p m r ps addr n i io p' j)
    then obtain k io' p'' where "pipewrite_loop r addr n i False m p = Inr (io', p'')" "pinv p''"
      "queue p'' = queue p @ ubytes m r (addr + of_nat i) k" "io' = Returned (int (i + k)) \<or> io' = Waiting (i + k)"
      using pipewrite_loop_spec[of m r ps addr n p i] by blast
    then have "pinv p'" "queue p' = queue p @ ubytes m r (addr + of_nat i) k" "j = i + k" using sends by auto
    then show ?case using sends.IH by simp
  next
    case (gets sent got p m r ps U addr n k p' m')
    show ?case
    proof (cases "queue p = []")
      case True
      then have "nread p = nwrite p" by (simp add: queue_empty)
      then have "k = 0" "p' = p" using gets.hyps(6) by (auto simp: piperead_def piperead_loop.simps[of r] split: if_splits)
      then show ?thesis using gets.IH by (simp add: ubytes_def)
    next
      case False
      then have "nread p \<noteq> nwrite p" by (simp add: queue_empty)
      then obtain m'' p'' where l: "k = min (nat n) (length (queue p))" "pinv p'" "queue p' = drop k (queue p)" "stored r U addr (take k (queue p)) m m'"
        using piperead_loop_spec[OF gets.hyps(2-5), of p 0] gets.IH gets.hyps(6) by (auto simp: piperead_def)
      have "ubytes m' r addr (length (take k (queue p))) = take k (queue p)"
        using l(1) gets.hyps(4,5) by (intro stored_ubytes[OF gets.hyps(2,3) _ _ l(4)]) auto
      then show ?thesis using l gets.IH by (simp add: min_absorb2)
    qed
  qed
  then show ?thesis by (simp add: pinv_def)
qed

theorem pipe_fifo_witness: "\<exists>sent p. pipe_hist sent [] p \<and> length sent = 3 \<and> sent = queue p"
proof -
  let ?empty = "\<lparr>pdata = (\<lambda>_. 0), nread = -1, nwrite = -1, readopen = True, writeopen = True\<rparr> :: pipe"
  obtain s r ps where s: "aspace s r ps (upages 0 4096)" "owns_writable s r (upages 0 4096)" "\<forall>i < 4096. writable s r (of_nat i)"
    using example_space by blast
  have rd: "readable s r (of_nat i)" if "i < 3" for i
    using writable_readable(1)[OF s(1,2)] s(3) that unat_of_nat_small[of i, where 'a = 64] by simp
  have e: "pinv ?empty" "readopen ?empty" and b: "unat (0 :: uint64) + 3 \<le> 2 ^ 38" by (simp_all add: pinv_def)
  obtain k io p' where k: "pipewrite_loop r 0 3 0 False s ?empty = Inr (io, p')" "0 + k \<le> 3" "queue p' = queue ?empty @ ubytes s r (0 + of_nat 0) k"
    "io = Returned (int (0 + k)) \<and> (0 + k = 3 \<or> \<not> readable s r (0 + of_nat (0 + k))) \<or> io = Waiting (0 + k) \<and> 0 + k < 3 \<and> length (queue p') = PIPESIZE"
    using pipewrite_loop_spec[OF aspaceD(1)[OF s(1)] b e le0] by blast
  have "length (queue p') \<le> 3" using k(2,3) by (simp only: length_append length_ubytes length_queue) simp
  then have io: "io = Returned (int 3)" "k = 3" using k(2,4) rd[of k] by (cases "k = 3"; auto)+
  have "pipe_hist ([] @ ubytes s r (0 + of_nat 0) (3 - 0)) [] p'"
    by (rule pipe_hist.sends[OF pipe_hist.new e(2) aspaceD(1)[OF s(1)] _ _ k(1)]) (use io in simp_all)
  then have h: "pipe_hist (ubytes s r 0 3) [] p'" by simp
  have "ubytes s r 0 3 = queue p'" using pipe_fifo[OF h] by simp
  then show ?thesis using h length_ubytes by blast
qed

text \<open>
  C33. A byte is lost when \<^verbatim>\<open>piperead\<close> cannot store it: reading into an address that is not writable returns 0 bytes,
  but takes the first byte out of the pipe.
\<close>

theorem piperead_fault_drops:
  assumes "aspace m r ps U" and "owns_writable m r U" and "unat addr < 2 ^ 38" and "\<not> writable m r addr"
    and "pinv p" and "queue p = c # cs" and "0 < n"
  shows "\<exists>p' m'. piperead r addr n killed m p = Inr (Returned 0, p', m') \<and> queue p' = cs"
proof -
  have ne: "nread p \<noteq> nwrite p" using assms(6) queue_empty[of p] by auto
  note Q = pipe_get_queue[OF assms(5) ne]
  let ?c = "pdata p (unat (nread p) mod PIPESIZE)"
  obtain m' where "copyout r addr [?c] m = Inr (-1, m')"
    using copyout_spec[OF assms(1,2), of addr "[?c]"] assms(3,4) by auto
  then have "piperead r addr n killed m p = Inr (Returned 0, p\<lparr>nread := nread p + 1\<rparr>, m')"
    using ne assms(7) by (simp add: piperead_def piperead_loop.simps[of r])
  then show ?thesis using Q(2) assms(6) by auto
qed

theorem piperead_fault_drops_witness:
  "\<exists>r m p p' m'. queue p = [1, 2, 3] \<and> piperead r 8192 1 False m p = Inr (Returned 0, p', m') \<and> queue p' = [2, 3]"
proof -
  obtain m r ps p where p: "aspace m r ps (upages 0 4096)" "owns_writable m r (upages 0 4096)" "pinv p" "queue p = [1, 2, 3]"
    using example_pipe by blast
  have "PGROUNDDOWN 8192 = (8192 :: uint64)" by (rule PGROUNDDOWN_aligned) (simp add: aligned_unat)
  moreover have "8192 \<notin> upages 0 4096" by (simp add: upages_def)
  ultimately have "\<not> writable m r 8192" using writable_readable(2)[OF p(1,2), of 8192] by auto
  then have "\<exists>p' m'. piperead r 8192 1 False m p = Inr (Returned 0, p', m') \<and> queue p' = [2, 3]"
    by (intro piperead_fault_drops[OF p(1,2) _ _ p(3,4)]) simp_all
  then show ?thesis using p(4) by blast
qed

end
