(* ===== verification/File.thy ===== *)
theory File
  imports Fs Pipe
begin

text \<open>
  \<^verbatim>\<open>kernel/file.c\<close>, and the part of \<^verbatim>\<open>kernel/pipe.c\<close> that allocates and closes pipes. The state adds the
  file table, the pipes by the address of their page, and whether the current process has been
  killed. The table of device routines \<^verbatim>\<open>devsw\<close>, filled at boot, is an argument. A pipe
  operation that waits is the result \<open>Sleeping\<close>.
\<close>

section \<open>State and operations\<close>

abbreviation NFILE :: nat where "NFILE \<equiv> 100"
abbreviation NDEV :: int where "NDEV \<equiv> 10"

datatype ftype = FD_NONE | FD_PIPE | FD_INODE | FD_DEVICE

record file_rec =
  f_type :: ftype
  f_ref :: int
  f_readable :: bool
  f_writable :: bool
  f_pipe :: uint64
  f_ip :: nat
  f_off :: uint
  f_major :: ushort

record files = fs +
  ftable :: "nat \<Rightarrow> file_rec"
  pipes :: "uint64 \<Rightarrow> pipe"
  pkilled :: bool

type_synonym 's devfn = "uint64 \<Rightarrow> int \<Rightarrow> 's \<Rightarrow> (int \<times> 's) res"

definition set_file :: "nat \<Rightarrow> (file_rec \<Rightarrow> file_rec) \<Rightarrow> 'a files_scheme \<Rightarrow> 'a files_scheme" where
  "set_file f g s = s\<lparr>ftable := (ftable s)(f := g (ftable s f))\<rparr>"

definition filealloc :: "'a files_scheme \<Rightarrow> nat option \<times> 'a files_scheme" where
  "filealloc s =
     (case find (\<lambda>f. f_ref (ftable s f) = 0) [0..<NFILE] of
        Some f \<Rightarrow> (Some f, set_file f (\<lambda>x. x\<lparr>f_ref := 1\<rparr>) s)
      | None \<Rightarrow> (None, s))"

definition filedup :: "nat \<Rightarrow> 'a files_scheme \<Rightarrow> 'a files_scheme res" where
  "filedup f s =
     (if f_ref (ftable s f) < 1 then Inl (Panic ''filedup'')
      else Inr (set_file f (\<lambda>x. x\<lparr>f_ref := f_ref x + 1\<rparr>) s))"

definition pipeclose :: "uint64 \<Rightarrow> bool \<Rightarrow> 'a files_scheme \<Rightarrow> 'a files_scheme res" where
  "pipeclose pi wr s =
     (let p = (if wr then (pipes s pi)\<lparr>writeopen := False\<rparr> else (pipes s pi)\<lparr>readopen := False\<rparr>);
          s = s\<lparr>pipes := (pipes s)(pi := p)\<rparr>
      in if \<not> readopen p \<and> \<not> writeopen p
         then bindE (kfree pi (umem s)) (\<lambda>m. Inr (s\<lparr>umem := m\<rparr>))
         else Inr s)"

definition fileclose :: "nat \<Rightarrow> 'a files_scheme \<Rightarrow> 'a files_scheme res" where
  "fileclose f s =
     (if f_ref (ftable s f) < 1 then Inl (Panic ''fileclose'')
      else
        let s = set_file f (\<lambda>x. x\<lparr>f_ref := f_ref x - 1\<rparr>) s in
        if f_ref (ftable s f) > 0 then Inr s
        else
          let ff = ftable s f;
              s = set_file f (\<lambda>x. x\<lparr>f_ref := 0, f_type := FD_NONE\<rparr>) s
          in if f_type ff = FD_PIPE then pipeclose (f_pipe ff) (f_writable ff) s
             else if f_type ff = FD_INODE \<or> f_type ff = FD_DEVICE then
               bindE (begin_op s) (\<lambda>s. bindE (iput (f_ip ff) s) end_op)
             else Inr s)"

text \<open>The \<open>bad\<close> exit of \<^verbatim>\<open>pipealloc\<close>; the page is the last to be allocated, so there is none to free.\<close>

definition pipealloc_bad :: "nat option \<Rightarrow> nat option \<Rightarrow> 'a files_scheme \<Rightarrow> ((nat \<times> nat) option \<times> 'a files_scheme) res" where
  "pipealloc_bad f0 f1 s =
     bindE (case f0 of None \<Rightarrow> Inr s | Some f \<Rightarrow> fileclose f s) (\<lambda>s.
     bindE (case f1 of None \<Rightarrow> Inr s | Some f \<Rightarrow> fileclose f s) (\<lambda>s. Inr (None, s)))"

definition pipealloc :: "'a files_scheme \<Rightarrow> ((nat \<times> nat) option \<times> 'a files_scheme) res" where
  "pipealloc s =
     (case filealloc s of
        (None, s) \<Rightarrow> pipealloc_bad None None s
      | (Some f0, s) \<Rightarrow>
          (case filealloc s of
             (None, s) \<Rightarrow> pipealloc_bad (Some f0) None s
           | (Some f1, s) \<Rightarrow>
               (case kalloc (umem s) of (pi, m) \<Rightarrow>
                  let s = s\<lparr>umem := m\<rparr> in
                  if pi = 0 then pipealloc_bad (Some f0) (Some f1) s
                  else
                    let s = s\<lparr>pipes := (pipes s)(pi := (pipes s pi)\<lparr>readopen := True, writeopen := True, nwrite := 0, nread := 0\<rparr>)\<rparr>;
                        s = set_file f0 (\<lambda>x. x\<lparr>f_type := FD_PIPE, f_readable := True, f_writable := False, f_pipe := pi\<rparr>) s;
                        s = set_file f1 (\<lambda>x. x\<lparr>f_type := FD_PIPE, f_readable := False, f_writable := True, f_pipe := pi\<rparr>) s
                    in Inr (Some (f0, f1), s))))"

text \<open>\<^verbatim>\<open>struct stat\<close> in memory; \<open>pad\<close> are the four bytes between \<^verbatim>\<open>nlink\<close> and \<^verbatim>\<open>size\<close>, which are never written.\<close>

definition stat_bytes :: "uchar list \<Rightarrow> stat \<Rightarrow> uchar list" where
  "stat_bytes pad st =
     (let v = put32 (\<lambda>i. if 12 \<le> i \<and> i < 16 then pad ! (i - 12) else 0) 0 (st_dev st);
          v = put32 v 4 (st_ino st);
          v = put16 v 8 (st_type st);
          v = put16 v 10 (st_nlink st);
          v = put32 v 16 (ucast (st_size st));
          v = put32 v 20 (ucast (drop_bit 32 (st_size st)))
      in map v [0..<24])"

definition filestat :: "uchar list \<Rightarrow> nat \<Rightarrow> uint64 \<Rightarrow> 'a files_scheme \<Rightarrow> (int \<times> 'a files_scheme) res" where
  "filestat pad f addr s =
     (if f_type (ftable s f) = FD_INODE \<or> f_type (ftable s f) = FD_DEVICE then
        let ip = f_ip (ftable s f) in
        bindE (ilock ip s) (\<lambda>s.
        let st = stati ip s in
        bindE (iunlock ip s) (\<lambda>s.
        bindE (copyout (upagetable s) addr (stat_bytes pad st) (umem s)) (\<lambda>(r, m).
        let s = s\<lparr>umem := m\<rparr> in
        if r < 0 then Inr (-1, s) else Inr (0, s))))
      else Inr (-1, s))"

definition dev_ok :: "ushort \<Rightarrow> bool" where
  "dev_ok major \<longleftrightarrow> \<not> (sint major < 0 \<or> sint major \<ge> NDEV)"

definition fileread :: "(nat \<Rightarrow> 'a files_scheme devfn option) \<Rightarrow> nat \<Rightarrow> uint64 \<Rightarrow> int \<Rightarrow> 'a files_scheme \<Rightarrow> (int \<times> 'a files_scheme) res" where
  "fileread devsw f addr n s =
     (let x = ftable s f in
      if \<not> f_readable x then Inr (-1, s)
      else case f_type x of
        FD_PIPE \<Rightarrow>
          bindE (piperead (upagetable s) addr n (pkilled s) (umem s) (pipes s (f_pipe x))) (\<lambda>(io, p, m).
            case io of
              Waiting _ \<Rightarrow> Inl Sleeping
            | Returned r \<Rightarrow> Inr (r, s\<lparr>pipes := (pipes s)(f_pipe x := p), umem := m\<rparr>))
      | FD_DEVICE \<Rightarrow>
          (case (if dev_ok (f_major x) then devsw (unat (f_major x)) else None) of
             None \<Rightarrow> Inr (-1, s)
           | Some rd \<Rightarrow> rd addr n s)
      | FD_INODE \<Rightarrow>
          bindE (ilock (f_ip x) s) (\<lambda>s.
          bindE (readi (f_ip x) (User addr) (f_off (ftable s f)) (word_of_int n) s) (\<lambda>(r, _, s).
          let s = (if r > 0 then set_file f (\<lambda>x. x\<lparr>f_off := f_off x + word_of_int r\<rparr>) s else s) in
          bindE (iunlock (f_ip x) s) (\<lambda>s. Inr (r, s))))
      | FD_NONE \<Rightarrow> Inl (Panic ''fileread''))"

text \<open>The chunks of \<^verbatim>\<open>filewrite\<close>, each a transaction of its own; returns the bytes written.\<close>

abbreviation max_chunk :: int where "max_chunk \<equiv> ((MAXOPBLOCKS - 1 - 1 - 2) div 2) * int BSIZE"

function filewrite_loop :: "nat \<Rightarrow> uint64 \<Rightarrow> int \<Rightarrow> int \<Rightarrow> 'a files_scheme \<Rightarrow> (int \<times> 'a files_scheme) res" where
  "filewrite_loop f addr n i s =
     (if i < n then
        let n1 = (if n - i > max_chunk then max_chunk else n - i); ip = f_ip (ftable s f) in
        bindE (begin_op s) (\<lambda>s.
        bindE (ilock ip s) (\<lambda>s.
        bindE (writei ip (User (addr + word_of_int i)) (f_off (ftable s f)) (word_of_int n1) s) (\<lambda>(r, s).
        let s = (if r > 0 then set_file f (\<lambda>x. x\<lparr>f_off := f_off x + word_of_int r\<rparr>) s else s) in
        bindE (iunlock ip s) (\<lambda>s.
        bindE (end_op s) (\<lambda>s.
        if r \<noteq> n1 then Inr (i, s) else filewrite_loop f addr n (i + n1) s)))))
      else Inr (i, s))"
  by pat_completeness auto
termination
  by (relation "measure (\<lambda>(f, addr, n, i, s). nat (n - i))") auto

declare filewrite_loop.simps [simp del]

definition filewrite :: "(nat \<Rightarrow> 'a files_scheme devfn option) \<Rightarrow> nat \<Rightarrow> uint64 \<Rightarrow> int \<Rightarrow> 'a files_scheme \<Rightarrow> (int \<times> 'a files_scheme) res" where
  "filewrite devsw f addr n s =
     (let x = ftable s f in
      if \<not> f_writable x then Inr (-1, s)
      else case f_type x of
        FD_PIPE \<Rightarrow>
          bindE (pipewrite (upagetable s) addr n (pkilled s) (umem s) (pipes s (f_pipe x))) (\<lambda>(io, p).
            case io of
              Waiting _ \<Rightarrow> Inl Sleeping
            | Returned r \<Rightarrow> Inr (r, s\<lparr>pipes := (pipes s)(f_pipe x := p)\<rparr>))
      | FD_DEVICE \<Rightarrow>
          (case (if dev_ok (f_major x) then devsw (unat (f_major x)) else None) of
             None \<Rightarrow> Inr (-1, s)
           | Some wr \<Rightarrow> wr addr n s)
      | FD_INODE \<Rightarrow>
          bindE (filewrite_loop f addr n 0 s) (\<lambda>(i, s). Inr (if i = n then n else -1, s))
      | FD_NONE \<Rightarrow> Inl (Panic ''filewrite''))"

end
