(* ===== verification/Proc.thy ===== *)
theory Proc
  imports File
begin

text \<open>
  \<^verbatim>\<open>kernel/proc.c\<close>: the process table. The state adds the table and the index \<open>cur\<close> of the process
  that runs; what the file system uses of it (\<open>pid\<close>, \<open>upagetable\<close>, \<open>cwd\<close>, \<open>pkilled\<close>) is copied from
  the table by \<open>load_proc\<close>, which stands for \<^verbatim>\<open>myproc()\<close>. A pointer to a process is its index.
  Each function runs as if alone; a call of \<^verbatim>\<open>sleep\<close> is the result \<open>Sleeping\<close>. Trapframes are
  in memory, at the offsets of \<^verbatim>\<open>struct trapframe\<close>. Contexts hold the two registers that the
  kernel sets.
\<close>

section \<open>State\<close>

abbreviation NPROC :: nat where "NPROC \<equiv> 64"
abbreviation NOFILE :: nat where "NOFILE \<equiv> 16"
abbreviation TRAMPOLINE :: uint64 where "TRAMPOLINE \<equiv> MAXVA - PGSIZE"
abbreviation TRAPFRAME :: uint64 where "TRAPFRAME \<equiv> TRAMPOLINE - PGSIZE"

definition KSTACK :: "nat \<Rightarrow> uint64" where
  "KSTACK p = TRAMPOLINE - of_nat (p + 1) * 2 * PGSIZE"

datatype procstate = UNUSED | USED | SLEEPING | RUNNABLE | RUNNING | ZOMBIE

text \<open>What a process sleeps on: nothing, a process (in \<^verbatim>\<open>wait\<close>), or another kernel object.\<close>

datatype chan = NoChan | ProcChan nat | Chan uint64

record proc =
  p_state :: procstate
  p_chan :: chan
  p_killed :: bool
  p_xstate :: uint
  p_pid :: int
  p_parent :: "nat option"
  p_kstack :: uint64
  p_sz :: uint64
  p_pagetable :: uint64
  p_trapframe :: uint64
  p_ra :: uint64
  p_sp :: uint64
  p_ofile :: "nat option list"
  p_cwd :: "nat option"
  p_name :: "uchar list"

record procs = files +
  ptab :: "nat \<Rightarrow> proc"
  cur :: nat
  initproc :: "nat option"
  nextpid :: int
  first :: bool
  trampoline :: uint64
  forkret_addr :: uint64

definition set_proc :: "nat \<Rightarrow> (proc \<Rightarrow> proc) \<Rightarrow> 'a procs_scheme \<Rightarrow> 'a procs_scheme" where
  "set_proc p f s = s\<lparr>ptab := (ptab s)(p := f (ptab s p))\<rparr>"

definition load_proc :: "nat \<Rightarrow> 'a procs_scheme \<Rightarrow> 'a procs_scheme" where
  "load_proc p s =
     (let x = ptab s p in
      s\<lparr>cur := p, pid := nat (p_pid x), upagetable := p_pagetable x, pkilled := p_killed x,
        cwd := (case p_cwd x of None \<Rightarrow> cwd s | Some i \<Rightarrow> i)\<rparr>)"

section \<open>Operations\<close>

definition proc_mapstacks :: "uint64 \<Rightarrow> phys \<Rightarrow> phys res" where
  "proc_mapstacks kpgtbl m =
     foldE (\<lambda>p m. case kalloc m of (pa, m) \<Rightarrow>
       if pa = 0 then Inl (Panic ''kalloc'')
       else kvmmap kpgtbl (KSTACK p) pa PGSIZE (PTE_R OR PTE_W) m) [0..<NPROC] m"

text \<open>
  The kernel's own page table (\<^verbatim>\<open>kernel/vm.c\<close>); \<open>etext\<close> and \<open>tramp\<close> are the addresses the linker gives to the end of the kernel's code and
  to the trampoline.
\<close>

definition kvmmake :: "uint64 \<Rightarrow> uint64 \<Rightarrow> phys \<Rightarrow> (uint64 \<times> phys) res" where
  "kvmmake etext tramp m =
     (case kalloc m of (kpgtbl, m) \<Rightarrow>
      bindE (kvmmap kpgtbl 0x10000000 0x10000000 PGSIZE (PTE_R OR PTE_W) (m\<lparr>pmem := memset (pmem m) kpgtbl 0 4096\<rparr>)) (\<lambda>m.
      bindE (kvmmap kpgtbl 0x10001000 0x10001000 PGSIZE (PTE_R OR PTE_W) m) (\<lambda>m.
      bindE (kvmmap kpgtbl 0x0c000000 0x0c000000 0x4000000 (PTE_R OR PTE_W) m) (\<lambda>m.
      bindE (kvmmap kpgtbl KERNBASE KERNBASE (etext - KERNBASE) (PTE_R OR PTE_X) m) (\<lambda>m.
      bindE (kvmmap kpgtbl etext etext (PHYSTOP - etext) (PTE_R OR PTE_W) m) (\<lambda>m.
      bindE (kvmmap kpgtbl TRAMPOLINE tramp PGSIZE (PTE_R OR PTE_X) m) (\<lambda>m.
      bindE (proc_mapstacks kpgtbl m) (\<lambda>m. Inr (kpgtbl, m)))))))))"

definition procinit :: "'a procs_scheme \<Rightarrow> 'a procs_scheme" where
  "procinit s = fold (\<lambda>p. set_proc p (\<lambda>x. x\<lparr>p_state := UNUSED, p_kstack := KSTACK p\<rparr>)) [0..<NPROC] s"

definition allocpid :: "'a procs_scheme \<Rightarrow> int \<times> 'a procs_scheme" where
  "allocpid s = (nextpid s, s\<lparr>nextpid := nextpid s + 1\<rparr>)"

definition proc_pagetable :: "nat \<Rightarrow> 'a procs_scheme \<Rightarrow> (uint64 \<times> 'a procs_scheme) res" where
  "proc_pagetable p s =
     (case uvmcreate (umem s) of (pagetable, m) \<Rightarrow>
        if pagetable = 0 then Inr (0, s\<lparr>umem := m\<rparr>)
        else bindE (mappages pagetable TRAMPOLINE PGSIZE (trampoline s) (PTE_R OR PTE_X) m) (\<lambda>(r, m).
          if r < 0 then bindE (uvmfree pagetable 0 m) (\<lambda>m. Inr (0, s\<lparr>umem := m\<rparr>))
          else bindE (mappages pagetable TRAPFRAME PGSIZE (p_trapframe (ptab s p)) (PTE_R OR PTE_W) m) (\<lambda>(r, m).
            if r < 0 then
              bindE (uvmunmap pagetable TRAMPOLINE 1 False m) (\<lambda>m.
              bindE (uvmfree pagetable 0 m) (\<lambda>m. Inr (0, s\<lparr>umem := m\<rparr>)))
            else Inr (pagetable, s\<lparr>umem := m\<rparr>))))"

definition proc_freepagetable :: "uint64 \<Rightarrow> uint64 \<Rightarrow> phys \<Rightarrow> phys res" where
  "proc_freepagetable pagetable sz m =
     bindE (uvmunmap pagetable TRAMPOLINE 1 False m) (\<lambda>m.
     bindE (uvmunmap pagetable TRAPFRAME 1 False m) (uvmfree pagetable sz))"

definition freeproc :: "nat \<Rightarrow> 'a procs_scheme \<Rightarrow> 'a procs_scheme res" where
  "freeproc p s =
     (let x = ptab s p in
      bindE (if p_trapframe x \<noteq> 0 then kfree (p_trapframe x) (umem s) else Inr (umem s)) (\<lambda>m.
      bindE (if p_pagetable x \<noteq> 0 then proc_freepagetable (p_pagetable x) (p_sz x) m else Inr m) (\<lambda>m.
      Inr (set_proc p (\<lambda>x. x\<lparr>p_trapframe := 0, p_pagetable := 0, p_sz := 0, p_pid := 0, p_parent := None,
             p_name := (p_name x)[0 := 0], p_chan := NoChan, p_killed := False, p_xstate := 0, p_state := UNUSED\<rparr>)
           (s\<lparr>umem := m\<rparr>)))))"

definition allocproc :: "'a procs_scheme \<Rightarrow> (nat option \<times> 'a procs_scheme) res" where
  "allocproc s =
     (case find (\<lambda>p. p_state (ptab s p) = UNUSED) [0..<NPROC] of
        None \<Rightarrow> Inr (None, s)
      | Some p \<Rightarrow>
          (case allocpid s of (n, s) \<Rightarrow>
           let s = set_proc p (\<lambda>x. x\<lparr>p_pid := n, p_state := USED\<rparr>) s in
           case kalloc (umem s) of (tf, m) \<Rightarrow>
           let s = set_proc p (\<lambda>x. x\<lparr>p_trapframe := tf\<rparr>) (s\<lparr>umem := m\<rparr>) in
           if tf = 0 then bindE (freeproc p s) (\<lambda>s. Inr (None, s))
           else bindE (proc_pagetable p s) (\<lambda>(pagetable, s).
             let s = set_proc p (\<lambda>x. x\<lparr>p_pagetable := pagetable\<rparr>) s in
             if pagetable = 0 then bindE (freeproc p s) (\<lambda>s. Inr (None, s))
             else Inr (Some p, set_proc p (\<lambda>x. x\<lparr>p_ra := forkret_addr s, p_sp := p_kstack x + PGSIZE\<rparr>) s))))"

text \<open>The offsets of \<^verbatim>\<open>struct trapframe\<close> the kernel uses.\<close>

abbreviation tf_epc :: uint64 where "tf_epc \<equiv> 24"
abbreviation tf_sp :: uint64 where "tf_sp \<equiv> 48"
abbreviation tf_a0 :: uint64 where "tf_a0 \<equiv> 112"
abbreviation tf_a1 :: uint64 where "tf_a1 \<equiv> 120"
abbreviation tf_a7 :: uint64 where "tf_a7 \<equiv> 168"

definition set_tf :: "nat \<Rightarrow> uint64 \<Rightarrow> uint64 \<Rightarrow> 'a procs_scheme \<Rightarrow> 'a procs_scheme" where
  "set_tf p off v s = s\<lparr>umem := (umem s)\<lparr>pmem := store64 (pmem (umem s)) (p_trapframe (ptab s p) + off) v\<rparr>\<rparr>"

definition get_tf :: "nat \<Rightarrow> uint64 \<Rightarrow> 'a procs_scheme \<Rightarrow> uint64" where
  "get_tf p off s = load64 (pmem (umem s)) (p_trapframe (ptab s p) + off)"

definition initcode :: "uchar list" where
  "initcode = [
     0x17, 0x05, 0x00, 0x00, 0x13, 0x05, 0x45, 0x02,
     0x97, 0x05, 0x00, 0x00, 0x93, 0x85, 0x35, 0x02,
     0x93, 0x08, 0x70, 0x00, 0x73, 0x00, 0x00, 0x00,
     0x93, 0x08, 0x20, 0x00, 0x73, 0x00, 0x00, 0x00,
     0xef, 0xf0, 0x9f, 0xff, 0x2f, 0x69, 0x6e, 0x69,
     0x74, 0x00, 0x00, 0x24, 0x00, 0x00, 0x00, 0x00,
     0x00, 0x00, 0x00, 0x00]"

text \<open>The bytes of a string literal.\<close>

definition bytes_of :: "string \<Rightarrow> uchar list" where
  "bytes_of xs = map of_char xs"

text \<open>What \<^verbatim>\<open>safestrcpy\<close> into the 16 bytes of a name leaves there.\<close>

definition set_name :: "cstr \<Rightarrow> uchar list \<Rightarrow> uchar list" where
  "set_name t old = (let new = safestrcpy t 16 in new @ drop (length new) old)"

definition userinit :: "'a procs_scheme \<Rightarrow> 'a procs_scheme res" where
  "userinit s =
     bindE (allocproc s) (\<lambda>(r, s).
       case r of
         None \<Rightarrow> Inl Undefined
       | Some p \<Rightarrow>
           let s = s\<lparr>initproc := Some p\<rparr> in
           bindE (uvmfirst (p_pagetable (ptab s p)) initcode (umem s)) (\<lambda>m.
           let s = set_proc p (\<lambda>x. x\<lparr>p_sz := PGSIZE\<rparr>) (s\<lparr>umem := m\<rparr>);
               s = set_tf p tf_epc 0 s;
               s = set_tf p tf_sp PGSIZE s;
               s = set_proc p (\<lambda>x. x\<lparr>p_name := set_name (cstr_of (bytes_of ''initcode'')) (p_name x)\<rparr>) s
           in bindE (namei [slash] s) (\<lambda>(ip, s).
              Inr (set_proc p (\<lambda>x. x\<lparr>p_cwd := ip, p_state := RUNNABLE\<rparr>) s))))"

definition growproc :: "int \<Rightarrow> 'a procs_scheme \<Rightarrow> (int \<times> 'a procs_scheme) res" where
  "growproc n s =
     (let p = cur s; sz = p_sz (ptab s p); pt = p_pagetable (ptab s p) in
      if n > 0 then
        bindE (uvmalloc pt sz (sz + word_of_int n) PTE_W (umem s)) (\<lambda>(sz, m).
          let s = s\<lparr>umem := m\<rparr> in
          if sz = 0 then Inr (-1, s) else Inr (0, set_proc p (\<lambda>x. x\<lparr>p_sz := sz\<rparr>) s))
      else if n < 0 then
        bindE (uvmdealloc pt sz (sz + word_of_int n) (umem s)) (\<lambda>(sz, m).
          Inr (0, set_proc p (\<lambda>x. x\<lparr>p_sz := sz\<rparr>) (s\<lparr>umem := m\<rparr>)))
      else Inr (0, s))"

definition fork :: "'a procs_scheme \<Rightarrow> (int \<times> 'a procs_scheme) res" where
  "fork s =
     (let p = cur s in
      bindE (allocproc s) (\<lambda>(r, s).
        case r of
          None \<Rightarrow> Inr (-1, s)
        | Some np \<Rightarrow>
            bindE (uvmcopy (p_pagetable (ptab s p)) (p_pagetable (ptab s np)) (p_sz (ptab s p)) (umem s)) (\<lambda>(r, m).
              let s = s\<lparr>umem := m\<rparr> in
              if r < 0 then bindE (freeproc np s) (\<lambda>s. Inr (-1, s))
              else
                let s = set_proc np (\<lambda>x. x\<lparr>p_sz := p_sz (ptab s p)\<rparr>) s;
                    s = s\<lparr>umem := (umem s)\<lparr>pmem := put_bytes (pmem (umem s)) (p_trapframe (ptab s np))
                          (get_bytes (pmem (umem s)) (p_trapframe (ptab s p)) 288)\<rparr>\<rparr>;
                    s = set_tf np tf_a0 0 s
                in bindE (foldE (\<lambda>i s.
                       case p_ofile (ptab s p) ! i of
                         None \<Rightarrow> Inr s
                       | Some f \<Rightarrow> bindE (filedup f s) (\<lambda>s. Inr (set_proc np (\<lambda>x. x\<lparr>p_ofile := (p_ofile x)[i := Some f]\<rparr>) s)))
                     [0..<NOFILE] s) (\<lambda>s.
                case p_cwd (ptab s p) of
                  None \<Rightarrow> Inl Undefined
                | Some d \<Rightarrow>
                    let s = set_proc np (\<lambda>x. x\<lparr>p_cwd := Some d\<rparr>) (idup d s);
                        s = set_proc np (\<lambda>x. x\<lparr>p_name := set_name (cstr_of (p_name (ptab s p))) (p_name x)\<rparr>) s;
                        n = p_pid (ptab s np);
                        s = set_proc np (\<lambda>x. x\<lparr>p_parent := Some p\<rparr>) s
                    in Inr (n, set_proc np (\<lambda>x. x\<lparr>p_state := RUNNABLE\<rparr>) s)))))"

definition wakeup :: "chan \<Rightarrow> 'a procs_scheme \<Rightarrow> 'a procs_scheme" where
  "wakeup ch s =
     fold (\<lambda>p s.
       if p \<noteq> cur s \<and> p_state (ptab s p) = SLEEPING \<and> p_chan (ptab s p) = ch
       then set_proc p (\<lambda>x. x\<lparr>p_state := RUNNABLE\<rparr>) s else s) [0..<NPROC] s"

definition reparent :: "nat \<Rightarrow> 'a procs_scheme \<Rightarrow> 'a procs_scheme" where
  "reparent p s =
     fold (\<lambda>pp s.
       if p_parent (ptab s pp) = Some p
       then wakeup (case initproc s of None \<Rightarrow> NoChan | Some i \<Rightarrow> ProcChan i)
              (set_proc pp (\<lambda>x. x\<lparr>p_parent := initproc s\<rparr>) s)
       else s) [0..<NPROC] s"

text \<open>\<^verbatim>\<open>exit\<close> up to the call of \<^verbatim>\<open>sched\<close>, from which it does not return.\<close>

definition exit :: "uint \<Rightarrow> 'a procs_scheme \<Rightarrow> 'a procs_scheme res" where
  "exit status s =
     (let p = cur s in
      if Some p = initproc s then Inl (Panic ''init exiting'')
      else
        bindE (foldE (\<lambda>fd s.
                 case p_ofile (ptab s p) ! fd of
                   None \<Rightarrow> Inr s
                 | Some f \<Rightarrow> bindE (fileclose f s) (\<lambda>s. Inr (set_proc p (\<lambda>x. x\<lparr>p_ofile := (p_ofile x)[fd := None]\<rparr>) s)))
               [0..<NOFILE] s) (\<lambda>s.
        bindE (begin_op s) (\<lambda>s.
        bindE (case p_cwd (ptab s p) of None \<Rightarrow> Inl Undefined | Some d \<Rightarrow> iput d s) (\<lambda>s.
        bindE (end_op s) (\<lambda>s.
        let s = set_proc p (\<lambda>x. x\<lparr>p_cwd := None\<rparr>) s;
            s = reparent p s;
            s = wakeup (case p_parent (ptab s p) of None \<Rightarrow> NoChan | Some q \<Rightarrow> ProcChan q) s
        in Inr (set_proc p (\<lambda>x. x\<lparr>p_xstate := status, p_state := ZOMBIE\<rparr>) s))))))"

text \<open>One scan of the table in \<^verbatim>\<open>wait\<close>; a scan that finds children but no zombie goes to sleep.\<close>

definition wait :: "uint64 \<Rightarrow> 'a procs_scheme \<Rightarrow> (int \<times> 'a procs_scheme) res" where
  "wait addr s =
     (let p = cur s in
      case find (\<lambda>pp. p_parent (ptab s pp) = Some p \<and> p_state (ptab s pp) = ZOMBIE) [0..<NPROC] of
        Some pp \<Rightarrow>
          let n = p_pid (ptab s pp) in
          bindE (if addr \<noteq> 0
                 then copyout (p_pagetable (ptab s p)) addr (map (put32 (\<lambda>_. 0) 0 (p_xstate (ptab s pp))) [0..<4]) (umem s)
                 else Inr (0, umem s)) (\<lambda>(r, m).
          let s = s\<lparr>umem := m\<rparr> in
          if r < 0 then Inr (-1, s) else bindE (freeproc pp s) (\<lambda>s. Inr (n, s)))
      | None \<Rightarrow>
          if \<not> (\<exists>pp \<in> set [0..<NPROC]. p_parent (ptab s pp) = Some p) \<or> p_killed (ptab s p) then Inr (-1, s)
          else Inl Sleeping)"

definition yield :: "'a procs_scheme \<Rightarrow> 'a procs_scheme" where
  "yield s = set_proc (cur s) (\<lambda>x. x\<lparr>p_state := RUNNABLE\<rparr>) s"

definition forkret :: "'a procs_scheme \<Rightarrow> 'a procs_scheme res" where
  "forkret s =
     (if first s then bindE (fsinit ROOTDEV s) (\<lambda>s. Inr (s\<lparr>first := False\<rparr>))
      else Inr s)"

definition kill :: "int \<Rightarrow> 'a procs_scheme \<Rightarrow> int \<times> 'a procs_scheme" where
  "kill n s =
     (case find (\<lambda>p. p_pid (ptab s p) = n) [0..<NPROC] of
        None \<Rightarrow> (-1, s)
      | Some p \<Rightarrow>
          (0, set_proc p (\<lambda>x. x\<lparr>p_killed := True,
                p_state := (if p_state x = SLEEPING then RUNNABLE else p_state x)\<rparr>) s))"

definition setkilled :: "nat \<Rightarrow> 'a procs_scheme \<Rightarrow> 'a procs_scheme" where
  "setkilled p s = set_proc p (\<lambda>x. x\<lparr>p_killed := True\<rparr>) s"

definition killed :: "nat \<Rightarrow> 'a procs_scheme \<Rightarrow> bool" where
  "killed p s = p_killed (ptab s p)"

text \<open>The lines \<^verbatim>\<open>procdump\<close> prints: pid, state and name.\<close>

fun state_name :: "procstate \<Rightarrow> string" where
  "state_name UNUSED = ''unused''"
| "state_name USED = ''used''"
| "state_name SLEEPING = ''sleep ''"
| "state_name RUNNABLE = ''runble''"
| "state_name RUNNING = ''run   ''"
| "state_name ZOMBIE = ''zombie''"

definition procdump :: "'a procs_scheme \<Rightarrow> (int \<times> string \<times> uchar list) list" where
  "procdump s =
     map (\<lambda>p. (p_pid (ptab s p), state_name (p_state (ptab s p)), takeWhile (\<lambda>c. c \<noteq> 0) (p_name (ptab s p))))
       (filter (\<lambda>p. p_state (ptab s p) \<noteq> UNUSED) [0..<NPROC])"

end
