(* ===== verification/Exec.thy ===== *)
theory Exec
  imports Proc
begin

text \<open>
  \<^verbatim>\<open>kernel/exec.c\<close>. The argument strings are lists of bytes without their NUL. The exits
  through the label \<open>bad\<close> are \<open>exec_bad\<close>, with the page table, the size and the locked inode there
  are at that point.
\<close>

section \<open>Operations\<close>

abbreviation MAXARG :: nat where "MAXARG \<equiv> 32"
abbreviation USERSTACK :: uint64 where "USERSTACK \<equiv> 2"

definition get64 :: "block \<Rightarrow> nat \<Rightarrow> uint64" where
  "get64 v a = of_nat (nget 8 v a)"

definition put64 :: "uint64 \<Rightarrow> uchar list" where
  "put64 x = map (nput 8 (\<lambda>_. 0) 0 (unat x)) [0..<8]"

record elfhdr =
  e_magic :: uint
  e_entry :: uint64
  e_phoff :: uint64
  e_phnum :: ushort

definition read_elfhdr :: "uchar list \<Rightarrow> elfhdr" where
  "read_elfhdr bs = (let v = cstr_of bs in
     \<lparr>e_magic = get32 v 0, e_entry = get64 v 24, e_phoff = get64 v 32, e_phnum = get16 v 56\<rparr>)"

record proghdr =
  ph_type :: uint
  ph_flags :: uint
  ph_off :: uint64
  ph_vaddr :: uint64
  ph_filesz :: uint64
  ph_memsz :: uint64

definition read_proghdr :: "uchar list \<Rightarrow> proghdr" where
  "read_proghdr bs = (let v = cstr_of bs in
     \<lparr>ph_type = get32 v 0, ph_flags = get32 v 4, ph_off = get64 v 8, ph_vaddr = get64 v 16,
      ph_filesz = get64 v 32, ph_memsz = get64 v 40\<rparr>)"

definition flags2perm :: "uint \<Rightarrow> uint64" where
  "flags2perm flags =
     (let perm = (if flags AND 1 \<noteq> 0 then PTE_X else 0)
      in if flags AND 2 \<noteq> 0 then perm OR PTE_W else perm)"

text \<open>\<^verbatim>\<open>readi\<close> into a kernel buffer.\<close>

definition readi_kern :: "nat \<Rightarrow> uint \<Rightarrow> uint \<Rightarrow> 'a procs_scheme \<Rightarrow> (int \<times> uchar list \<times> 'a procs_scheme) res" where
  "readi_kern ip off n s =
     bindE (readi ip (Kern []) off n s) (\<lambda>(r, dst, s).
       Inr (r, (case dst of Kern bs \<Rightarrow> bs | User _ \<Rightarrow> []), s))"

fun loadseg_loop :: "uint64 \<Rightarrow> uint64 \<Rightarrow> nat \<Rightarrow> uint \<Rightarrow> uint \<Rightarrow> uint list \<Rightarrow> 'a procs_scheme \<Rightarrow> (int \<times> 'a procs_scheme) res" where
  "loadseg_loop pagetable va ip offset sz [] s = Inr (0, s)"
| "loadseg_loop pagetable va ip offset sz (i # is) s =
     bindE (walkaddr pagetable (va + ucast i) (umem s)) (\<lambda>pa.
       if pa = 0 then Inl (Panic ''loadseg: address should exist'')
       else
         let n = (if sz - i < 4096 then sz - i else 4096) in
         bindE (readi_kern ip (offset + i) n s) (\<lambda>(r, bs, s).
           let s = s\<lparr>umem := (umem s)\<lparr>pmem := put_bytes (pmem (umem s)) pa bs\<rparr>\<rparr> in
           if (word_of_int r :: uint) \<noteq> n then Inr (-1, s)
           else loadseg_loop pagetable va ip offset sz is s))"

definition loadseg :: "uint64 \<Rightarrow> uint64 \<Rightarrow> nat \<Rightarrow> uint \<Rightarrow> uint \<Rightarrow> 'a procs_scheme \<Rightarrow> (int \<times> 'a procs_scheme) res" where
  "loadseg pagetable va ip offset sz s =
     loadseg_loop pagetable va ip offset sz (map (\<lambda>k. of_nat (4096 * k)) [0..<(unat sz + 4095) div 4096]) s"

text \<open>
  The loop over the program headers, at the offsets given: the new size and whether all were
  loaded.
\<close>

fun exec_load :: "uint64 \<Rightarrow> nat \<Rightarrow> uint list \<Rightarrow> uint64 \<Rightarrow> 'a procs_scheme \<Rightarrow> (bool \<times> uint64 \<times> 'a procs_scheme) res" where
  "exec_load pagetable ip [] sz s = Inr (True, sz, s)"
| "exec_load pagetable ip (off # offs) sz s =
     bindE (readi_kern ip off 56 s) (\<lambda>(r, bs, s).
       let ph = read_proghdr bs in
       if r \<noteq> 56 then Inr (False, sz, s)
       else if ph_type ph \<noteq> 1 then exec_load pagetable ip offs sz s
       else if ph_memsz ph < ph_filesz ph then Inr (False, sz, s)
       else if ph_vaddr ph + ph_memsz ph < ph_vaddr ph then Inr (False, sz, s)
       else if ph_vaddr ph mod PGSIZE \<noteq> 0 then Inr (False, sz, s)
       else bindE (uvmalloc pagetable sz (ph_vaddr ph + ph_memsz ph) (flags2perm (ph_flags ph)) (umem s)) (\<lambda>(sz1, m).
         let s = s\<lparr>umem := m\<rparr> in
         if sz1 = 0 then Inr (False, sz, s)
         else bindE (loadseg pagetable (ph_vaddr ph) ip (ucast (ph_off ph)) (ucast (ph_filesz ph)) s) (\<lambda>(r, s).
           if r < 0 then Inr (False, sz1, s)
           else exec_load pagetable ip offs sz1 s)))"

text \<open>The argument strings, pushed downwards from \<open>sp\<close>; \<open>ustack\<close> collects their addresses.\<close>

fun push_args :: "uint64 \<Rightarrow> uint64 \<Rightarrow> uchar list list \<Rightarrow> uint64 \<Rightarrow> uint64 list \<Rightarrow> phys \<Rightarrow> ((uint64 \<times> uint64 list) option \<times> phys) res" where
  "push_args pagetable stackbase [] sp ustack m = Inr (Some (sp, ustack), m)"
| "push_args pagetable stackbase (arg # argv) sp ustack m =
     (if length ustack \<ge> MAXARG then Inr (None, m)
      else
        let sp = sp - of_nat (length arg + 1);
            sp = sp - sp mod 16
        in if sp < stackbase then Inr (None, m)
           else bindE (copyout pagetable sp (arg @ [0]) m) (\<lambda>(r, m).
             if r < 0 then Inr (None, m)
             else push_args pagetable stackbase argv sp (ustack @ [sp]) m))"

definition exec_bad :: "uint64 \<Rightarrow> uint64 \<Rightarrow> nat option \<Rightarrow> 'a procs_scheme \<Rightarrow> (int \<times> 'a procs_scheme) res" where
  "exec_bad pagetable sz ip s =
     bindE (if pagetable \<noteq> 0 then proc_freepagetable pagetable sz (umem s) else Inr (umem s)) (\<lambda>m.
     let s = s\<lparr>umem := m\<rparr> in
     case ip of
       None \<Rightarrow> Inr (-1, s)
     | Some ip \<Rightarrow> bindE (iunlockput ip s) (\<lambda>s. bindE (end_op s) (\<lambda>s. Inr (-1, s))))"

text \<open>The last element of the path, for the name of the process.\<close>

definition last_elem :: "uchar list \<Rightarrow> uchar list" where
  "last_elem path = rev (takeWhile (\<lambda>c. c \<noteq> slash) (rev path))"

text \<open>The second half of \<^verbatim>\<open>exec\<close>, after the program is loaded and its inode released.\<close>

definition exec_commit :: "uchar list \<Rightarrow> uchar list list \<Rightarrow> uint64 \<Rightarrow> uint64 \<Rightarrow> uint64 \<Rightarrow> 'a procs_scheme \<Rightarrow> (int \<times> 'a procs_scheme) res" where
  "exec_commit path argv entry pagetable sz s =
     (let p = cur s; oldsz = p_sz (ptab s p); sz = PGROUNDUP sz in
      bindE (uvmalloc pagetable sz (sz + (USERSTACK + 1) * PGSIZE) PTE_W (umem s)) (\<lambda>(sz1, m).
        let s = s\<lparr>umem := m\<rparr> in
        if sz1 = 0 then exec_bad pagetable sz None s
        else
          let sz = sz1 in
          bindE (uvmclear pagetable (sz - (USERSTACK + 1) * PGSIZE) (umem s)) (\<lambda>m.
          let stackbase = sz - USERSTACK * PGSIZE in
          bindE (push_args pagetable stackbase argv sz [] m) (\<lambda>(r, m).
            let s = s\<lparr>umem := m\<rparr> in
            case r of
              None \<Rightarrow> exec_bad pagetable sz None s
            | Some (sp, ustack) \<Rightarrow>
                let argc = length ustack;
                    sp = sp - of_nat (argc + 1) * 8;
                    sp = sp - sp mod 16
                in if sp < stackbase then exec_bad pagetable sz None s
                   else bindE (copyout pagetable sp (concat (map put64 (ustack @ [0]))) (umem s)) (\<lambda>(r, m).
                     let s = s\<lparr>umem := m\<rparr> in
                     if r < 0 then exec_bad pagetable sz None s
                     else
                       let s = set_tf p tf_a1 sp s;
                           s = set_proc p (\<lambda>x. x\<lparr>p_name := set_name (cstr_of (last_elem path)) (p_name x)\<rparr>) s;
                           oldpagetable = p_pagetable (ptab s p);
                           s = set_proc p (\<lambda>x. x\<lparr>p_pagetable := pagetable, p_sz := sz\<rparr>) s;
                           s = set_tf p tf_epc entry s;
                           s = set_tf p tf_sp sp s
                       in bindE (proc_freepagetable oldpagetable oldsz (umem s)) (\<lambda>m.
                          Inr (int argc, load_proc p (s\<lparr>umem := m\<rparr>))))))))"

definition exec :: "uchar list \<Rightarrow> uchar list list \<Rightarrow> 'a procs_scheme \<Rightarrow> (int \<times> 'a procs_scheme) res" where
  "exec path argv s =
     bindE (begin_op s) (\<lambda>s.
     bindE (namei path s) (\<lambda>(r, s).
       case r of
         None \<Rightarrow> bindE (end_op s) (\<lambda>s. Inr (-1, s))
       | Some ip \<Rightarrow>
           bindE (ilock ip s) (\<lambda>s.
           bindE (readi_kern ip 0 64 s) (\<lambda>(r, bs, s).
             let elf = read_elfhdr bs in
             if r \<noteq> 64 then exec_bad 0 0 (Some ip) s
             else if e_magic elf \<noteq> 0x464C457F then exec_bad 0 0 (Some ip) s
             else bindE (proc_pagetable (cur s) s) (\<lambda>(pagetable, s).
               if pagetable = 0 then exec_bad 0 0 (Some ip) s
               else
                 bindE (exec_load pagetable ip
                          (map (\<lambda>i. ucast (e_phoff elf) + of_nat (56 * i)) [0..<unat (e_phnum elf)]) 0 s) (\<lambda>(ok, sz, s).
                   if \<not> ok then exec_bad pagetable sz (Some ip) s
                   else bindE (iunlockput ip s) (\<lambda>s.
                     bindE (end_op s) (exec_commit path argv (e_entry elf) pagetable sz))))))))"

end
