(* ===== verification/Sysfile.thy ===== *)
theory Sysfile
  imports Exec
begin

text \<open>
  The arguments of system calls (\<^verbatim>\<open>kernel/syscall.c\<close>) and the file-system calls
  (\<^verbatim>\<open>kernel/sysfile.c\<close>). A call returns the value it leaves in register \<^verbatim>\<open>a0\<close>, as an integer.
\<close>

section \<open>Arguments\<close>

abbreviation MAXPATH :: nat where "MAXPATH \<equiv> 128"

definition fetchaddr :: "uint64 \<Rightarrow> 'a procs_scheme \<Rightarrow> (int \<times> uint64) res" where
  "fetchaddr addr s =
     (let sz = p_sz (ptab s (cur s)) in
      if addr \<ge> sz \<or> addr + 8 > sz then Inr (-1, 0)
      else bindE (copyin (upagetable s) addr 8 (umem s)) (\<lambda>(r, bs).
        if r \<noteq> 0 then Inr (-1, 0) else Inr (0, get64 (cstr_of bs) 0)))"

text \<open>The string is returned without its NUL; its length is the result of \<^verbatim>\<open>strlen\<close>.\<close>

definition fetchstr :: "uint64 \<Rightarrow> nat \<Rightarrow> 'a procs_scheme \<Rightarrow> (int \<times> uchar list) res" where
  "fetchstr addr mx s =
     bindE (copyinstr (upagetable s) addr mx (umem s)) (\<lambda>(r, bs).
       if r < 0 then Inr (-1, [])
       else let str = takeWhile (\<lambda>c. c \<noteq> 0) bs in Inr (int (length str), str))"

definition argraw :: "nat \<Rightarrow> 'a procs_scheme \<Rightarrow> uint64 res" where
  "argraw n s = (if n \<le> 5 then Inr (get_tf (cur s) (tf_a0 + 8 * of_nat n) s) else Inl (Panic ''argraw''))"

definition argint :: "nat \<Rightarrow> 'a procs_scheme \<Rightarrow> int res" where
  "argint n s = bindE (argraw n s) (\<lambda>v. Inr (sint (ucast v :: uint)))"

definition argaddr :: "nat \<Rightarrow> 'a procs_scheme \<Rightarrow> uint64 res" where
  "argaddr n s = argraw n s"

definition argstr :: "nat \<Rightarrow> nat \<Rightarrow> 'a procs_scheme \<Rightarrow> (int \<times> uchar list) res" where
  "argstr n mx s = bindE (argaddr n s) (\<lambda>addr. fetchstr addr mx s)"

definition argfd :: "nat \<Rightarrow> 'a procs_scheme \<Rightarrow> (int \<times> nat) option res" where
  "argfd n s =
     bindE (argint n s) (\<lambda>fd.
       if fd < 0 \<or> fd \<ge> int NOFILE then Inr None
       else case p_ofile (ptab s (cur s)) ! nat fd of
         None \<Rightarrow> Inr None
       | Some f \<Rightarrow> Inr (Some (fd, f)))"

definition set_ofile :: "nat \<Rightarrow> nat option \<Rightarrow> 'a procs_scheme \<Rightarrow> 'a procs_scheme" where
  "set_ofile fd f s = set_proc (cur s) (\<lambda>x. x\<lparr>p_ofile := (p_ofile x)[fd := f]\<rparr>) s"

definition fdalloc :: "nat \<Rightarrow> 'a procs_scheme \<Rightarrow> int \<times> 'a procs_scheme" where
  "fdalloc f s =
     (case find (\<lambda>fd. p_ofile (ptab s (cur s)) ! fd = None) [0..<NOFILE] of
        Some fd \<Rightarrow> (int fd, set_ofile fd (Some f) s)
      | None \<Rightarrow> (-1, s))"

section \<open>Open files\<close>

definition sys_dup :: "'a procs_scheme \<Rightarrow> (int \<times> 'a procs_scheme) res" where
  "sys_dup s =
     bindE (argfd 0 s) (\<lambda>r.
       case r of
         None \<Rightarrow> Inr (-1, s)
       | Some (_, f) \<Rightarrow>
           (case fdalloc f s of (fd, s) \<Rightarrow>
              if fd < 0 then Inr (-1, s) else bindE (filedup f s) (\<lambda>s. Inr (fd, s))))"

definition sys_read :: "(nat \<Rightarrow> 'a procs_scheme devfn option) \<Rightarrow> 'a procs_scheme \<Rightarrow> (int \<times> 'a procs_scheme) res" where
  "sys_read devsw s =
     bindE (argaddr 1 s) (\<lambda>p. bindE (argint 2 s) (\<lambda>n. bindE (argfd 0 s) (\<lambda>r.
       case r of None \<Rightarrow> Inr (-1, s) | Some (_, f) \<Rightarrow> fileread devsw f p n s)))"

definition sys_write :: "(nat \<Rightarrow> 'a procs_scheme devfn option) \<Rightarrow> 'a procs_scheme \<Rightarrow> (int \<times> 'a procs_scheme) res" where
  "sys_write devsw s =
     bindE (argaddr 1 s) (\<lambda>p. bindE (argint 2 s) (\<lambda>n. bindE (argfd 0 s) (\<lambda>r.
       case r of None \<Rightarrow> Inr (-1, s) | Some (_, f) \<Rightarrow> filewrite devsw f p n s)))"

definition sys_close :: "'a procs_scheme \<Rightarrow> (int \<times> 'a procs_scheme) res" where
  "sys_close s =
     bindE (argfd 0 s) (\<lambda>r.
       case r of
         None \<Rightarrow> Inr (-1, s)
       | Some (fd, f) \<Rightarrow> bindE (fileclose f (set_ofile (nat fd) None s)) (\<lambda>s. Inr (0, s)))"

definition sys_fstat :: "uchar list \<Rightarrow> 'a procs_scheme \<Rightarrow> (int \<times> 'a procs_scheme) res" where
  "sys_fstat pad s =
     bindE (argaddr 1 s) (\<lambda>st. bindE (argfd 0 s) (\<lambda>r.
       case r of None \<Rightarrow> Inr (-1, s) | Some (_, f) \<Rightarrow> filestat pad f st s))"

definition sys_pipe :: "'a procs_scheme \<Rightarrow> (int \<times> 'a procs_scheme) res" where
  "sys_pipe s =
     bindE (argaddr 0 s) (\<lambda>fdarray.
     bindE (pipealloc s) (\<lambda>(r, s).
       case r of
         None \<Rightarrow> Inr (-1, s)
       | Some (rfile, wfile) \<Rightarrow>
           let close2 = (\<lambda>s. bindE (fileclose rfile s) (\<lambda>s. bindE (fileclose wfile s) (\<lambda>s. Inr (-1, s)))) in
           (case fdalloc rfile s of (fd0, s) \<Rightarrow>
              if fd0 < 0 then close2 s
              else case fdalloc wfile s of (fd1, s) \<Rightarrow>
                if fd1 < 0 then close2 (set_ofile (nat fd0) None s)
                else
                  let bytes = (\<lambda>fd. map (put32 (\<lambda>_. 0) 0 (word_of_int fd)) [0..<4]);
                      undo = (\<lambda>s. close2 (set_ofile (nat fd1) None (set_ofile (nat fd0) None s)))
                  in bindE (copyout (upagetable s) fdarray (bytes fd0) (umem s)) (\<lambda>(r, m).
                     let s = s\<lparr>umem := m\<rparr> in
                     if r < 0 then undo s
                     else bindE (copyout (upagetable s) (fdarray + 4) (bytes fd1) (umem s)) (\<lambda>(r, m).
                       let s = s\<lparr>umem := m\<rparr> in
                       if r < 0 then undo s else Inr (0, s))))))"

section \<open>Names\<close>

text \<open>The end of a call that fails inside its transaction.\<close>

definition fail_op :: "'a procs_scheme \<Rightarrow> (int \<times> 'a procs_scheme) res" where
  "fail_op s = bindE (end_op s) (\<lambda>s. Inr (-1, s))"

definition put_fail :: "nat \<Rightarrow> 'a procs_scheme \<Rightarrow> (int \<times> 'a procs_scheme) res" where
  "put_fail ip s = bindE (iunlockput ip s) fail_op"

definition set_nlink :: "nat \<Rightarrow> (ushort \<Rightarrow> ushort) \<Rightarrow> 'a procs_scheme \<Rightarrow> 'a procs_scheme" where
  "set_nlink ip f s = set_inode ip (\<lambda>x. x\<lparr>i_nlink := f (i_nlink x)\<rparr>) s"

definition sys_link_bad :: "nat \<Rightarrow> 'a procs_scheme \<Rightarrow> (int \<times> 'a procs_scheme) res" where
  "sys_link_bad ip s =
     bindE (ilock ip s) (\<lambda>s. bindE (iupdate ip (set_nlink ip (\<lambda>n. n - 1) s)) (put_fail ip))"

definition sys_link :: "'a procs_scheme \<Rightarrow> (int \<times> 'a procs_scheme) res" where
  "sys_link s =
     bindE (argstr 0 MAXPATH s) (\<lambda>(r, old).
     if r < 0 then Inr (-1, s)
     else bindE (argstr 1 MAXPATH s) (\<lambda>(r, new).
     if r < 0 then Inr (-1, s)
     else bindE (begin_op s) (\<lambda>s.
     bindE (namei old s) (\<lambda>(r, s).
     case r of
       None \<Rightarrow> fail_op s
     | Some ip \<Rightarrow>
         bindE (ilock ip s) (\<lambda>s.
         if i_type (itable s ip) = T_DIR then put_fail ip s
         else bindE (iupdate ip (set_nlink ip (\<lambda>n. n + 1) s)) (\<lambda>s.
         bindE (iunlock ip s) (\<lambda>s.
         bindE (nameiparent new s) (\<lambda>(r, s).
         case r of
           None \<Rightarrow> sys_link_bad ip s
         | Some (dp, name) \<Rightarrow>
             bindE (ilock dp s) (\<lambda>s.
             if i_dev (itable s dp) \<noteq> i_dev (itable s ip) then bindE (iunlockput dp s) (sys_link_bad ip)
             else bindE (dirlink dp (cstr_of name) (i_inum (itable s ip)) s) (\<lambda>(r, s).
             if r < 0 then bindE (iunlockput dp s) (sys_link_bad ip)
             else bindE (iunlockput dp s) (\<lambda>s.
             bindE (iput ip s) (\<lambda>s.
             bindE (end_op s) (\<lambda>s. Inr (0, s))))))))))))))"

fun isdirempty_loop :: "nat \<Rightarrow> uint list \<Rightarrow> 'a procs_scheme \<Rightarrow> (bool \<times> 'a procs_scheme) res" where
  "isdirempty_loop dp [] s = Inr (True, s)"
| "isdirempty_loop dp (off # offs) s =
     bindE (readi_kern dp off 16 s) (\<lambda>(r, de, s).
       if r \<noteq> 16 then Inl (Panic ''isdirempty: readi'')
       else if de_inum de \<noteq> 0 then Inr (False, s)
       else isdirempty_loop dp offs s)"

definition isdirempty :: "nat \<Rightarrow> 'a procs_scheme \<Rightarrow> (bool \<times> 'a procs_scheme) res" where
  "isdirempty dp s = isdirempty_loop dp (drop 2 (dir_offs (i_size (itable s dp)))) s"

definition sys_unlink :: "'a procs_scheme \<Rightarrow> (int \<times> 'a procs_scheme) res" where
  "sys_unlink s =
     bindE (argstr 0 MAXPATH s) (\<lambda>(r, path).
     if r < 0 then Inr (-1, s)
     else bindE (begin_op s) (\<lambda>s.
     bindE (nameiparent path s) (\<lambda>(r, s).
     case r of
       None \<Rightarrow> fail_op s
     | Some (dp, name) \<Rightarrow>
         bindE (ilock dp s) (\<lambda>s.
         if namecmp (cstr_of name) (cstr_of (bytes_of ''.'')) = 0 \<or> namecmp (cstr_of name) (cstr_of (bytes_of ''..'')) = 0
         then put_fail dp s
         else bindE (dirlookup dp (cstr_of name) s) (\<lambda>(r, s).
         case r of
           None \<Rightarrow> put_fail dp s
         | Some (ip, off) \<Rightarrow>
             bindE (ilock ip s) (\<lambda>s.
             if sint (i_nlink (itable s ip)) < 1 then Inl (Panic ''unlink: nlink < 1'')
             else bindE (if i_type (itable s ip) = T_DIR then isdirempty ip s else Inr (True, s)) (\<lambda>(empty, s).
             if \<not> empty then bindE (iunlockput ip s) (put_fail dp)
             else bindE (writei dp (Kern (replicate 16 0)) off 16 s) (\<lambda>(r, s).
             if r \<noteq> 16 then Inl (Panic ''unlink: writei'')
             else bindE (if i_type (itable s ip) = T_DIR then iupdate dp (set_nlink dp (\<lambda>n. n - 1) s) else Inr s) (\<lambda>s.
             bindE (iunlockput dp s) (\<lambda>s.
             bindE (iupdate ip (set_nlink ip (\<lambda>n. n - 1) s)) (\<lambda>s.
             bindE (iunlockput ip s) (\<lambda>s.
             bindE (end_op s) (\<lambda>s. Inr (0, s))))))))))))))"

definition create_fail :: "nat \<Rightarrow> nat \<Rightarrow> 'a procs_scheme \<Rightarrow> (nat option \<times> 'a procs_scheme) res" where
  "create_fail ip dp s =
     bindE (iupdate ip (set_nlink ip (\<lambda>_. 0) s)) (\<lambda>s.
     bindE (iunlockput ip s) (\<lambda>s.
     bindE (iunlockput dp s) (\<lambda>s. Inr (None, s))))"

text \<open>The entries of a new directory: whether both could be linked.\<close>

definition create_dots :: "ushort \<Rightarrow> nat \<Rightarrow> nat \<Rightarrow> 'a procs_scheme \<Rightarrow> (bool \<times> 'a procs_scheme) res" where
  "create_dots type ip dp s =
     (if type = T_DIR then
        bindE (dirlink ip (cstr_of (bytes_of ''.'')) (i_inum (itable s ip)) s) (\<lambda>(r, s).
        if r < 0 then Inr (False, s)
        else bindE (dirlink ip (cstr_of (bytes_of ''..'')) (i_inum (itable s dp)) s) (\<lambda>(r, s).
        Inr (r \<ge> 0, s)))
      else Inr (True, s))"

definition create :: "uchar list \<Rightarrow> ushort \<Rightarrow> ushort \<Rightarrow> ushort \<Rightarrow> 'a procs_scheme \<Rightarrow> (nat option \<times> 'a procs_scheme) res" where
  "create path type major minor s =
     bindE (nameiparent path s) (\<lambda>(r, s).
     case r of
       None \<Rightarrow> Inr (None, s)
     | Some (dp, name) \<Rightarrow>
         bindE (ilock dp s) (\<lambda>s.
         bindE (dirlookup dp (cstr_of name) s) (\<lambda>(r, s).
         case r of
           Some (ip, _) \<Rightarrow>
             bindE (iunlockput dp s) (\<lambda>s.
             bindE (ilock ip s) (\<lambda>s.
             if type = T_FILE \<and> (i_type (itable s ip) = T_FILE \<or> i_type (itable s ip) = T_DEVICE) then Inr (Some ip, s)
             else bindE (iunlockput ip s) (\<lambda>s. Inr (None, s))))
         | None \<Rightarrow>
             bindE (ialloc (i_dev (itable s dp)) type s) (\<lambda>(r, s).
             case r of
               None \<Rightarrow> bindE (iunlockput dp s) (\<lambda>s. Inr (None, s))
             | Some ip \<Rightarrow>
                 bindE (ilock ip s) (\<lambda>s.
                 bindE (iupdate ip (set_inode ip (\<lambda>x. x\<lparr>i_major := major, i_minor := minor, i_nlink := 1\<rparr>) s)) (\<lambda>s.
                 bindE (create_dots type ip dp s) (\<lambda>(ok, s).
                 if \<not> ok then create_fail ip dp s
                 else bindE (dirlink dp (cstr_of name) (i_inum (itable s ip)) s) (\<lambda>(r, s).
                 if r < 0 then create_fail ip dp s
                 else bindE (if type = T_DIR then iupdate dp (set_nlink dp (\<lambda>n. n + 1) s) else Inr s) (\<lambda>s.
                 bindE (iunlockput dp s) (\<lambda>s. Inr (Some ip, s)))))))))))"

abbreviation O_RDONLY :: uint where "O_RDONLY \<equiv> 0"
abbreviation O_WRONLY :: uint where "O_WRONLY \<equiv> 1"
abbreviation O_RDWR :: uint where "O_RDWR \<equiv> 2"
abbreviation O_CREATE :: uint where "O_CREATE \<equiv> 0x200"
abbreviation O_TRUNC :: uint where "O_TRUNC \<equiv> 0x400"

text \<open>The part of \<^verbatim>\<open>sys_open\<close> after the inode is found and locked.\<close>

definition open_inode :: "nat \<Rightarrow> uint \<Rightarrow> 'a procs_scheme \<Rightarrow> (int \<times> 'a procs_scheme) res" where
  "open_inode ip omode s =
     (if i_type (itable s ip) = T_DEVICE \<and> \<not> dev_ok (i_major (itable s ip)) then put_fail ip s
      else case filealloc s of
        (None, s) \<Rightarrow> put_fail ip s
      | (Some f, s) \<Rightarrow>
          (case fdalloc f s of (fd, s) \<Rightarrow>
             if fd < 0 then bindE (fileclose f s) (put_fail ip)
             else
               let s = (if i_type (itable s ip) = T_DEVICE
                        then set_file f (\<lambda>x. x\<lparr>f_type := FD_DEVICE, f_major := i_major (itable s ip)\<rparr>) s
                        else set_file f (\<lambda>x. x\<lparr>f_type := FD_INODE, f_off := 0\<rparr>) s);
                   s = set_file f (\<lambda>x. x\<lparr>f_ip := ip, f_readable := (omode AND O_WRONLY = 0),
                         f_writable := (omode AND O_WRONLY \<noteq> 0 \<or> omode AND O_RDWR \<noteq> 0)\<rparr>) s
               in bindE (if omode AND O_TRUNC \<noteq> 0 \<and> i_type (itable s ip) = T_FILE then itrunc ip s else Inr s) (\<lambda>s.
                  bindE (iunlock ip s) (\<lambda>s.
                  bindE (end_op s) (\<lambda>s. Inr (fd, s))))))"

definition sys_open :: "'a procs_scheme \<Rightarrow> (int \<times> 'a procs_scheme) res" where
  "sys_open s =
     bindE (argint 1 s) (\<lambda>omode.
     let omode = word_of_int omode :: uint in
     bindE (argstr 0 MAXPATH s) (\<lambda>(n, path).
     if n < 0 then Inr (-1, s)
     else bindE (begin_op s) (\<lambda>s.
     if omode AND O_CREATE \<noteq> 0 then
       bindE (create path T_FILE 0 0 s) (\<lambda>(r, s).
       case r of None \<Rightarrow> fail_op s | Some ip \<Rightarrow> open_inode ip omode s)
     else
       bindE (namei path s) (\<lambda>(r, s).
       case r of
         None \<Rightarrow> fail_op s
       | Some ip \<Rightarrow>
           bindE (ilock ip s) (\<lambda>s.
           if i_type (itable s ip) = T_DIR \<and> omode \<noteq> O_RDONLY then put_fail ip s
           else open_inode ip omode s)))))"

definition sys_mkdir :: "'a procs_scheme \<Rightarrow> (int \<times> 'a procs_scheme) res" where
  "sys_mkdir s =
     bindE (begin_op s) (\<lambda>s.
     bindE (argstr 0 MAXPATH s) (\<lambda>(n, path).
     if n < 0 then fail_op s
     else bindE (create path T_DIR 0 0 s) (\<lambda>(r, s).
     case r of
       None \<Rightarrow> fail_op s
     | Some ip \<Rightarrow> bindE (iunlockput ip s) (\<lambda>s. bindE (end_op s) (\<lambda>s. Inr (0, s))))))"

definition sys_mknod :: "'a procs_scheme \<Rightarrow> (int \<times> 'a procs_scheme) res" where
  "sys_mknod s =
     bindE (begin_op s) (\<lambda>s.
     bindE (argint 1 s) (\<lambda>major.
     bindE (argint 2 s) (\<lambda>minor.
     bindE (argstr 0 MAXPATH s) (\<lambda>(n, path).
     if n < 0 then fail_op s
     else bindE (create path T_DEVICE (word_of_int major) (word_of_int minor) s) (\<lambda>(r, s).
     case r of
       None \<Rightarrow> fail_op s
     | Some ip \<Rightarrow> bindE (iunlockput ip s) (\<lambda>s. bindE (end_op s) (\<lambda>s. Inr (0, s))))))))"

definition sys_chdir :: "'a procs_scheme \<Rightarrow> (int \<times> 'a procs_scheme) res" where
  "sys_chdir s =
     (let p = cur s in
      bindE (begin_op s) (\<lambda>s.
      bindE (argstr 0 MAXPATH s) (\<lambda>(n, path).
      if n < 0 then fail_op s
      else bindE (namei path s) (\<lambda>(r, s).
      case r of
        None \<Rightarrow> fail_op s
      | Some ip \<Rightarrow>
          bindE (ilock ip s) (\<lambda>s.
          if i_type (itable s ip) \<noteq> T_DIR then put_fail ip s
          else bindE (iunlock ip s) (\<lambda>s.
          bindE (case p_cwd (ptab s p) of None \<Rightarrow> Inl Undefined | Some d \<Rightarrow> iput d s) (\<lambda>s.
          bindE (end_op s) (\<lambda>s.
          Inr (0, load_proc p (set_proc p (\<lambda>x. x\<lparr>p_cwd := Some ip\<rparr>) s))))))))))"

text \<open>
  The argument strings of \<^verbatim>\<open>sys_exec\<close>, each in a page of its own, from index \<open>i\<close> on: whether all were
  fetched, with the pages and strings so far.
\<close>

function exec_args :: "uint64 \<Rightarrow> nat \<Rightarrow> (uint64 \<times> uchar list) list \<Rightarrow> 'a procs_scheme \<Rightarrow>
    (bool \<times> (uint64 \<times> uchar list) list \<times> 'a procs_scheme) res" where
  "exec_args uargv i argv s =
     (if i \<ge> MAXARG then Inr (False, argv, s)
      else bindE (fetchaddr (uargv + 8 * of_nat i) s) (\<lambda>(r, uarg).
        if r < 0 then Inr (False, argv, s)
        else if uarg = 0 then Inr (True, argv, s)
        else case kalloc (umem s) of (pa, m) \<Rightarrow>
          let s = s\<lparr>umem := m\<rparr> in
          if pa = 0 then Inr (False, argv, s)
          else bindE (fetchstr uarg 4096 s) (\<lambda>(n, str).
            if n < 0 then Inr (False, argv @ [(pa, str)], s)
            else
              let s = s\<lparr>umem := (umem s)\<lparr>pmem := put_bytes (pmem (umem s)) pa (str @ [0])\<rparr>\<rparr>
              in exec_args uargv (Suc i) (argv @ [(pa, str)]) s)))"
  by pat_completeness auto
termination
  by (relation "measure (\<lambda>(uargv, i, argv, s). MAXARG - i)") auto

declare exec_args.simps [simp del]

definition free_args :: "(uint64 \<times> uchar list) list \<Rightarrow> 'a procs_scheme \<Rightarrow> 'a procs_scheme res" where
  "free_args argv s = bindE (foldE (\<lambda>(pa, _). kfree pa) argv (umem s)) (\<lambda>m. Inr (s\<lparr>umem := m\<rparr>))"

definition sys_exec :: "'a procs_scheme \<Rightarrow> (int \<times> 'a procs_scheme) res" where
  "sys_exec s =
     bindE (argaddr 1 s) (\<lambda>uargv.
     bindE (argstr 0 MAXPATH s) (\<lambda>(n, path).
     if n < 0 then Inr (-1, s)
     else bindE (exec_args uargv 0 [] s) (\<lambda>(ok, argv, s).
     bindE (if ok then exec path (map snd argv) s else Inr (-1, s)) (\<lambda>(ret, s).
     bindE (free_args argv s) (\<lambda>s. Inr (ret, s))))))"

end
