(* ===== verification/Syscall.thy ===== *)
theory Syscall
  imports Sysfile
begin

text \<open>
  The process calls (\<^verbatim>\<open>kernel/sysproc.c\<close>), the dispatch of system calls (\<^verbatim>\<open>kernel/syscall.c\<close>) and
  the trap handlers (\<^verbatim>\<open>kernel/trap.c\<close>). The state adds the tick counter. The values of the machine's
  registers are arguments; the handlers of device interrupts and the tables of device routines
  are arguments too. Diagnostics on the console are left out.
\<close>

section \<open>Process calls\<close>

record kernel = procs +
  ticks :: uint

text \<open>A call gives its value, or never returns because the process has exited.\<close>

datatype 's outcome = Value int 's | Gone 's

definition sys_exit :: "'a kernel_scheme \<Rightarrow> 'a kernel_scheme outcome res" where
  "sys_exit s = bindE (argint 0 s) (\<lambda>n. bindE (exit (word_of_int n) s) (\<lambda>s. Inr (Gone s)))"

definition sys_getpid :: "'a kernel_scheme \<Rightarrow> (int \<times> 'a kernel_scheme) res" where
  "sys_getpid s = Inr (p_pid (ptab s (cur s)), s)"

definition sys_fork :: "'a kernel_scheme \<Rightarrow> (int \<times> 'a kernel_scheme) res" where
  "sys_fork s = fork s"

definition sys_wait :: "'a kernel_scheme \<Rightarrow> (int \<times> 'a kernel_scheme) res" where
  "sys_wait s = bindE (argaddr 0 s) (\<lambda>p. wait p s)"

definition sys_sbrk :: "'a kernel_scheme \<Rightarrow> (int \<times> 'a kernel_scheme) res" where
  "sys_sbrk s =
     bindE (argint 0 s) (\<lambda>n.
     let addr = p_sz (ptab s (cur s)) in
     bindE (growproc n s) (\<lambda>(r, s).
     if r < 0 then Inr (-1, s) else Inr (uint addr, s)))"

text \<open>One test of the loop of \<^verbatim>\<open>sys_sleep\<close>; the process sleeps until the next tick and tests again.\<close>

definition sleep_test :: "uint \<Rightarrow> uint \<Rightarrow> 'a kernel_scheme \<Rightarrow> (int \<times> 'a kernel_scheme) res" where
  "sleep_test ticks0 n s =
     (if ticks s - ticks0 < n then if killed (cur s) s then Inr (-1, s) else Inl Sleeping
      else Inr (0, s))"

definition sys_sleep :: "'a kernel_scheme \<Rightarrow> (int \<times> 'a kernel_scheme) res" where
  "sys_sleep s =
     bindE (argint 0 s) (\<lambda>n. let n = (if n < 0 then 0 else n) in sleep_test (ticks s) (word_of_int n) s)"

definition sys_kill :: "'a kernel_scheme \<Rightarrow> (int \<times> 'a kernel_scheme) res" where
  "sys_kill s = bindE (argint 0 s) (\<lambda>n. Inr (kill n s))"

definition sys_uptime :: "'a kernel_scheme \<Rightarrow> (int \<times> 'a kernel_scheme) res" where
  "sys_uptime s = Inr (uint (ticks s), s)"

section \<open>Dispatch\<close>

definition syscalls :: "(nat \<Rightarrow> 'a kernel_scheme devfn option) \<Rightarrow> (nat \<Rightarrow> 'a kernel_scheme devfn option) \<Rightarrow> uchar list \<Rightarrow> int \<Rightarrow>
    ('a kernel_scheme \<Rightarrow> 'a kernel_scheme outcome res) option" where
  "syscalls devr devw pad num =
     (let ret = (\<lambda>f s. bindE (f s) (\<lambda>(r, s). Inr (Value r s))) in
      if num = 1 then Some (ret sys_fork)
      else if num = 2 then Some sys_exit
      else if num = 3 then Some (ret sys_wait)
      else if num = 4 then Some (ret sys_pipe)
      else if num = 5 then Some (ret (sys_read devr))
      else if num = 6 then Some (ret sys_kill)
      else if num = 7 then Some (ret sys_exec)
      else if num = 8 then Some (ret (sys_fstat pad))
      else if num = 9 then Some (ret sys_chdir)
      else if num = 10 then Some (ret sys_dup)
      else if num = 11 then Some (ret sys_getpid)
      else if num = 12 then Some (ret sys_sbrk)
      else if num = 13 then Some (ret sys_sleep)
      else if num = 14 then Some (ret sys_uptime)
      else if num = 15 then Some (ret sys_open)
      else if num = 16 then Some (ret (sys_write devw))
      else if num = 17 then Some (ret sys_mknod)
      else if num = 18 then Some (ret sys_unlink)
      else if num = 19 then Some (ret sys_link)
      else if num = 20 then Some (ret sys_mkdir)
      else if num = 21 then Some (ret sys_close)
      else None)"

definition syscall :: "(nat \<Rightarrow> 'a kernel_scheme devfn option) \<Rightarrow> (nat \<Rightarrow> 'a kernel_scheme devfn option) \<Rightarrow> uchar list \<Rightarrow>
    'a kernel_scheme \<Rightarrow> 'a kernel_scheme outcome res" where
  "syscall devr devw pad s =
     (let p = cur s; num = sint (ucast (get_tf p tf_a7 s) :: uint) in
      case syscalls devr devw pad num of
        Some f \<Rightarrow>
          bindE (f s) (\<lambda>out.
            case out of
              Gone s \<Rightarrow> Inr (Gone s)
            | Value r s \<Rightarrow> Inr (Value r (set_tf p tf_a0 (word_of_int r) s)))
      | None \<Rightarrow> Inr (Value (-1) (set_tf p tf_a0 (-1) s)))"

section \<open>Traps\<close>

abbreviation SSTATUS_SPP :: uint64 where "SSTATUS_SPP \<equiv> 0x100"
abbreviation SSTATUS_SPIE :: uint64 where "SSTATUS_SPIE \<equiv> 0x20"
abbreviation UART0_IRQ :: uint where "UART0_IRQ \<equiv> 10"
abbreviation VIRTIO0_IRQ :: uint where "VIRTIO0_IRQ \<equiv> 1"

text \<open>The channel of \<^verbatim>\<open>&ticks\<close>.\<close>

definition ticks_chan :: chan where "ticks_chan = Chan 0"

definition clockintr :: "nat \<Rightarrow> 'a kernel_scheme \<Rightarrow> 'a kernel_scheme" where
  "clockintr cpu s = (if cpu = 0 then wakeup ticks_chan (s\<lparr>ticks := ticks s + 1\<rparr>) else s)"

text \<open>\<open>irq\<close> is what the interrupt controller reports, \<open>uart\<close> and \<open>virtio\<close> are the handlers of the devices.\<close>

definition devintr :: "('a kernel_scheme \<Rightarrow> 'a kernel_scheme) \<Rightarrow> ('a kernel_scheme \<Rightarrow> 'a kernel_scheme) \<Rightarrow> nat \<Rightarrow> uint \<Rightarrow> uint64 \<Rightarrow>
    'a kernel_scheme \<Rightarrow> int \<times> 'a kernel_scheme" where
  "devintr uart virtio cpu irq scause s =
     (if scause = 0x8000000000000009 then
        (1, if irq = UART0_IRQ then uart s else if irq = VIRTIO0_IRQ then virtio s else s)
      else if scause = 0x8000000000000005 then (2, clockintr cpu s)
      else (0, s))"

text \<open>\<^verbatim>\<open>usertrap\<close> up to \<^verbatim>\<open>usertrapret\<close>: the process goes on, or has exited.\<close>

definition usertrap :: "('a kernel_scheme \<Rightarrow> 'a kernel_scheme outcome res) \<Rightarrow> (uint64 \<Rightarrow> 'a kernel_scheme \<Rightarrow> int \<times> 'a kernel_scheme) \<Rightarrow>
    uint64 \<Rightarrow> uint64 \<Rightarrow> uint64 \<Rightarrow> 'a kernel_scheme \<Rightarrow> 'a kernel_scheme outcome res" where
  "usertrap call di sstatus sepc scause s =
     (if sstatus AND SSTATUS_SPP \<noteq> 0 then Inl (Panic ''usertrap: not from user mode'')
      else
        let p = cur s;
            s = set_tf p tf_epc sepc s;
            die = (\<lambda>s. bindE (exit (-1) s) (\<lambda>s. Inr (Gone s)));
            finish = (\<lambda>which_dev s. if killed p s then die s else Inr (Value 0 (if which_dev = (2 :: int) then yield s else s)))
        in if scause = 8 then
             if killed p s then die s
             else bindE (call (set_tf p tf_epc (get_tf p tf_epc s + 4) s)) (\<lambda>out.
               case out of Gone s \<Rightarrow> Inr (Gone s) | Value _ s \<Rightarrow> finish 0 s)
           else case di scause s of (which_dev, s) \<Rightarrow>
             if which_dev \<noteq> 0 then finish which_dev s else finish 0 (setkilled p s))"

definition MAKE_SATP :: "uint64 \<Rightarrow> uint64" where
  "MAKE_SATP pagetable = push_bit 60 8 OR drop_bit 12 pagetable"

text \<open>The trapframe fields for the next trap, and the registers for the return: \<^verbatim>\<open>sstatus\<close>, \<^verbatim>\<open>sepc\<close>, \<^verbatim>\<open>satp\<close>.\<close>

definition usertrapret :: "uint64 \<Rightarrow> uint64 \<Rightarrow> uint64 \<Rightarrow> uint64 \<Rightarrow> 'a kernel_scheme \<Rightarrow> (uint64 \<times> uint64 \<times> uint64) \<times> 'a kernel_scheme" where
  "usertrapret satp tp usertrap_addr sstatus s =
     (let p = cur s;
          s = set_tf p 0 satp s;
          s = set_tf p 8 (p_kstack (ptab s p) + PGSIZE) s;
          s = set_tf p 16 usertrap_addr s;
          s = set_tf p 32 tp s;
          x = sstatus AND NOT SSTATUS_SPP;
          x = x OR SSTATUS_SPIE
      in ((x, get_tf p tf_epc s, MAKE_SATP (p_pagetable (ptab s p))), s))"

definition kerneltrap :: "(uint64 \<Rightarrow> 'a kernel_scheme \<Rightarrow> int \<times> 'a kernel_scheme) \<Rightarrow> bool \<Rightarrow> bool \<Rightarrow> uint64 \<Rightarrow> uint64 \<Rightarrow>
    'a kernel_scheme \<Rightarrow> 'a kernel_scheme res" where
  "kerneltrap di intr_on running sstatus scause s =
     (if sstatus AND SSTATUS_SPP = 0 then Inl (Panic ''kerneltrap: not from supervisor mode'')
      else if intr_on then Inl (Panic ''kerneltrap: interrupts enabled'')
      else case di scause s of (which_dev, s) \<Rightarrow>
        if which_dev = 0 then Inl (Panic ''kerneltrap'')
        else Inr (if which_dev = 2 \<and> running then yield s else s))"

end
