(* ===== verification/FsBlocks.thy ===== *)
theory FsBlocks
  imports Fs
begin

text \<open>
  The allocation of disk blocks, over the contents of the blocks inside a transaction: what \<^verbatim>\<open>balloc\<close> and
  \<^verbatim>\<open>bfree\<close> do to the bitmap. The proofs use the log through the facts \<open>tx\<close> of its interface only.
\<close>

section \<open>Inside a transaction\<close>

lemma tx_room:
  assumes "linv s H" and "length (blocks s) < log_cap s" and "card (dom H) \<le> 1"
  shows "card (dom H) + length (blocks s) < NBUF"
proof -
  have "log_cap s \<le> 29" using lgoodD(5)[OF linvD(1)[OF assms(1)]] by (auto simp: log_cap_def)
  then show ?thesis using assms(2,3) by linarith
qed

lemma blocks_load:
  assumes "linv s H"
  shows "length (blocks s) \<le> card (set (blocks s) \<union> X)"
proof -
  have "length (blocks s) = card (set (blocks s))" using linvD(2)[OF assms] by (simp add: distinct_card)
  also have "\<dots> \<le> card (set (blocks s) \<union> X)" by (rule card_mono) simp_all
  finally show ?thesis .
qed

lemma same_fs:
  assumes "tx.same s s'"
  shows "sb s' = sb s" "itable s' = itable s" "umem s' = umem s" "upagetable s' = upagetable s" "cwd s' = cwd s" "pid s' = pid s"
    "log_cap s' = log_cap s" "larea s' = larea s" "disk s' = disk s"
proof -
  have "log.more s' = log.more s" and "pid s' = pid s" using assms by (simp_all add: tx.same_def lrest_def)
  then show "sb s' = sb s" "itable s' = itable s" "umem s' = umem s" "upagetable s' = upagetable s" "cwd s' = cwd s" "pid s' = pid s"
    by (cases s, cases s', simp)+
  show "log_cap s' = log_cap s" "larea s' = larea s" "disk s' = disk s" using assms by (simp_all add: tx.same_def)
qed

text \<open>A block is read, changed, logged and released.\<close>

lemma modify_block:
  assumes "linv s H" and "n \<notin> ran H" "n \<notin> larea s" and "length (blocks s) < log_cap s" and "card (dom H) \<le> 1"
    and f: "\<And>t. tx.same s t \<Longrightarrow> f t = v"
  shows "\<exists>s'. bindE (bread ROOTDEV n s) (\<lambda>(bp, t). bindE (log_write bp (set_data bp (f t (data (bufs t bp))) t)) (brelse bp)) = Inr s' \<and>
    linv s' H \<and> view s' = (view s)(n := v (view s n)) \<and> tx.same s s' \<and> blocks s' = (if n \<in> set (blocks s) then blocks s else blocks s @ [n])"
proof -
  obtain b s1 s2 s3 where "bread ROOTDEV n s = Inr (b, s1)" "data (bufs s1 b) = view s n" "tx.same s s1"
    "log_write b (set_data b (v (view s n)) s1) = Inr s2" "brelse b s2 = Inr s3" "linv s3 H" "view s3 = (view s)(n := v (view s n))"
    "tx.same s s3" "blocks s3 = (if n \<in> set (blocks s) then blocks s else blocks s @ [n])"
    using tx.update_block[OF assms(1-3) tx_room[OF assms(1,4,5)] assms(4), of "v (view s n)"] by blast
  then show ?thesis using f[of s1] by (intro exI[of _ s3]) simp
qed

section \<open>The bitmap\<close>

lemma bit_free_bit: "bit_free v bi \<longleftrightarrow> \<not> bit (v (bi div 8)) (bi mod 8)"
  by (simp add: bit_free_def bit_iff_and_push_bit_not_eq_0)

lemma bit_free_mark: "bit_free (mark_bit bi v) bj \<longleftrightarrow> bj \<noteq> bi \<and> bit_free v bj"
proof (cases "bj div 8 = bi div 8")
  case True
  then have "bj = bi \<longleftrightarrow> bj mod 8 = bi mod 8" by (metis div_mult_mod_eq)
  moreover have "bj mod 8 < 8" by simp
  ultimately show ?thesis using True by (auto simp: bit_free_bit mark_bit_def bit_simps)
qed (auto simp: bit_free_bit mark_bit_def)

lemma bit_free_clear: "bit_free (clear_bit bi v) bj \<longleftrightarrow> bj = bi \<or> bit_free v bj"
proof (cases "bj div 8 = bi div 8")
  case True
  then have "bj = bi \<longleftrightarrow> bj mod 8 = bi mod 8" by (metis div_mult_mod_eq)
  moreover have "bj mod 8 < 8" by simp
  ultimately show ?thesis using True by (auto simp: bit_free_bit clear_bit_def bit_simps)
qed (auto simp: bit_free_bit clear_bit_def)

lemma clear_mark: "bit_free v bi \<Longrightarrow> clear_bit bi (mark_bit bi v) = v"
proof
  fix k assume f: "bit_free v bi"
  show "clear_bit bi (mark_bit bi v) k = v k"
  proof (cases "k = bi div 8")
    case True
    then show ?thesis using f by (auto simp: clear_bit_def mark_bit_def bit_free_bit bit_simps intro!: bit_eqI)
  qed (simp add: clear_bit_def mark_bit_def)
qed

text \<open>The block is marked free in the bitmap.\<close>

definition block_free :: "superblock \<Rightarrow> (uint \<Rightarrow> block) \<Rightarrow> uint \<Rightarrow> bool" where
  "block_free sbk V b \<longleftrightarrow> bit_free (V (BBLOCK b sbk)) (unat b mod BPB)"

definition bitmap_blocks :: "superblock \<Rightarrow> uint set" where
  "bitmap_blocks sbk = {BBLOCK b sbk |b. unat b < unat (fssize sbk)}"

lemma bitmap_blocksI: "unat b < unat (fssize sbk) \<Longrightarrow> BBLOCK b sbk \<in> bitmap_blocks sbk"
  by (auto simp: bitmap_blocks_def)

lemma BBLOCK_eq: "BBLOCK a sbk = BBLOCK b sbk \<longleftrightarrow> unat a div BPB = unat b div BPB"
  unfolding BBLOCK_def add_right_cancel by (simp add: word_unat_eq_iff unat_div)

lemma same_bit: "BBLOCK a sbk = BBLOCK b sbk \<Longrightarrow> unat a mod BPB = unat b mod BPB \<longleftrightarrow> a = b"
  unfolding BBLOCK_eq by (metis div_mult_mod_eq word_unat_eq_iff)

lemma block_free_mark:
  "block_free sbk (V(BBLOCK a sbk := mark_bit (unat a mod BPB) (V (BBLOCK a sbk)))) b \<longleftrightarrow> b \<noteq> a \<and> block_free sbk V b"
  by (cases "BBLOCK b sbk = BBLOCK a sbk") (auto simp: block_free_def bit_free_mark dest: same_bit)

lemma block_free_clear:
  "block_free sbk (V(BBLOCK a sbk := clear_bit (unat a mod BPB) (V (BBLOCK a sbk)))) b \<longleftrightarrow> b = a \<or> block_free sbk V b"
  by (cases "BBLOCK b sbk = BBLOCK a sbk") (auto simp: block_free_def bit_free_clear dest: same_bit)

lemma block_free_cong:
  assumes "\<And>n. n \<in> bitmap_blocks sbk \<Longrightarrow> V' n = V n" and "unat b < unat (fssize sbk)"
  shows "block_free sbk V' b = block_free sbk V b"
proof -
  have "BBLOCK b sbk \<in> bitmap_blocks sbk" using assms(2) by (auto simp: bitmap_blocks_def)
  then show ?thesis using assms(1) by (simp add: block_free_def)
qed

text \<open>The blocks to keep clear of, the log and the blocks held, are marked in use, as are block 0 and the bitmap itself.\<close>

definition alloc_ok :: "superblock \<Rightarrow> uint set \<Rightarrow> (uint \<Rightarrow> block) \<Rightarrow> bool" where
  "alloc_ok sbk R V \<longleftrightarrow> bitmap_blocks sbk \<inter> R = {} \<and>
     (\<forall>b. unat b < unat (fssize sbk) \<longrightarrow> block_free sbk V b \<longrightarrow> b \<noteq> 0 \<and> b \<notin> R \<and> b \<notin> bitmap_blocks sbk)"

text \<open>The blocks after a block is taken, zeroed, and after it is given back.\<close>

definition zeroed :: "block \<Rightarrow> block" where
  "zeroed v = (\<lambda>i. if i < BSIZE then 0 else v i)"

definition taken :: "superblock \<Rightarrow> uint \<Rightarrow> (uint \<Rightarrow> block) \<Rightarrow> uint \<Rightarrow> block" where
  "taken sbk a V = V(BBLOCK a sbk := mark_bit (unat a mod BPB) (V (BBLOCK a sbk)), a := zeroed (V a))"

definition given_back :: "superblock \<Rightarrow> uint \<Rightarrow> (uint \<Rightarrow> block) \<Rightarrow> uint \<Rightarrow> block" where
  "given_back sbk a V = V(BBLOCK a sbk := clear_bit (unat a mod BPB) (V (BBLOCK a sbk)))"

lemma bzero_ok:
  assumes "linv s H" and "b \<notin> ran H \<union> larea s" and "length (blocks s) < log_cap s" and "card (dom H) \<le> 1"
  shows "\<exists>s'. bzero ROOTDEV b s = Inr s' \<and> linv s' H \<and> view s' = (view s)(b := zeroed (view s b)) \<and> tx.same s s' \<and> set (blocks s') = insert b (set (blocks s))"
  using modify_block[OF assms(1) _ _ assms(3,4), of b "\<lambda>_. zeroed" zeroed] assms(2) by (auto simp: bzero_def zeroed_def insert_absorb)

lemma bfree_ok:
  assumes "linv s H" and "BBLOCK b (sb s) \<notin> ran H \<union> larea s" and "length (blocks s) < log_cap s" and "card (dom H) \<le> 1" and "\<not> block_free (sb s) (view s) b"
  shows "\<exists>s'. bfree ROOTDEV b s = Inr s' \<and> linv s' H \<and> view s' = given_back (sb s) b (view s) \<and> tx.same s s' \<and> set (blocks s') = insert (BBLOCK b (sb s)) (set (blocks s))"
proof -
  let ?n = "BBLOCK b (sb s)" and ?v = "clear_bit (unat b mod BPB) (view s (BBLOCK b (sb s)))"
  obtain bp s1 s2 s3 where "bread ROOTDEV ?n s = Inr (bp, s1)" "data (bufs s1 bp) = view s ?n" "log_write bp (set_data bp ?v s1) = Inr s2"
    "brelse bp s2 = Inr s3" "linv s3 H" "view s3 = (view s)(?n := ?v)" "tx.same s s3" "blocks s3 = (if ?n \<in> set (blocks s) then blocks s else blocks s @ [?n])"
    using tx.update_block[OF assms(1) _ _ tx_room[OF assms(1,3,4)] assms(3), of ?n ?v] assms(2) by blast
  then show ?thesis using assms(5) by (intro exI[of _ s3]) (auto simp: bfree_def block_free_def given_back_def Let_def)
qed

text \<open>The block \<open>b + bi\<close> of the bit \<open>bi\<close> of the bitmap block for the blocks from \<open>b\<close> on.\<close>

lemma scan_block:
  assumes "b mod BPB = 0" and "bi < min BPB (unat (fssize sbk) - b)"
  shows "unat (of_nat (b + bi) :: uint) = b + bi" and "BBLOCK (of_nat (b + bi)) sbk = BBLOCK (of_nat b) sbk"
    and "unat (of_nat (b + bi) :: uint) mod BPB = bi"
proof -
  have lt: "b + bi < unat (fssize sbk)" "bi < BPB" using assms(2) by auto
  then have "b + bi < 2 ^ 32" using unat_lt32[of "fssize sbk"] by linarith
  then show u: "unat (of_nat (b + bi) :: uint) = b + bi" by (intro unat_of_nat_small) simp
  have u': "unat (of_nat b :: uint) = b" using \<open>b + bi < 2 ^ 32\<close> by (intro unat_of_nat_small) simp
  have "(b + bi) div BPB = b div BPB" using lt(2) assms(1) by (simp add: div_add1_eq)
  then show "BBLOCK (of_nat (b + bi)) sbk = BBLOCK (of_nat b) sbk" unfolding BBLOCK_eq u u' .
  show "unat (of_nat (b + bi) :: uint) mod BPB = bi" unfolding u using lt(2) assms(1) by (simp add: mod_add_eq[symmetric, of b])
qed

lemma balloc_scan:
  assumes "linv s H" and "card (set (blocks s) \<union> bitmap_blocks (sb s)) < log_cap s" and "card (dom H) \<le> 1"
    and "alloc_ok (sb s) (ran H \<union> larea s) (view s)" and "\<forall>b \<in> set bs. b mod BPB = 0 \<and> b < unat (fssize (sb s))"
  shows "\<exists>a s'. balloc_loop ROOTDEV bs s = Inr (a, s') \<and> linv s' H \<and> tx.same s s' \<and>
    (if a = 0 then view s' = view s \<and> blocks s' = blocks s \<and>
         (\<forall>x. unat x < unat (fssize (sb s)) \<longrightarrow> (\<exists>b \<in> set bs. unat x div BPB = b div BPB) \<longrightarrow> \<not> block_free (sb s) (view s) x)
     else unat a < unat (fssize (sb s)) \<and> block_free (sb s) (view s) a \<and> view s' = taken (sb s) a (view s) \<and>
         set (blocks s') = {BBLOCK a (sb s), a} \<union> set (blocks s))"
  using assms
proof (induction bs arbitrary: s)
  case (Cons b bs)
  note i = Cons.prems(1) and room = Cons.prems(2) and dm = Cons.prems(3) and ok = Cons.prems(4)
  have b: "b mod BPB = 0" "b < unat (fssize (sb s))" using Cons.prems(5) by simp_all
  let ?n = "BBLOCK (of_nat b) (sb s)" and ?sz = "unat (fssize (sb s))"
  let ?l = "[0..<min BPB (?sz - b)]" and ?free = "bit_free (view s ?n)"
  have ub: "unat (of_nat b :: uint) = b" using scan_block(1)[OF b(1), of 0 "sb s"] b(2) by simp
  have bm: "?n \<in> bitmap_blocks (sb s)" by (rule bitmap_blocksI) (use ub b(2) in simp)
  then have n: "?n \<notin> ran H" "?n \<notin> larea s" using ok by (auto simp: alloc_ok_def)
  have cap: "length (blocks s) < log_cap s" using room blocks_load[OF i, of "bitmap_blocks (sb s)"] by simp
  show ?case
  proof (cases "find ?free ?l")
    case None
    have none: "\<not> block_free (sb s) (view s) x" if x: "unat x < ?sz" "unat x div BPB = b div BPB" for x
    proof -
      have d: "unat x = b + unat x mod BPB" using x(2) b(1) div_mult_mod_eq[of "unat x" BPB] div_mult_mod_eq[of b BPB] by linarith
      have "unat x mod BPB < BPB" by (rule mod_less_divisor) simp
      then have "unat x mod BPB < min BPB (?sz - b)" using d x(1) by simp
      then have "unat x mod BPB \<in> set ?l" by simp
      then have "\<not> ?free (unat x mod BPB)" using None by (auto simp: find_None_iff)
      moreover have "BBLOCK x (sb s) = ?n" using x(2) ub by (simp add: BBLOCK_eq)
      ultimately show ?thesis by (simp add: block_free_def)
    qed
    obtain bp s1 s2 where r: "bread ROOTDEV ?n s = Inr (bp, s1)" "data (bufs s1 bp) = view s ?n" "tx.same s s1" "brelse bp s1 = Inr s2"
      "linv s2 H" "view s2 = view s" "blocks s2 = blocks s" "tx.same s s2"
      using tx.read_block[OF i n tx_room[OF i cap dm]] by blast
    note f1 = same_fs[OF r(3)] and f2 = same_fs[OF r(8)]
    have st: "balloc_loop ROOTDEV (b # bs) s = balloc_loop ROOTDEV bs s2" using r None f1 by simp
    have "alloc_ok (sb s2) (ran H \<union> larea s2) (view s2)" using ok f2 r(6) by simp
    moreover have "card (set (blocks s2) \<union> bitmap_blocks (sb s2)) < log_cap s2" using room r(7) f2 by simp
    moreover have "\<forall>b \<in> set bs. b mod BPB = 0 \<and> b < unat (fssize (sb s2))" using Cons.prems(5) f2 by simp
    ultimately obtain a s' where a: "balloc_loop ROOTDEV bs s2 = Inr (a, s')" "linv s' H" "tx.same s2 s'"
      "if a = 0 then view s' = view s2 \<and> blocks s' = blocks s2 \<and>
         (\<forall>x. unat x < unat (fssize (sb s2)) \<longrightarrow> (\<exists>b \<in> set bs. unat x div BPB = b div BPB) \<longrightarrow> \<not> block_free (sb s2) (view s2) x)
       else unat a < unat (fssize (sb s2)) \<and> block_free (sb s2) (view s2) a \<and> view s' = taken (sb s2) a (view s2) \<and>
         set (blocks s') = {BBLOCK a (sb s2), a} \<union> set (blocks s2)"
      using Cons.IH[OF r(5) _ dm] by blast
    then show ?thesis unfolding st using none r(6,7) f2(1) tx.same_trans[OF r(8) a(3)]
      by (intro exI[of _ a] exI[of _ s']) (auto split: if_splits)
  next
    case (Some bi)
    then have bi: "bi < min BPB (?sz - b)" "?free bi" by (auto simp: find_Some_iff)
    let ?a = "of_nat (b + bi) :: uint" and ?v = "mark_bit bi (view s ?n)"
    note sc = scan_block[OF b(1) bi(1)]
    have a: "unat ?a < ?sz" "block_free (sb s) (view s) ?a"
      using sc bi by (auto simp: block_free_def)
    then have fr: "?a \<noteq> 0" "?a \<notin> ran H" "?a \<notin> larea s" "?a \<notin> bitmap_blocks (sb s)" using ok unfolding alloc_ok_def by blast+
    have ne: "?n \<noteq> ?a" using fr(4) bm by metis
    obtain bp s1 s2 s3 where r: "bread ROOTDEV ?n s = Inr (bp, s1)" "data (bufs s1 bp) = view s ?n" "tx.same s s1"
      "log_write bp (set_data bp ?v s1) = Inr s2" "brelse bp s2 = Inr s3" "linv s3 H" "view s3 = (view s)(?n := ?v)" "tx.same s s3"
      "blocks s3 = (if ?n \<in> set (blocks s) then blocks s else blocks s @ [?n])"
      using tx.update_block[OF i n tx_room[OF i cap dm] cap, of ?v] by blast
    note f1 = same_fs[OF r(3)] and f3 = same_fs[OF r(8)]
    have b3: "set (blocks s3) = insert ?n (set (blocks s))" using r(9) by auto
    then have "set (blocks s3) \<union> bitmap_blocks (sb s) = set (blocks s) \<union> bitmap_blocks (sb s)" using bm by auto
    then have "length (blocks s3) < log_cap s3" using room f3 blocks_load[OF r(6), of "bitmap_blocks (sb s)"] by simp
    then obtain s4 where z: "bzero ROOTDEV ?a s3 = Inr s4" "linv s4 H" "view s4 = (view s3)(?a := zeroed (view s3 ?a))" "tx.same s3 s4"
      "set (blocks s4) = insert ?a (set (blocks s3))"
      using bzero_ok[OF r(6) _ _ dm, of ?a] fr f3 by auto
    have "balloc_loop ROOTDEV (b # bs) s = Inr (?a, s4)" using r Some f1 z(1) by simp
    moreover have "view s4 = taken (sb s) ?a (view s)" unfolding z(3) r(7) taken_def sc(2,3) using ne by simp
    moreover have "set (blocks s4) = {BBLOCK ?a (sb s), ?a} \<union> set (blocks s)" unfolding z(5) b3 sc(2) by auto
    ultimately show ?thesis using a fr(1) z(2) tx.same_trans[OF r(8) z(4)]
      by (intro exI[of _ ?a] exI[of _ s4]) simp
  qed
qed simp

lemma balloc_ok:
  assumes "linv s H" and "card (set (blocks s) \<union> bitmap_blocks (sb s)) < log_cap s" and "card (dom H) \<le> 1" and "alloc_ok (sb s) (ran H \<union> larea s) (view s)"
  shows "\<exists>a s'. balloc ROOTDEV s = Inr (a, s') \<and> linv s' H \<and> tx.same s s' \<and>
    (if a = 0 then view s' = view s \<and> blocks s' = blocks s \<and> (\<forall>x. unat x < unat (fssize (sb s)) \<longrightarrow> \<not> block_free (sb s) (view s) x)
     else unat a < unat (fssize (sb s)) \<and> block_free (sb s) (view s) a \<and> view s' = taken (sb s) a (view s) \<and>
         set (blocks s') = {BBLOCK a (sb s), a} \<union> set (blocks s))"
proof -
  let ?sz = "unat (fssize (sb s))"
  let ?bs = "map (\<lambda>i. BPB * i) [0..<(?sz + (BPB - 1)) div BPB]"
  have bs: "\<forall>b \<in> set ?bs. b mod BPB = 0 \<and> b < ?sz"
  proof
    fix b assume "b \<in> set ?bs"
    then obtain i where i: "b = BPB * i" "i < (?sz + (BPB - 1)) div BPB" by auto
    then have "Suc i * BPB \<le> ?sz + (BPB - 1)" using less_eq_div_iff_mult_less_eq[of BPB "Suc i" "?sz + (BPB - 1)"] by simp
    then show "b mod BPB = 0 \<and> b < ?sz" using i(1) by simp
  qed
  have all: "\<exists>b \<in> set ?bs. unat x div BPB = b div BPB" if "unat x < ?sz" for x :: uint
  proof -
    have "Suc (unat x div BPB) * BPB \<le> ?sz + (BPB - 1)" using that div_times_less_eq_dividend[of "unat x" BPB] by simp
    then have "unat x div BPB < (?sz + (BPB - 1)) div BPB" using less_eq_div_iff_mult_less_eq[of BPB "Suc (unat x div BPB)" "?sz + (BPB - 1)"] by simp
    then show ?thesis by (intro bexI[of _ "BPB * (unat x div BPB)"]) auto
  qed
  obtain a s' where "balloc_loop ROOTDEV ?bs s = Inr (a, s')" "linv s' H" "tx.same s s'"
    "if a = 0 then view s' = view s \<and> blocks s' = blocks s \<and>
         (\<forall>x. unat x < ?sz \<longrightarrow> (\<exists>b \<in> set ?bs. unat x div BPB = b div BPB) \<longrightarrow> \<not> block_free (sb s) (view s) x)
     else unat a < ?sz \<and> block_free (sb s) (view s) a \<and> view s' = taken (sb s) a (view s) \<and> set (blocks s') = {BBLOCK a (sb s), a} \<union> set (blocks s)"
    using balloc_scan[OF assms bs] by blast
  then show ?thesis using all unfolding balloc_def by (intro exI[of _ a] exI[of _ s']) (auto split: if_splits)
qed

end
