(* ===== verification/FsMap.thy ===== *)
theory FsMap
  imports FsBlocks
begin

text \<open>
  The blocks of an inode, direct and through the indirect block, and the proof that \<^verbatim>\<open>bmap\<close> keeps them apart from the
  blocks of everything else.
\<close>

section \<open>The blocks of an inode\<close>

text \<open>
  The slots of an inode: 0 to 11 hold the direct blocks, 12 the indirect block, 13 to 268 are in the indirect block.
\<close>

abbreviation NSLOT :: nat where "NSLOT \<equiv> NDIRECT + 1 + NINDIRECT"

definition slot :: "(uint \<Rightarrow> block) \<Rightarrow> uint list \<Rightarrow> nat \<Rightarrow> uint" where
  "slot V A k = (if k \<le> NDIRECT then A ! k else if A ! NDIRECT = 0 then 0 else get32 (V (A ! NDIRECT)) (4 * (k - 13)))"

definition indirect :: "uint list \<Rightarrow> uint set" where
  "indirect A = {A ! NDIRECT} - {0}"

definition owned :: "(uint \<Rightarrow> block) \<Rightarrow> uint list \<Rightarrow> uint set" where
  "owned V A = slot V A ` {..<NSLOT} - {0}"

definition map_ok :: "superblock \<Rightarrow> uint set \<Rightarrow> (uint \<Rightarrow> block) \<Rightarrow> uint list \<Rightarrow> bool" where
  "map_ok sbk R V A \<longleftrightarrow> length A = NDIRECT + 1 \<and>
     (\<forall>j < NSLOT. \<forall>k < NSLOT. slot V A j = slot V A k \<longrightarrow> slot V A j \<noteq> 0 \<longrightarrow> j = k) \<and>
     (\<forall>b \<in> owned V A. unat b < unat (fssize sbk) \<and> \<not> block_free sbk V b \<and> b \<notin> R \<and> b \<notin> bitmap_blocks sbk)"

text \<open>A block that may be given out.\<close>

abbreviation available :: "superblock \<Rightarrow> (uint \<Rightarrow> block) \<Rightarrow> uint \<Rightarrow> bool" where
  "available sbk V b \<equiv> unat b < unat (fssize sbk) \<and> block_free sbk V b"

text \<open>
  What \<^verbatim>\<open>bmap\<close> may do: fill slots with available blocks full of zeros, and change nothing else but the bitmap and the indirect block.
\<close>

definition gained :: "superblock \<Rightarrow> (uint \<Rightarrow> block) \<Rightarrow> uint list \<Rightarrow> (uint \<Rightarrow> block) \<Rightarrow> uint list \<Rightarrow> bool" where
  "gained sbk V A V' A' \<longleftrightarrow>
     (\<forall>k < NSLOT. slot V A k \<noteq> 0 \<longrightarrow> slot V' A' k = slot V A k) \<and>
     (\<forall>b. available sbk V' b \<longleftrightarrow> available sbk V b \<and> b \<notin> owned V' A') \<and>
     (\<forall>b. \<not> available sbk V b \<longrightarrow> b \<notin> bitmap_blocks sbk \<longrightarrow> b \<notin> indirect A \<longrightarrow> V' b = V b) \<and>
     (\<forall>k < NSLOT. slot V A k = 0 \<longrightarrow> slot V' A' k \<noteq> 0 \<longrightarrow>
        available sbk V (slot V' A' k) \<and> (k \<noteq> NDIRECT \<longrightarrow> (\<forall>i < BSIZE. V' (slot V' A' k) i = 0)))"

lemma ownedI: "k < NSLOT \<Longrightarrow> slot V A k \<noteq> 0 \<Longrightarrow> slot V A k \<in> owned V A"
  by (auto simp: owned_def)

lemma map_okD:
  assumes "map_ok sbk R V A"
  shows "length A = NDIRECT + 1"
    and "j < NSLOT \<Longrightarrow> k < NSLOT \<Longrightarrow> slot V A j = slot V A k \<Longrightarrow> slot V A j \<noteq> 0 \<Longrightarrow> j = k"
    and "b \<in> owned V A \<Longrightarrow> unat b < unat (fssize sbk) \<and> \<not> block_free sbk V b \<and> b \<notin> R \<and> b \<notin> bitmap_blocks sbk"
  using assms unfolding map_ok_def by blast+

lemma indirect_owned: "b \<in> indirect A \<Longrightarrow> b \<in> owned V A"
  using ownedI[of NDIRECT V A] by (auto simp: slot_def indirect_def)

text \<open>One slot is filled with an available block.\<close>

definition fills :: "superblock \<Rightarrow> nat \<Rightarrow> uint \<Rightarrow> (uint \<Rightarrow> block) \<Rightarrow> uint list \<Rightarrow> (uint \<Rightarrow> block) \<Rightarrow> uint list \<Rightarrow> bool" where
  "fills sbk k a V A V' A' \<longleftrightarrow> available sbk V a \<and> k < NSLOT \<and> slot V A k = 0 \<and> length A' = length A \<and>
     (\<forall>j < NSLOT. slot V' A' j = (if j = k then a else slot V A j)) \<and>
     V' (BBLOCK a sbk) = mark_bit (unat a mod BPB) (V (BBLOCK a sbk)) \<and>
     (\<forall>b. b \<noteq> a \<longrightarrow> b \<noteq> BBLOCK a sbk \<longrightarrow> b \<notin> indirect A \<longrightarrow> V' b = V b) \<and>
     (\<forall>i < BSIZE. V' a i = 0)"

lemma fresh_block:
  assumes "map_ok sbk R V A" and "alloc_ok sbk R V" and "available sbk V a"
  shows "a \<noteq> 0" "a \<notin> R" "a \<notin> bitmap_blocks sbk" "a \<notin> owned V A"
  using assms(2,3) map_okD(3)[OF assms(1), of a] unfolding alloc_ok_def by blast+

lemma fills_free:
  assumes "map_ok sbk R V A" and "alloc_ok sbk R V" and "fills sbk k a V A V' A'" and "unat b < unat (fssize sbk)"
  shows "block_free sbk V' b \<longleftrightarrow> b \<noteq> a \<and> block_free sbk V b"
proof -
  let ?W = "V(BBLOCK a sbk := mark_bit (unat a mod BPB) (V (BBLOCK a sbk)))"
  have a: "available sbk V a" using assms(3) by (simp add: fills_def)
  have ind: "indirect A \<inter> bitmap_blocks sbk = {}" using map_okD(3)[OF assms(1)] indirect_owned by blast
  have "V' n = ?W n" if "n \<in> bitmap_blocks sbk" for n
    using that assms(3) ind fresh_block(3)[OF assms(1,2) a] unfolding fills_def by auto
  then have "block_free sbk V' b = block_free sbk ?W b" using assms(4) by (intro block_free_cong)
  then show ?thesis by (simp add: block_free_mark)
qed

lemma fills_ok:
  assumes ok: "map_ok sbk R V A" "alloc_ok sbk R V" and f: "fills sbk k a V A V' A'"
  shows "map_ok sbk R V' A' \<and> alloc_ok sbk R V' \<and> gained sbk V A V' A' \<and> owned V' A' = insert a (owned V A)"
proof (intro conjI)
  have a: "available sbk V a" and k: "k < NSLOT" "slot V A k = 0" and sl: "\<And>j. j < NSLOT \<Longrightarrow> slot V' A' j = (if j = k then a else slot V A j)"
    using f by (simp_all add: fills_def)
  note fr = fresh_block[OF ok a] and free = fills_free[OF ok f]
  have avail: "available sbk V' b \<longleftrightarrow> b \<noteq> a \<and> available sbk V b" for b using free by blast
  show ow: "owned V' A' = insert a (owned V A)"
  proof -
    have "slot V' A' ` {..<NSLOT} = insert a (slot V A ` ({..<NSLOT} - {k}))" using sl k(1) by (auto simp: image_iff)
    moreover have "slot V A ` {..<NSLOT} - {0} = slot V A ` ({..<NSLOT} - {k}) - {0}" using k by auto
    ultimately show ?thesis unfolding owned_def using fr(1) by auto
  qed
  have new: "slot V A j \<noteq> a" if "j < NSLOT" for j using ownedI[OF that, of V A] fr(1,4) by auto
  show "map_ok sbk R V' A'" unfolding map_ok_def
  proof (intro conjI allI impI ballI)
    show "length A' = NDIRECT + 1" using map_okD(1)[OF ok(1)] f by (simp add: fills_def)
    fix i j assume "i < NSLOT" "j < NSLOT" "slot V' A' i = slot V' A' j" "slot V' A' i \<noteq> 0"
    then show "i = j" using sl[of i] sl[of j] new[of i] new[of j] map_okD(2)[OF ok(1), of i j] by (auto split: if_splits)
  next
    fix b assume b: "b \<in> owned V' A'"
    then show l: "unat b < unat (fssize sbk)" using a map_okD(3)[OF ok(1), of b] unfolding ow by auto
    show "\<not> block_free sbk V' b" using b map_okD(3)[OF ok(1), of b] free[OF l] unfolding ow by auto
    show "b \<notin> R" "b \<notin> bitmap_blocks sbk" using b map_okD(3)[OF ok(1), of b] fr unfolding ow by auto
  qed
  show "alloc_ok sbk R V'" using ok(2) free unfolding alloc_ok_def by blast
  show "gained sbk V A V' A'" unfolding gained_def
  proof (intro conjI allI impI)
    fix j assume "j < NSLOT" "slot V A j \<noteq> 0"
    then show "slot V' A' j = slot V A j" using sl k(2) by auto
  next
    fix b show "available sbk V' b \<longleftrightarrow> available sbk V b \<and> b \<notin> owned V' A'"
      unfolding ow avail using map_okD(3)[OF ok(1), of b] by auto
  next
    fix b assume "\<not> available sbk V b" "b \<notin> bitmap_blocks sbk" "b \<notin> indirect A"
    moreover have "BBLOCK a sbk \<in> bitmap_blocks sbk" using a by (simp add: bitmap_blocksI)
    ultimately show "V' b = V b" using f a unfolding fills_def by metis
  next
    fix j i assume j: "j < NSLOT" "slot V A j = 0" "slot V' A' j \<noteq> 0"
    then have "j = k" using sl by (auto split: if_splits)
    then have e: "slot V' A' j = a" using sl k(1) by simp
    show "unat (slot V' A' j) < unat (fssize sbk)" "block_free sbk V (slot V' A' j)" using a e by simp_all
    assume "i < BSIZE"
    then show "V' (slot V' A' j) i = 0" using f e by (simp add: fills_def)
  qed
qed

lemma gainedD:
  assumes "gained sbk V A V' A'"
  shows "k < NSLOT \<Longrightarrow> slot V A k \<noteq> 0 \<Longrightarrow> slot V' A' k = slot V A k" "available sbk V' b \<longleftrightarrow> available sbk V b \<and> b \<notin> owned V' A'"
    "\<not> available sbk V b \<Longrightarrow> b \<notin> bitmap_blocks sbk \<Longrightarrow> b \<notin> indirect A \<Longrightarrow> V' b = V b"
    "k < NSLOT \<Longrightarrow> slot V A k = 0 \<Longrightarrow> slot V' A' k \<noteq> 0 \<Longrightarrow> available sbk V (slot V' A' k)"
    "k < NSLOT \<Longrightarrow> slot V A k = 0 \<Longrightarrow> slot V' A' k \<noteq> 0 \<Longrightarrow> k \<noteq> NDIRECT \<Longrightarrow> i < BSIZE \<Longrightarrow> V' (slot V' A' k) i = 0"
  using assms unfolding gained_def by blast+

lemma gained_refl: "map_ok sbk R V A \<Longrightarrow> gained sbk V A V A"
  using map_okD(3)[of sbk R V A] unfolding gained_def by blast

lemma gained_trans:
  assumes "map_ok sbk R V A" and "gained sbk V A V' A'" and "map_ok sbk R V' A'" and "gained sbk V' A' V'' A''"
  shows "gained sbk V A V'' A''"
proof -
  note g1 = gainedD[OF assms(2)] and g2 = gainedD[OF assms(4)]
  have sub: "owned V' A' \<subseteq> owned V'' A''"
  proof
    fix b assume "b \<in> owned V' A'"
    then obtain k where "k < NSLOT" "b = slot V' A' k" "b \<noteq> 0" by (auto simp: owned_def)
    then show "b \<in> owned V'' A''" using g2(1)[of k] ownedI[of k V'' A''] by simp
  qed
  have ind: "b \<in> indirect A' \<Longrightarrow> b \<notin> indirect A \<Longrightarrow> available sbk V b" for b
    using g1(1,4)[of NDIRECT] by (auto simp: indirect_def slot_def)
  have keep: "V'' (slot V' A' k) = V' (slot V' A' k)" if k: "k < NSLOT" "slot V' A' k \<noteq> 0" "k \<noteq> NDIRECT" for k
  proof -
    have o: "slot V' A' k \<in> owned V' A'" using k by (intro ownedI)
    have "slot V' A' k \<notin> indirect A'" using map_okD(2)[OF assms(3), of k NDIRECT] k by (auto simp: indirect_def slot_def split: if_splits)
    then show ?thesis using g2(3) map_okD(3)[OF assms(3) o] by blast
  qed
  show ?thesis unfolding gained_def
  proof (intro conjI allI impI)
    fix k assume "k < NSLOT" "slot V A k \<noteq> 0"
    then show "slot V'' A'' k = slot V A k" using g1(1) g2(1) by simp
  next
    fix b show "available sbk V'' b \<longleftrightarrow> available sbk V b \<and> b \<notin> owned V'' A''" using g1(2) g2(2) sub by blast
  next
    fix b assume "\<not> available sbk V b" "b \<notin> bitmap_blocks sbk" "b \<notin> indirect A"
    then show "V'' b = V b" using g1(2,3)[of b] g2(3)[of b] ind[of b] by metis
  next
    fix k i assume k: "k < NSLOT" "slot V A k = 0" "slot V'' A'' k \<noteq> 0"
    have "available sbk V (slot V'' A'' k)"
      using g1(4)[OF k(1,2)] g2(1)[OF k(1)] g2(4)[OF k(1) _ k(3)] g1(2) by (cases "slot V' A' k = 0") auto
    then show "unat (slot V'' A'' k) < unat (fssize sbk)" "block_free sbk V (slot V'' A'' k)" by simp_all
    assume i: "k \<noteq> NDIRECT" "i < BSIZE"
    then show "V'' (slot V'' A'' k) i = 0"
      using g1(5)[OF k(1,2)] g2(1)[OF k(1)] g2(5)[OF k(1) _ k(3)] keep[OF k(1)] by (cases "slot V' A' k = 0") auto
  qed
qed

text \<open>The two ways to fill a slot.\<close>

lemma taken_other: "b \<noteq> a \<Longrightarrow> b \<noteq> BBLOCK a sbk \<Longrightarrow> taken sbk a V b = V b"
  by (simp add: taken_def)

lemma fill_direct:
  assumes ok: "map_ok sbk R V A" "alloc_ok sbk R V" and a: "available sbk V a" and k: "k \<le> NDIRECT" "A ! k = 0"
  shows "fills sbk k a V A (taken sbk a V) (A[k := a])"
proof -
  note fr = fresh_block[OF ok a]
  have bm: "BBLOCK a sbk \<in> bitmap_blocks sbk" using a by (simp add: bitmap_blocksI)
  then have ne: "BBLOCK a sbk \<noteq> a" using fr(3) by auto
  have len: "length A = 13" using map_okD(1)[OF ok(1)] by simp
  have "slot (taken sbk a V) (A[k := a]) j = (if j = k then a else slot V A j)" if j: "j < NSLOT" for j
  proof (cases "j \<le> NDIRECT")
    case True
    then show ?thesis using len k(1) by (simp add: slot_def nth_list_update)
  next
    case False
    then have jk: "j \<noteq> k" using k(1) by simp
    show ?thesis
    proof (cases "k = NDIRECT")
      case True
      have "get32 (taken sbk a V a) (4 * (j - 13)) = get32 (\<lambda>_. 0) (4 * (j - 13))"
        using j False by (intro get32_cong) (auto simp: taken_def zeroed_def)
      then show ?thesis using False jk True k(2) len by (simp add: slot_def)
    next
      case kn: False
      then have i: "A[k := a] ! NDIRECT = A ! NDIRECT" by simp
      have "taken sbk a V (A ! NDIRECT) = V (A ! NDIRECT)" if "A ! NDIRECT \<noteq> 0"
      proof -
        have "A ! NDIRECT \<in> owned V A" using that by (intro indirect_owned) (simp add: indirect_def)
        then show ?thesis using map_okD(3)[OF ok(1)] bm fr(4) by (intro taken_other) auto
      qed
      then show ?thesis using False jk i by (simp add: slot_def)
    qed
  qed
  moreover have "slot V A k = 0" using k by (simp add: slot_def)
  ultimately show ?thesis unfolding fills_def using a k(1) ne by (auto simp: taken_def zeroed_def)
qed

lemma fill_indirect:
  assumes ok: "map_ok sbk R V A" "alloc_ok sbk R V" and a: "available sbk V a"
    and k: "NDIRECT < k" "k < NSLOT" "slot V A k = 0" "A ! NDIRECT \<noteq> 0"
  shows "fills sbk k a V A ((taken sbk a V)(A ! NDIRECT := put32 (V (A ! NDIRECT)) (4 * (k - 13)) a)) A"
proof -
  note fr = fresh_block[OF ok a]
  have bm: "BBLOCK a sbk \<in> bitmap_blocks sbk" using a by (simp add: bitmap_blocksI)
  then have ne: "BBLOCK a sbk \<noteq> a" using fr(3) by auto
  have o: "A ! NDIRECT \<in> owned V A" using k(4) by (intro indirect_owned) (simp add: indirect_def)
  then have ni: "A ! NDIRECT \<noteq> a" "A ! NDIRECT \<noteq> BBLOCK a sbk" using map_okD(3)[OF ok(1)] bm fr(4) by auto
  let ?V = "(taken sbk a V)(A ! NDIRECT := put32 (V (A ! NDIRECT)) (4 * (k - 13)) a)"
  have "slot ?V A j = (if j = k then a else slot V A j)" if j: "j < NSLOT" for j
  proof (cases "j \<le> NDIRECT \<or> j = k")
    case True
    then show ?thesis using k(1,4) by (auto simp: slot_def)
  next
    case False
    then have "4 * (k - 13) + 4 \<le> 4 * (j - 13) \<or> 4 * (j - 13) + 4 \<le> 4 * (k - 13)" using k(1) by auto
    then show ?thesis using False k(4) by (simp add: slot_def)
  qed
  then show ?thesis unfolding fills_def using a k(2,3,4) ne ni by (auto simp: taken_def zeroed_def indirect_def)
qed

section \<open>Inodes in a transaction\<close>

lemma cinv_itable: "cinv (s\<lparr>itable := t\<rparr>) H P = cinv s H P"
  by (simp add: cinv_def lru_def uniq_def pinned_def cached_def)

lemma view_itable: "view (s\<lparr>itable := t\<rparr>) = view s"
  by (rule ext) (simp add: view_def cached_def cong: option.case_cong)

lemma set_inode_simps [simp]:
  "linv (set_inode ip f s) H = linv s H" "view (set_inode ip f s) = view s" "blocks (set_inode ip f s) = blocks s"
  "log_cap (set_inode ip f s) = log_cap s" "larea (set_inode ip f s) = larea s" "sb (set_inode ip f s) = sb s" "disk (set_inode ip f s) = disk s"
  "umem (set_inode ip f s) = umem s" "upagetable (set_inode ip f s) = upagetable s" "cwd (set_inode ip f s) = cwd s" "pid (set_inode ip f s) = pid s"
  "itable (set_inode ip f s) = (itable s)(ip := f (itable s ip))"
  by (simp_all add: set_inode_def linv_def lgood_def blocks_def log_cap_def larea_def cinv_itable view_itable)

definition inode_blocks :: "superblock \<Rightarrow> uint set" where
  "inode_blocks sbk = {IBLOCK i sbk |i. unat i < unat (ninodes sbk)}"

abbreviation addrs :: "nat \<Rightarrow> 'a fs_scheme \<Rightarrow> uint list" where
  "addrs ip s \<equiv> i_addrs (itable s ip)"

text \<open>The blocks of the file are its own, and the blocks that may be given out are nobody's.\<close>

definition file_ok :: "nat \<Rightarrow> 'a fs_scheme \<Rightarrow> bool" where
  "file_ok ip s \<longleftrightarrow> i_dev (itable s ip) = ROOTDEV \<and> map_ok (sb s) (larea s \<union> inode_blocks (sb s)) (view s) (addrs ip s) \<and>
     alloc_ok (sb s) (larea s \<union> inode_blocks (sb s)) (view s)"

definition same_but :: "nat \<Rightarrow> 'a fs_scheme \<Rightarrow> 'a fs_scheme \<Rightarrow> bool" where
  "same_but ip s s' \<longleftrightarrow> (\<forall>j. j \<noteq> ip \<longrightarrow> itable s' j = itable s j) \<and> (itable s' ip)\<lparr>i_addrs := []\<rparr> = (itable s ip)\<lparr>i_addrs := []\<rparr> \<and>
     sb s' = sb s \<and> umem s' = umem s \<and> upagetable s' = upagetable s \<and> cwd s' = cwd s \<and> pid s' = pid s \<and>
     log_cap s' = log_cap s \<and> larea s' = larea s \<and> disk s' = disk s"

text \<open>How many blocks the transaction may have logged, the bitmap and the indirect block always counted.\<close>

definition load :: "nat \<Rightarrow> 'a fs_scheme \<Rightarrow> nat" where
  "load ip s = card (set (blocks s) \<union> bitmap_blocks (sb s) \<union> indirect (addrs ip s)) + (if addrs ip s ! NDIRECT = 0 then 1 else 0)"

lemma same_but_same: "tx.same s s' \<Longrightarrow> same_but ip s s'"
  using same_fs[of s s'] by (auto simp: same_but_def)

lemma same_but_trans: "same_but ip s s' \<Longrightarrow> same_but ip s' s'' \<Longrightarrow> same_but ip s s''"
  by (auto simp: same_but_def)

lemma same_butD:
  assumes "same_but ip s s'"
  shows "j \<noteq> ip \<Longrightarrow> itable s' j = itable s j" "i_dev (itable s' ip) = i_dev (itable s ip)" "i_inum (itable s' ip) = i_inum (itable s ip)"
    "i_size (itable s' ip) = i_size (itable s ip)" "i_type (itable s' ip) = i_type (itable s ip)" "i_lock (itable s' ip) = i_lock (itable s ip)"
    "i_valid (itable s' ip) = i_valid (itable s ip)" "i_ref (itable s' ip) = i_ref (itable s ip)" "i_nlink (itable s' ip) = i_nlink (itable s ip)"
    "sb s' = sb s" "umem s' = umem s" "upagetable s' = upagetable s" "cwd s' = cwd s" "pid s' = pid s" "log_cap s' = log_cap s" "larea s' = larea s" "disk s' = disk s"
  using assms by (cases "itable s ip", cases "itable s' ip", auto simp: same_but_def)+

lemma file_ok_same: "tx.same s s' \<Longrightarrow> view s' = view s \<Longrightarrow> file_ok ip s' = file_ok ip s"
  using same_fs[of s s'] by (simp add: file_ok_def)

lemma card_insert_le': "card (insert (x :: uint) X) \<le> Suc (card X)"
  by (cases "x \<in> X") (simp_all add: insert_absorb)

lemma load_step:
  assumes "sb s' = sb s" and "addrs ip s ! NDIRECT \<noteq> 0 \<Longrightarrow> addrs ip s' ! NDIRECT = addrs ip s ! NDIRECT"
    and "set (blocks s') \<subseteq> set (blocks s) \<union> bitmap_blocks (sb s) \<union> indirect (addrs ip s') \<union> X" and "card X \<le> n"
  shows "load ip s' \<le> load ip s + n"
proof -
  let ?B = "set (blocks s) \<union> bitmap_blocks (sb s)"
  have X: "card (Y \<union> X) \<le> card Y + n" for Y :: "uint set" using card_Un_le[of Y X] assms(4) by linarith
  have "set (blocks s') \<union> bitmap_blocks (sb s') \<union> indirect (addrs ip s') \<subseteq> ?B \<union> indirect (addrs ip s') \<union> X" using assms(1,3) by auto
  then have l: "card (set (blocks s') \<union> bitmap_blocks (sb s') \<union> indirect (addrs ip s')) \<le> card (?B \<union> indirect (addrs ip s')) + n"
    using card_mono[of "?B \<union> indirect (addrs ip s') \<union> X"] X[of "?B \<union> indirect (addrs ip s')"] by (meson finite order_trans)
  show ?thesis
  proof (cases "addrs ip s ! NDIRECT = 0")
    case False
    then show ?thesis using l assms(2) by (simp add: load_def indirect_def)
  next
    case True
    have "card (?B \<union> indirect (addrs ip s')) + (if addrs ip s' ! NDIRECT = 0 then 1 else 0) \<le> Suc (card ?B)"
      using card_insert_le'[of "addrs ip s' ! NDIRECT" ?B] by (simp add: indirect_def)
    then show ?thesis using l True by (simp add: load_def indirect_def)
  qed
qed

lemma load_blocks: "linv s H \<Longrightarrow> length (blocks s) \<le> load ip s"
  using blocks_load[of s H "bitmap_blocks (sb s) \<union> indirect (addrs ip s)"] by (simp add: load_def Un_assoc)

lemma load_bitmap: "card (set (blocks s) \<union> bitmap_blocks (sb s)) \<le> load ip s"
  using card_mono[of "set (blocks s) \<union> bitmap_blocks (sb s) \<union> indirect (addrs ip s)" "set (blocks s) \<union> bitmap_blocks (sb s)"]
  by (simp add: load_def)

lemma alloc_ok_mono: "alloc_ok sbk R V \<Longrightarrow> R' \<subseteq> R \<union> S \<Longrightarrow> S \<inter> bitmap_blocks sbk = {} \<Longrightarrow> (\<And>b. b \<in> S \<Longrightarrow> \<not> available sbk V b) \<Longrightarrow> alloc_ok sbk R' V"
  unfolding alloc_ok_def by blast

lemma bmap_slot_ok:
  assumes l: "linv s Map.empty" and f: "file_ok ip s" and cap: "load ip s < log_cap s" and k: "k \<le> NDIRECT"
  shows "\<exists>a s'. bmap_slot ip k s = Inr (a, s') \<and> linv s' Map.empty \<and> file_ok ip s' \<and> same_but ip s s' \<and>
    gained (sb s) (view s) (addrs ip s) (view s') (addrs ip s') \<and> a = addrs ip s' ! k \<and> (a = 0 \<longrightarrow> (\<forall>b. \<not> available (sb s) (view s') b)) \<and>
    set (blocks s') \<subseteq> set (blocks s) \<union> bitmap_blocks (sb s) \<union> ({a} - {0}) \<and>
    (addrs ip s ! k \<noteq> 0 \<longrightarrow> s' = s)"
proof -
  let ?A = "addrs ip s" and ?R = "larea s \<union> inode_blocks (sb s)"
  have d: "i_dev (itable s ip) = ROOTDEV" and m: "map_ok (sb s) ?R (view s) ?A" and al: "alloc_ok (sb s) ?R (view s)"
    using f by (simp_all add: file_ok_def)
  note refl = gained_refl[OF m]
  show ?thesis
  proof (cases "?A ! k = 0")
    case False
    then have "bmap_slot ip k s = Inr (?A ! k, s)" by (simp add: bmap_slot_def)
    moreover have "same_but ip s s" by (simp add: same_but_def)
    ultimately show ?thesis using l f refl False by (intro exI[of _ "?A ! k"] exI[of _ s]) auto
  next
    case True
    have al': "alloc_ok (sb s) (ran Map.empty \<union> larea s) (view s)" by (rule alloc_ok_mono[OF al, of _ "{}"]) auto
    have c: "card (set (blocks s) \<union> bitmap_blocks (sb s)) < log_cap s" using load_bitmap[of s ip] cap by linarith
    obtain a s1 where a: "balloc ROOTDEV s = Inr (a, s1)" "linv s1 Map.empty" "tx.same s s1"
      "if a = 0 then view s1 = view s \<and> blocks s1 = blocks s \<and> (\<forall>x. unat x < unat (fssize (sb s)) \<longrightarrow> \<not> block_free (sb s) (view s) x)
       else unat a < unat (fssize (sb s)) \<and> block_free (sb s) (view s) a \<and> view s1 = taken (sb s) a (view s) \<and>
         set (blocks s1) = {BBLOCK a (sb s), a} \<union> set (blocks s)"
      using balloc_ok[OF l c _ al'] by auto
    note fs = same_fs[OF a(3)]
    show ?thesis
    proof (cases "a = 0")
      case a0: True
      then have b: "bmap_slot ip k s = Inr (0, s1)" using True a(1) d by (simp add: bmap_slot_def)
      have v: "view s1 = view s" "blocks s1 = blocks s" "\<forall>x. \<not> available (sb s) (view s) x" using a(4) a0 by auto
      then show ?thesis using b a(2) file_ok_same[OF a(3) v(1)] f same_but_same[OF a(3)] refl fs True
        by (intro exI[of _ 0] exI[of _ s1]) auto
    next
      case a0: False
      let ?s = "set_addr ip k a s1"
      have b: "bmap_slot ip k s = Inr (a, ?s)" using True a(1) d a0 by (simp add: bmap_slot_def)
      have av: "available (sb s) (view s) a" and v: "view ?s = taken (sb s) a (view s)" "set (blocks ?s) = {BBLOCK a (sb s), a} \<union> set (blocks s)"
        using a(4) a0 by (simp_all add: set_addr_def)
      have A: "addrs ip ?s = ?A[k := a]" using fs by (simp add: set_addr_def)
      note F = fills_ok[OF m al fill_direct[OF m al av k True]]
      have "file_ok ip ?s" unfolding file_ok_def A v using F d fs by (simp add: set_addr_def)
      moreover have "same_but ip s ?s" using fs by (simp add: same_but_def set_addr_def)
      moreover have "?A[k := a] ! k = a" using map_okD(1)[OF m] k by simp
      ultimately show ?thesis using b a(2) F v A a0 True bitmap_blocksI[of a "sb s"] av
        by (intro exI[of _ a] exI[of _ ?s]) (auto simp: set_addr_def)
    qed
  qed
qed

text \<open>The slot of a block of the file, and a result of \<^verbatim>\<open>bmap\<close> that is as it should be.\<close>

definition bslot :: "nat \<Rightarrow> nat" where
  "bslot bn = (if bn < NDIRECT then bn else bn + 1)"

definition mapped :: "nat \<Rightarrow> nat \<Rightarrow> 'a fs_scheme \<Rightarrow> uint \<Rightarrow> 'a fs_scheme \<Rightarrow> bool" where
  "mapped ip k s a s' \<longleftrightarrow> linv s' Map.empty \<and> file_ok ip s' \<and> same_but ip s s' \<and>
    gained (sb s) (view s) (addrs ip s) (view s') (addrs ip s') \<and> a = slot (view s') (addrs ip s') k \<and>
    (a = 0 \<longrightarrow> (\<forall>b. \<not> available (sb s) (view s') b)) \<and>
    set (blocks s') \<subseteq> set (blocks s) \<union> bitmap_blocks (sb s) \<union> indirect (addrs ip s') \<union> ({a} - {0}) \<and>
    (slot (view s) (addrs ip s) k \<noteq> 0 \<longrightarrow> view s' = view s \<and> tx.same s s' \<and> blocks s' = blocks s)"

text \<open>The part of \<^verbatim>\<open>bmap\<close> that looks into the indirect block.\<close>

definition entry :: "nat \<Rightarrow> nat \<Rightarrow> uint \<Rightarrow> 'a fs_scheme \<Rightarrow> (uint \<times> 'a fs_scheme) res" where
  "entry ip k ind s =
     bindE (bread (i_dev (itable s ip)) ind s) (\<lambda>(bp, s).
       let addr = get32 (data (bufs s bp)) (4 * (k - 13)) in
       if addr = 0 then
         bindE (balloc (i_dev (itable s ip)) s) (\<lambda>(addr, s).
         bindE (if addr \<noteq> 0
                then log_write bp (set_data bp (put32 (data (bufs s bp)) (4 * (k - 13)) addr) s)
                else Inr s) (\<lambda>s.
         bindE (brelse bp s) (\<lambda>s. Inr (addr, s))))
       else bindE (brelse bp s) (\<lambda>s. Inr (addr, s)))"

lemma bmap_far:
  assumes "\<not> unat bn < NDIRECT" and "unat bn < MAXFILE"
  shows "bmap ip bn s = bindE (bmap_slot ip NDIRECT s) (\<lambda>(addr, s). if addr = 0 then Inr (0, s) else entry ip (bslot (unat bn)) addr s)"
proof -
  have u: "unat (bn - 12) = unat bn - 12" using assms(1) by (simp add: unat_sub word_le_nat_alt)
  have "bslot (unat bn) - 13 = unat bn - 12" using assms(1) by (simp add: bslot_def)
  moreover have "unat bn - 12 < NINDIRECT" using assms by simp
  ultimately show ?thesis using assms u by (simp add: bmap_def entry_def Let_def cong: if_cong)
qed

lemma indirect_entry:
  assumes l: "linv s Map.empty" and f: "file_ok ip s" and cap: "load ip s + 1 < log_cap s" and k: "NDIRECT < k" "k < NSLOT" and ind: "addrs ip s ! NDIRECT \<noteq> 0"
  shows "\<exists>a s'. entry ip k (addrs ip s ! NDIRECT) s = Inr (a, s') \<and> mapped ip k s a s'"
proof -
  let ?A = "addrs ip s" and ?R = "larea s \<union> inode_blocks (sb s)" and ?V = "view s" and ?n = "addrs ip s ! NDIRECT"
  have d: "i_dev (itable s ip) = ROOTDEV" and m: "map_ok (sb s) ?R ?V ?A" and al: "alloc_ok (sb s) ?R ?V"
    using f by (simp_all add: file_ok_def)
  have o: "?n \<in> owned ?V ?A" using ind by (intro indirect_owned) (simp add: indirect_def)
  note N = map_okD(3)[OF m o]
  have sl: "slot ?V ?A k = get32 (?V ?n) (4 * (k - 13))" using k(1) ind by (simp add: slot_def)
  have len: "length (blocks s) < log_cap s" using load_blocks[OF l, of ip] cap by linarith
  obtain bp s1 where r: "bread ROOTDEV ?n s = Inr (bp, s1)" "linv s1 [bp \<mapsto> ?n]" "view s1 = ?V" "disk s1 = disk s" "blocks s1 = blocks s"
    "log_cap s1 = log_cap s" "larea s1 = larea s" "lrest s1 = lrest s"
    using tx.rd[OF l _ _ tx_room[OF l len]] N by fastforce
  have sm: "tx.same s s1" using r by (simp add: tx.same_def)
  note f1 = same_fs[OF sm]
  have dt: "data (bufs s1 bp) = ?V ?n" using tx.ld[OF r(2), of bp ?n] r(3) by simp
  have cl: "?n \<in> set (blocks s) \<or> ?V ?n = disk s ?n" using tx.clean[OF l, of ?n] by auto
  have upd: "[bp \<mapsto> ?n](bp := None) = Map.empty" by auto
  show ?thesis
  proof (cases "slot ?V ?A k = 0")
    case False
    obtain s2 where s2: "brelse bp s1 = Inr s2" "linv s2 Map.empty" "view s2 = ?V" "blocks s2 = blocks s" "tx.same s s2"
      using tx.rls[OF r(2), of bp ?n] cl r upd by (auto simp: tx.same_def)
    have "mapped ip k s (slot ?V ?A k) s2" unfolding mapped_def
      using s2 file_ok_same[OF s2(5,3)] f same_but_same[OF s2(5)] gained_refl[OF m] same_fs(2)[OF s2(5)] False by auto
    then show ?thesis using r(1) d dt sl False s2(1) by (intro exI[of _ "slot ?V ?A k"] exI[of _ s2]) (simp add: entry_def)
  next
    case True
    have ran: "ran [bp \<mapsto> ?n] = {?n}" and dom: "card (dom [bp \<mapsto> ?n]) \<le> 1" by auto
    have al': "alloc_ok (sb s1) (ran [bp \<mapsto> ?n] \<union> larea s1) (view s1)" unfolding ran f1 r(3)
      by (rule alloc_ok_mono[OF al, of _ "{?n}"]) (use N in auto)
    have c: "card (set (blocks s1) \<union> bitmap_blocks (sb s1)) < log_cap s1" using load_bitmap[of s ip] cap f1 r(5) by simp
    obtain a s2 where a: "balloc ROOTDEV s1 = Inr (a, s2)" "linv s2 [bp \<mapsto> ?n]" "tx.same s1 s2"
      "if a = 0 then view s2 = view s1 \<and> blocks s2 = blocks s1 \<and> (\<forall>x. unat x < unat (fssize (sb s1)) \<longrightarrow> \<not> block_free (sb s1) (view s1) x)
       else unat a < unat (fssize (sb s1)) \<and> block_free (sb s1) (view s1) a \<and> view s2 = taken (sb s1) a (view s1) \<and>
         set (blocks s2) = {BBLOCK a (sb s1), a} \<union> set (blocks s1)"
      using balloc_ok[OF r(2) c dom al'] by blast
    have sm2: "tx.same s s2" using tx.same_trans[OF sm a(3)] .
    note f2 = same_fs[OF sm2]
    show ?thesis
    proof (cases "a = 0")
      case a0: True
      then have v2: "view s2 = ?V" "blocks s2 = blocks s" "\<forall>x. \<not> available (sb s) ?V x" using a(4) r f1 by auto
      obtain s3 where s3: "brelse bp s2 = Inr s3" "linv s3 Map.empty" "view s3 = ?V" "blocks s3 = blocks s" "tx.same s2 s3"
        using tx.rls[OF a(2), of bp ?n] cl v2 upd f2 by (auto simp: tx.same_def)
      have sm3: "tx.same s s3" using tx.same_trans[OF sm2 s3(5)] .
      have "mapped ip k s 0 s3" unfolding mapped_def
        using s3 file_ok_same[OF sm3 s3(3)] f same_but_same[OF sm3] gained_refl[OF m] same_fs(2)[OF sm3] True v2(3) by auto
      then show ?thesis using r(1) d dt sl True s3(1) a(1) a0 f1 by (intro exI[of _ 0] exI[of _ s3]) (simp add: entry_def)
    next
      case a0: False
      have av: "available (sb s) ?V a" and v2: "view s2 = taken (sb s) a ?V" "set (blocks s2) = {BBLOCK a (sb s), a} \<union> set (blocks s)"
        using a(4) a0 r f1 by auto
      let ?v = "put32 (?V ?n) (4 * (k - 13)) a"
      have bm: "BBLOCK a (sb s) \<in> bitmap_blocks (sb s)" using av by (simp add: bitmap_blocksI)
      have ne: "?n \<noteq> a" "?n \<noteq> BBLOCK a (sb s)" using fresh_block(4)[OF m al av] o N bm by auto
      have d2: "data (bufs s2 bp) = ?V ?n" using tx.ld[OF a(2), of bp ?n] v2(1) ne by (simp add: taken_other)
      let ?t = "set_data bp ?v s2"
      note T = tx.st[OF a(2), of bp ?n ?v, simplified]
      have "length (blocks s2) < log_cap s2"
      proof -
        have "length (blocks s2) \<le> card (set (blocks s2) \<union> bitmap_blocks (sb s))" by (rule blocks_load[OF a(2)])
        also have "set (blocks s2) \<union> bitmap_blocks (sb s) = insert a (set (blocks s) \<union> bitmap_blocks (sb s))" using v2(2) bm by auto
        also have "card \<dots> \<le> Suc (load ip s)" using card_insert_le'[of a "set (blocks s) \<union> bitmap_blocks (sb s)"] load_bitmap[of s ip] by linarith
        finally show ?thesis using cap f2 by simp
      qed
      then obtain s3 where s3: "log_write bp ?t = Inr s3" "linv s3 [bp \<mapsto> ?n]" "view s3 = (view s2)(?n := ?v)"
        "blocks s3 = (if ?n \<in> set (blocks s2) then blocks s2 else blocks s2 @ [?n])" "tx.same s2 s3"
        using tx.lw[of ?t "[bp \<mapsto> ?n]" bp ?n] T by (auto simp: tx.same_def)
      have "?n \<in> set (blocks s3)" using s3(4) by simp
      then obtain s4 where s4: "brelse bp s3 = Inr s4" "linv s4 Map.empty" "view s4 = (view s2)(?n := ?v)" "blocks s4 = blocks s3" "tx.same s3 s4"
        using tx.rls[OF s3(2), of bp ?n] upd s3(3) by (auto simp: tx.same_def)
      have sm4: "tx.same s s4" using tx.same_trans[OF tx.same_trans[OF sm2 s3(5)] s4(5)] .
      note f4 = same_fs[OF sm4]
      have v4: "view s4 = (taken (sb s) a ?V)(?n := ?v)" using s4(3) v2(1) by simp
      note F = fills_ok[OF m al fill_indirect[OF m al av k True ind]] and fl = fill_indirect[OF m al av k True ind]
      have b4: "set (blocks s4) = insert ?n (set (blocks s2))" using s3(4) s4(4) by auto
      have sa: "slot (view s4) ?A k = a" using fl k(2) unfolding v4 fills_def by simp
      have "mapped ip k s a s4" unfolding mapped_def
        using s4(2) F d f4 v4 b4 v2(2) bm sa a0 True ind same_but_same[OF sm4] by (auto simp: file_ok_def indirect_def)
      then show ?thesis using r(1) d dt sl True a(1) a0 d2 s3(1) s4(1) f1
        by (intro exI[of _ a] exI[of _ s4]) (simp add: entry_def)
    qed
  qed
qed

lemma bmap_ok:
  assumes l: "linv s Map.empty" and f: "file_ok ip s" and cap: "load ip s + 1 < log_cap s" and bn: "unat bn < MAXFILE"
  shows "\<exists>a s'. bmap ip bn s = Inr (a, s') \<and> mapped ip (bslot (unat bn)) s a s'"
proof (cases "unat bn < NDIRECT")
  case True
  obtain a s' where a: "bmap_slot ip (unat bn) s = Inr (a, s')" "linv s' Map.empty" "file_ok ip s'" "same_but ip s s'"
    "gained (sb s) (view s) (addrs ip s) (view s') (addrs ip s')" "a = addrs ip s' ! unat bn" "a = 0 \<longrightarrow> (\<forall>b. \<not> available (sb s) (view s') b)"
    "set (blocks s') \<subseteq> set (blocks s) \<union> bitmap_blocks (sb s) \<union> ({a} - {0})" "addrs ip s ! unat bn \<noteq> 0 \<longrightarrow> s' = s"
    using bmap_slot_ok[OF l f, of "unat bn"] cap True by auto
  then have "mapped ip (bslot (unat bn)) s a s'" using True by (auto simp: mapped_def bslot_def slot_def)
  then show ?thesis using a(1) True by (simp add: bmap_def)
next
  case False
  let ?k = "bslot (unat bn)"
  have k: "NDIRECT < ?k" "?k < NSLOT" using False bn by (simp_all add: bslot_def)
  obtain a s1 where a: "bmap_slot ip NDIRECT s = Inr (a, s1)" "linv s1 Map.empty" "file_ok ip s1" "same_but ip s s1"
    "gained (sb s) (view s) (addrs ip s) (view s1) (addrs ip s1)" "a = addrs ip s1 ! NDIRECT" "a = 0 \<longrightarrow> (\<forall>b. \<not> available (sb s) (view s1) b)"
    "set (blocks s1) \<subseteq> set (blocks s) \<union> bitmap_blocks (sb s) \<union> ({a} - {0})" "addrs ip s ! NDIRECT \<noteq> 0 \<longrightarrow> s1 = s"
    using bmap_slot_ok[OF l f, of NDIRECT] cap by auto
  note D = same_butD[OF a(4)]
  show ?thesis
  proof (cases "a = 0")
    case True
    then have "bmap ip bn s = Inr (0, s1)" using bmap_far[OF False bn, of ip s] a(1) by simp
    moreover have "addrs ip s ! NDIRECT = 0" using a(6,9) True by metis
    then have "mapped ip ?k s 0 s1" unfolding mapped_def using a True k by (auto simp: slot_def indirect_def)
    ultimately show ?thesis by blast
  next
    case a0: False
    have "load ip s1 \<le> load ip s"
      using load_step[of s1 s ip "{}" 0] a(6,8,9) a0 D(10) by (auto simp: indirect_def)
    then have cap1: "load ip s1 + 1 < log_cap s1" using cap D(15) by simp
    have i1: "addrs ip s1 ! NDIRECT \<noteq> 0" using a0 a(6) by simp
    obtain b s2 where b: "entry ip ?k a s1 = Inr (b, s2)" and m2: "mapped ip ?k s1 b s2"
      using indirect_entry[OF a(2,3) cap1 k i1] unfolding a(6)[symmetric] by blast
    have e: "bmap ip bn s = Inr (b, s2)" using bmap_far[OF False bn, of ip s] a(1) a0 b by simp
    have M: "map_ok (sb s) (larea s \<union> inode_blocks (sb s)) (view s) (addrs ip s)" "map_ok (sb s) (larea s \<union> inode_blocks (sb s)) (view s1) (addrs ip s1)"
      using f a(3) D by (simp_all add: file_ok_def)
    have g: "gained (sb s) (view s) (addrs ip s) (view s2) (addrs ip s2)"
      using gained_trans[OF M(1) a(5) M(2)] m2 D(10) by (simp add: mapped_def)
    have "slot (view s1) (addrs ip s1) NDIRECT \<noteq> 0" using i1 by (simp add: slot_def)
    then have i2: "addrs ip s2 ! NDIRECT = addrs ip s1 ! NDIRECT"
      using gainedD(1)[of "sb s1" "view s1" "addrs ip s1" "view s2" "addrs ip s2" NDIRECT] m2 by (simp add: mapped_def slot_def)
    have k0: "slot (view s) (addrs ip s) ?k \<noteq> 0 \<Longrightarrow> addrs ip s ! NDIRECT \<noteq> 0" using k(1) by (auto simp: slot_def)
    have "mapped ip ?k s b s2" unfolding mapped_def
      using m2 g same_but_trans[OF a(4)] D(10) k0 a(6,8,9) a0 i2 by (auto simp: mapped_def indirect_def)
    then show ?thesis using e by blast
  qed
qed

end
