(* ===== verification/FsRead.thy ===== *)
theory FsRead
  imports FsMap
begin

text \<open>
  The contents of a file, and \<^verbatim>\<open>readi\<close> of \<^verbatim>\<open>kernel/fs.c\<close>, which delivers them to a kernel buffer or to a process.
\<close>

section \<open>Reading\<close>

text \<open>The byte of a file at an offset.\<close>

definition content :: "(uint \<Rightarrow> block) \<Rightarrow> uint list \<Rightarrow> nat \<Rightarrow> uchar" where
  "content V A i = V (slot V A (bslot (i div BSIZE))) (i mod BSIZE)"

text \<open>The file has the blocks of the bytes of an interval.\<close>

definition has_blocks :: "(uint \<Rightarrow> block) \<Rightarrow> uint list \<Rightarrow> nat \<Rightarrow> nat \<Rightarrow> bool" where
  "has_blocks V A i j \<longleftrightarrow> (\<forall>x. i \<le> x \<longrightarrow> x < j \<longrightarrow> slot V A (bslot (x div BSIZE)) \<noteq> 0)"

lemma bslot_less: "x < MAXFILE * BSIZE \<Longrightarrow> bslot (x div BSIZE) < NSLOT"
  by (auto simp: bslot_def div_less_iff_less_mult)

lemma slot_indirect: "slot V A NDIRECT = A ! NDIRECT"
  by (simp add: slot_def)

lemma bslot_direct: "bslot bn \<noteq> NDIRECT"
  by (simp add: bslot_def)

text \<open>The part of a block that one round of the loops copies.\<close>

lemma chunk:
  assumes "0 < left" and "m = min left (BSIZE - off mod BSIZE)" and "i < m"
  shows "(off + i) div BSIZE = off div BSIZE" and "(off + i) mod BSIZE = off mod BSIZE + i"
proof -
  have "i < BSIZE - off mod BSIZE" using assms(2,3) by simp
  then have l: "off mod BSIZE + i < BSIZE" by linarith
  have e: "off + i = BSIZE * (off div BSIZE) + (off mod BSIZE + i)" by (simp only: mult_div_mod_eq add.assoc[symmetric])
  show "(off + i) div BSIZE = off div BSIZE" unfolding e div_mult_self4[OF numeral_neq_zero] using l by simp
  show "(off + i) mod BSIZE = off mod BSIZE + i" by (subst e) (simp only: mod_mult_self4 mod_less[OF l])
qed

lemma off_word:
  assumes "off < MAXFILE * BSIZE" 
  shows "unat (of_nat off :: uint) = off" and "unat (of_nat off div 1024 :: uint) = off div BSIZE"
proof -
  show u: "unat (of_nat off :: uint) = off" using assms by (intro unat_of_nat_small) simp
  show "unat (of_nat off div 1024 :: uint) = off div BSIZE" by (simp add: unat_div u)
qed

text \<open>
  Where the bytes go: a kernel buffer, or writable memory of the process with the pages \<open>U\<close>.
\<close>

fun ready :: "uint64 list \<Rightarrow> uint64 set \<Rightarrow> end_addr \<Rightarrow> nat \<Rightarrow> 'a fs_scheme \<Rightarrow> bool" where
  "ready ps U (Kern xs) n s \<longleftrightarrow> True"
| "ready ps U (User a) n s \<longleftrightarrow> aspace (umem s) (upagetable s) ps U \<and> owns_writable (umem s) (upagetable s) U \<and> unat a + n \<le> 2 ^ 38 \<and>
     (\<forall>j < n. writable (umem s) (upagetable s) (a + of_nat j))"

fun delivered :: "uint64 set \<Rightarrow> end_addr \<Rightarrow> uchar list \<Rightarrow> 'a fs_scheme \<Rightarrow> end_addr \<Rightarrow> phys \<Rightarrow> bool" where
  "delivered U (Kern xs) bs s dst' m \<longleftrightarrow> dst' = Kern (xs @ bs) \<and> m = umem s"
| "delivered U (User a) bs s dst' m \<longleftrightarrow> dst' = User (a + of_nat (length bs)) \<and> stored (upagetable s) U a bs (umem s) m"

lemma either_copyout_ok:
  assumes "ready ps U dst (length bs + n) s"
  shows "\<exists>dst' m. either_copyout dst bs s = Inr (0, dst', s\<lparr>umem := m\<rparr>) \<and> delivered U dst bs s dst' m \<and> ready ps U dst' n (s\<lparr>umem := m\<rparr>)"
proof (cases dst)
  case (Kern xs)
  then show ?thesis by (intro exI[of _ "Kern (xs @ bs)"] exI[of _ "umem s"]) simp
next
  case (User a)
  have a: "aspace (umem s) (upagetable s) ps U" "owns_writable (umem s) (upagetable s) U" "unat a + (length bs + n) \<le> 2 ^ 38"
    "\<And>j. j < length bs + n \<Longrightarrow> writable (umem s) (upagetable s) (a + of_nat j)" using assms User by simp_all
  obtain m where m: "copyout (upagetable s) a bs (umem s) = Inr (0, m)" "aspace m (upagetable s) ps U"
    "\<forall>va. leaf (pmem m) (upagetable s) va = leaf (pmem (umem s)) (upagetable s) va" "stored (upagetable s) U a bs (umem s) m"
    using copyout_spec[OF a(1,2), of a bs] a(3,4) by auto
  have u: "unat (a + of_nat (length bs)) + n \<le> 2 ^ 38" using a(3) unat_add_nat[of a "length bs"] by simp
  have w: "writable m (upagetable s) (a + of_nat (length bs) + of_nat j)" if "j < n" for j
    using a(4)[of "length bs + j"] that by (simp add: writable_leaf[OF m(3)] add.assoc)
  show ?thesis using User m u w a(2)
    by (intro exI[of _ "User (a + of_nat (length bs))"] exI[of _ m]) (simp add: owns_leaf[OF m(3)])
qed

lemma delivered_append:
  assumes "delivered U dst bs s dst1 m1" and "delivered U dst1 cs (s1\<lparr>umem := m1\<rparr>) dst2 m2" and "upagetable s1 = upagetable s"
    and "ready ps U dst (length bs + length cs) s"
  shows "delivered U dst (bs @ cs) s dst2 m2"
proof (cases dst)
  case (User a)
  have "unat (a + of_nat (length bs)) = unat a + length bs" using assms(4) User by (intro unat_add_nat) simp
  then show ?thesis using assms User stored_append[of "upagetable s" U a "length bs" "bs @ cs" "umem s" m1 "a + of_nat (length bs)" m2]
    by (simp add: add.assoc)
qed (use assms in simp)

lemma umem_simps [simp]:
  "linv (s\<lparr>umem := m\<rparr>) H = linv s H" "view (s\<lparr>umem := m\<rparr>) = view s" "blocks (s\<lparr>umem := m\<rparr>) = blocks s"
  "log_cap (s\<lparr>umem := m\<rparr>) = log_cap s" "larea (s\<lparr>umem := m\<rparr>) = larea s"
proof -
  have c: "cinv (s\<lparr>umem := m\<rparr>) H P = cinv s H P" for P by (simp add: cinv_def lru_def uniq_def pinned_def cached_def)
  show "view (s\<lparr>umem := m\<rparr>) = view s" by (rule ext) (simp add: view_def cached_def cong: option.case_cong)
  show "linv (s\<lparr>umem := m\<rparr>) H = linv s H" "blocks (s\<lparr>umem := m\<rparr>) = blocks s"
    "log_cap (s\<lparr>umem := m\<rparr>) = log_cap s" "larea (s\<lparr>umem := m\<rparr>) = larea s"
    by (simp_all add: linv_def lgood_def blocks_def log_cap_def larea_def c)
qed

text \<open>A state that differs in the memory of the process only.\<close>

definition same_mem :: "'a fs_scheme \<Rightarrow> 'a fs_scheme \<Rightarrow> bool" where
  "same_mem s s' \<longleftrightarrow> tx.same s (s'\<lparr>umem := umem s\<rparr>) \<and> view s' = view s \<and> blocks s' = blocks s"

lemma same_memD:
  assumes "same_mem s s'"
  shows "sb s' = sb s" "itable s' = itable s" "upagetable s' = upagetable s" "cwd s' = cwd s" "pid s' = pid s"
    "log_cap s' = log_cap s" "larea s' = larea s" "disk s' = disk s" "view s' = view s" "blocks s' = blocks s"
  using same_fs[of s "s'\<lparr>umem := umem s\<rparr>"] assms by (simp_all add: same_mem_def)

lemma same_mem_trans: "same_mem s s' \<Longrightarrow> same_mem s' s'' \<Longrightarrow> same_mem s s''"
  by (cases s, cases s', cases s'') (simp add: same_mem_def tx.same_def lrest_def log_cap_def larea_def)

lemma same_mem_same:
  assumes "tx.same s s'" and "view s' = view s" and "blocks s' = blocks s"
  shows "same_mem s (s'\<lparr>umem := m\<rparr>)"
proof -
  have "s'\<lparr>umem := umem s\<rparr> = s'" by (simp add: same_fs(3)[OF assms(1), symmetric])
  then show ?thesis using assms by (simp add: same_mem_def)
qed

lemma file_ok_mem: "same_mem s s' \<Longrightarrow> file_ok ip s' = file_ok ip s"
  using same_memD[of s s'] by (simp add: file_ok_def)

text \<open>One round of the loop.\<close>

lemma readi_round:
  assumes l: "linv s Map.empty" and f: "file_ok ip s" and cap: "load ip s + 1 < log_cap s" and left: "0 < left" "off + left \<le> MAXFILE * BSIZE"
    and s0: "slot (view s) (addrs ip s) (bslot (off div BSIZE)) \<noteq> 0" and m: "m = min left (BSIZE - off mod BSIZE)" and rd: "ready ps U dst left s"
  shows "\<exists>s' dst'. readi_loop ip dst (of_nat off) left tot s = readi_loop ip dst' (of_nat (off + m)) (left - m) (tot + int m) s' \<and>
    linv s' Map.empty \<and> same_mem s s' \<and> delivered U dst (map (content (view s) (addrs ip s)) [off..<off + m]) s dst' (umem s') \<and> ready ps U dst' (left - m) s'"
proof -
  let ?V = "view s" and ?A = "addrs ip s" and ?k = "bslot (off div BSIZE)"
  have off: "off < MAXFILE * BSIZE" using left by simp
  note w = off_word[OF off]
  obtain a s1 where a: "bmap ip (of_nat off div 1024) s = Inr (a, s1)" "mapped ip ?k s a s1"
    using bmap_ok[OF l f cap, of "of_nat off div 1024"] w(2) off by (auto simp: div_less_iff_less_mult)
  then have s1: "linv s1 Map.empty" "view s1 = ?V" "tx.same s s1" "blocks s1 = blocks s"
    using s0 by (auto simp: mapped_def)
  note f1 = same_fs[OF s1(3)]
  have ae: "a = slot ?V ?A ?k" using a(2) s1(2) f1 by (simp add: mapped_def)
  then have a0: "a \<noteq> 0" and aow: "a \<in> owned ?V ?A" using s0 ownedI[OF bslot_less[OF off], of ?V ?A] by auto
  have d: "i_dev (itable s ip) = ROOTDEV" using f by (simp add: file_ok_def)
  have an: "a \<notin> larea s1" using f map_okD(3)[OF _ aow] f1 unfolding file_ok_def by blast
  have len: "length (blocks s1) < log_cap s1" using load_blocks[OF l, of ip] cap s1(4) f1 by simp
  obtain bp s2 where r: "bread ROOTDEV a s1 = Inr (bp, s2)" "linv s2 [bp \<mapsto> a]" "view s2 = ?V" "blocks s2 = blocks s" "tx.same s1 s2"
    using tx.rd[OF s1(1) _ an tx_room[OF s1(1) len]] s1(2,4) by (auto simp: tx.same_def)
  have sm: "tx.same s s2" using tx.same_trans[OF s1(3) r(5)] .
  note f2 = same_fs[OF sm]
  have dt: "data (bufs s2 bp) = ?V a" using tx.ld[OF r(2), of bp a] r(3) by simp
  let ?bs = "map (content ?V ?A) [off..<off + m]"
  have ml: "m \<le> left" "0 < m" using m left by simp_all
  have bs: "block_bytes (?V a) (off mod BSIZE) m = ?bs"
    by (rule nth_equalityI) (use chunk[OF left(1) m] ae in \<open>auto simp: block_bytes_def content_def\<close>)
  have "ready ps U dst (length ?bs + (left - m)) s2" using rd f2 ml by (cases dst) simp_all
  then obtain dst' mm where c: "either_copyout dst ?bs s2 = Inr (0, dst', s2\<lparr>umem := mm\<rparr>)" "delivered U dst ?bs s2 dst' mm" "ready ps U dst' (left - m) (s2\<lparr>umem := mm\<rparr>)"
    using either_copyout_ok by blast
  let ?t = "s2\<lparr>umem := mm\<rparr>"
  have t: "linv ?t [bp \<mapsto> a]" using r(2) by simp
  have "a \<in> set (blocks ?t) \<or> view ?t a = disk ?t a" using tx.clean[OF s1(1), of a] s1 r(3,4) f1 f2 by auto
  then obtain s3 where s3: "brelse bp ?t = Inr s3" "linv s3 Map.empty" "tx.same ?t s3" "view s3 = ?V" "blocks s3 = blocks s"
    using tx.rls[OF t, of bp a] r(3,4) by (auto simp: tx.same_def)
  note f3 = same_fs[OF s3(3)]
  have "readi_loop ip dst (of_nat off) left tot s = readi_loop ip dst' (of_nat (off + m)) (left - m) (tot + int m) s3"
    using left(1) a(1) a0 d f1 r(1) dt bs c(1) s3(1) w(1) m by (subst readi_loop.simps) (simp add: Let_def)
  moreover have "same_mem s ?t" using same_mem_same[OF sm r(3,4)] .
  then have "same_mem s s3" using same_mem_trans[OF _ same_mem_same[OF s3(3), of "umem s3"]] s3(4,5) r(3,4) by simp
  moreover have "delivered U dst ?bs s dst' (umem s3)" using c(2) f2 f3 by (cases dst) simp_all
  moreover have "ready ps U dst' (left - m) s3" using c(3) f3 by (cases dst') simp_all
  ultimately show ?thesis using s3(2) by blast
qed

lemma readi_loop_ok:
  assumes "linv s Map.empty" and "file_ok ip s" and "load ip s + 1 < log_cap s" and "off + left \<le> MAXFILE * BSIZE"
    and "has_blocks (view s) (addrs ip s) off (off + left)" and "ready ps U dst left s"
  shows "\<exists>dst' s'. readi_loop ip dst (of_nat off) left tot s = Inr (tot + int left, dst', s') \<and>
    linv s' Map.empty \<and> same_mem s s' \<and> delivered U dst (map (content (view s) (addrs ip s)) [off..<off + left]) s dst' (umem s')"
  using assms
proof (induction left arbitrary: off dst tot s rule: less_induct)
  case (less left)
  show ?case
  proof (cases "left = 0")
    case True
    have "same_mem s s" by (simp add: same_mem_def)
    moreover have "delivered U dst [] s dst (umem s)" by (cases dst) (simp_all add: stored_Nil)
    ultimately show ?thesis using less.prems True by (intro exI[of _ dst] exI[of _ s]) (simp add: readi_loop.simps[of _ _ _ 0])
  next
    case False
    let ?c = "content (view s) (addrs ip s)"
    define m where "m = min left (BSIZE - off mod BSIZE)"
    have m: "0 < m" "m \<le> left" using False by (simp_all add: m_def)
    have "slot (view s) (addrs ip s) (bslot (off div BSIZE)) \<noteq> 0" using less.prems(5) False by (simp add: has_blocks_def)
    then obtain s1 dst1 where r: "readi_loop ip dst (of_nat off) left tot s = readi_loop ip dst1 (of_nat (off + m)) (left - m) (tot + int m) s1"
      "linv s1 Map.empty" "same_mem s s1" "delivered U dst (map ?c [off..<off + m]) s dst1 (umem s1)" "ready ps U dst1 (left - m) s1"
      using readi_round[OF less.prems(1-3) _ less.prems(4) _ m_def less.prems(6)] False by blast
    note D = same_memD[OF r(3)]
    have "\<exists>dst' s'. readi_loop ip dst1 (of_nat (off + m)) (left - m) (tot + int m) s1 = Inr (tot + int m + int (left - m), dst', s') \<and>
      linv s' Map.empty \<and> same_mem s1 s' \<and>
      delivered U dst1 (map (content (view s1) (addrs ip s1)) [off + m..<off + m + (left - m)]) s1 dst' (umem s')"
    proof (rule less.IH)
      show "left - m < left" using m by simp
      show "load ip s1 + 1 < log_cap s1" using less.prems(3) D by (simp add: load_def)
      show "has_blocks (view s1) (addrs ip s1) (off + m) (off + m + (left - m))" using less.prems(5) D m by (auto simp: has_blocks_def)
    qed (use r file_ok_mem[OF r(3)] less.prems(2,4) m in auto)
    then obtain dst2 s2 where i: "readi_loop ip dst1 (of_nat (off + m)) (left - m) (tot + int m) s1 = Inr (tot + int left, dst2, s2)"
      "linv s2 Map.empty" "same_mem s1 s2" "delivered U dst1 (map ?c [off + m..<off + left]) s1 dst2 (umem s2)" using D m(2) by auto
    have up: "map ?c [off..<off + m] @ map ?c [off + m..<off + left] = map ?c [off..<off + left]"
      using m(2) upt_add_eq_append[of off "off + m" "left - m"] by (simp flip: map_append)
    have "s1\<lparr>umem := umem s1\<rparr> = s1" by simp
    then have "delivered U dst (map ?c [off..<off + left]) s dst2 (umem s2)"
      unfolding up[symmetric] using delivered_append[OF r(4), of "map ?c [off + m..<off + left]" s1 dst2 "umem s2" ps] i(4) D(3) less.prems(6) m(2) by simp
    then show ?thesis unfolding r(1) using i same_mem_trans[OF r(3)] by blast
  qed
qed

lemma readi_ok:
  assumes "linv s Map.empty" and "file_ok ip s" and "load ip s + 1 < log_cap s"
    and sz: "sz = unat (i_size (itable s ip))" "sz \<le> MAXFILE * BSIZE" "has_blocks (view s) (addrs ip s) 0 sz" and w: "unat off + unat n < 2 ^ 32"
    and rd: "ready ps U dst (min (unat n) (sz - unat off)) s"
  shows "\<exists>dst' s'. readi ip dst off n s = Inr (int (min (unat n) (sz - unat off)), dst', s') \<and> linv s' Map.empty \<and> same_mem s s' \<and>
    delivered U dst (map (content (view s) (addrs ip s)) [unat off..<min (unat off + unat n) sz]) s dst' (umem s')"
proof -
  have un: "unat (off + n) = unat off + unat n" using w by (simp add: unat_plus_if')
  have nw: "\<not> off + n < off" unfolding word_less_nat_alt un by simp
  show ?thesis
  proof (cases "i_size (itable s ip) < off")
    case True
    then have "sz < unat off" using sz(1) by (simp add: word_less_nat_alt)
    moreover have "same_mem s s" by (simp add: same_mem_def)
    moreover have "delivered U dst [] s dst (umem s)" by (cases dst) (simp_all add: stored_Nil)
    ultimately show ?thesis using True assms(1) by (intro exI[of _ dst] exI[of _ s]) (simp add: readi_def)
  next
    case False
    let ?l = "min (unat n) (sz - unat off)"
    have le: "unat off \<le> sz" using False sz(1) by (simp add: word_less_nat_alt)
    have l: "unat (if off + n > i_size (itable s ip) then i_size (itable s ip) - off else n) = ?l"
      using sz(1) le un by (auto simp: word_less_nat_alt unat_sub word_le_nat_alt)
    have b: "has_blocks (view s) (addrs ip s) (unat off) (unat off + ?l)" using sz(3) le by (auto simp: has_blocks_def)
    have mx: "unat off + ?l \<le> MAXFILE * BSIZE" using sz(2) le by linarith
    have "unat off + ?l = min (unat off + unat n) sz" using le by simp
    then show ?thesis using readi_loop_ok[OF assms(1-3) mx b rd, of 0] False nw l by (simp add: readi_def Let_def)
  qed
qed

end
