(* ===== verification/FsWrite.thy ===== *)
theory FsWrite
  imports FsRead
begin

text \<open>
  \<^verbatim>\<open>writei\<close> of \<^verbatim>\<open>kernel/fs.c\<close>: what its loop does to the blocks and to the contents of a file.
\<close>

section \<open>The disk\<close>

text \<open>
  What a write may do to the disk: give the file available blocks, change its blocks and the bitmap, and nothing else.
\<close>

definition wrote :: "superblock \<Rightarrow> (uint \<Rightarrow> block) \<Rightarrow> uint list \<Rightarrow> (uint \<Rightarrow> block) \<Rightarrow> uint list \<Rightarrow> bool" where
  "wrote sbk V A V' A' \<longleftrightarrow>
     (\<forall>k < NSLOT. slot V A k \<noteq> 0 \<longrightarrow> slot V' A' k = slot V A k) \<and>
     (\<forall>b. available sbk V' b \<longleftrightarrow> available sbk V b \<and> b \<notin> owned V' A') \<and>
     (\<forall>b. \<not> available sbk V b \<longrightarrow> b \<notin> bitmap_blocks sbk \<longrightarrow> b \<notin> owned V A \<longrightarrow> V' b = V b) \<and>
     (\<forall>b \<in> owned V' A'. b \<in> owned V A \<or> available sbk V b)"

lemma wroteD:
  assumes "wrote sbk V A V' A'"
  shows "k < NSLOT \<Longrightarrow> slot V A k \<noteq> 0 \<Longrightarrow> slot V' A' k = slot V A k" "available sbk V' b \<longleftrightarrow> available sbk V b \<and> b \<notin> owned V' A'"
    "\<not> available sbk V b \<Longrightarrow> b \<notin> bitmap_blocks sbk \<Longrightarrow> b \<notin> owned V A \<Longrightarrow> V' b = V b"
    "b \<in> owned V' A' \<Longrightarrow> b \<in> owned V A \<or> available sbk V b"
  using assms unfolding wrote_def by blast+

lemma owned_mono:
  assumes "\<And>k. k < NSLOT \<Longrightarrow> slot V A k \<noteq> 0 \<Longrightarrow> slot V' A' k = slot V A k"
  shows "owned V A \<subseteq> owned V' A'"
proof
  fix b assume "b \<in> owned V A"
  then obtain k where "k < NSLOT" "b = slot V A k" "b \<noteq> 0" by (auto simp: owned_def)
  then show "b \<in> owned V' A'" using assms[of k] ownedI[of k V' A'] by simp
qed

lemma gained_wrote:
  assumes "gained sbk V A V' A'"
  shows "wrote sbk V A V' A'"
proof -
  note g = gainedD[OF assms]
  have "b \<in> owned V A \<or> available sbk V b" if b: "b \<in> owned V' A'" for b
  proof -
    obtain k where k: "k < NSLOT" "b = slot V' A' k" "b \<noteq> 0" using b by (auto simp: owned_def)
    show ?thesis using g(1)[of k] g(4)[of k] ownedI[of k V A] k by (cases "slot V A k = 0") auto
  qed
  then show ?thesis unfolding wrote_def using g indirect_owned by blast
qed

lemma wrote_trans:
  assumes "wrote sbk V A V' A'" and "wrote sbk V' A' V'' A''"
  shows "wrote sbk V A V'' A''"
proof -
  note g = wroteD[OF assms(1)] and h = wroteD[OF assms(2)]
  have sub: "owned V A \<subseteq> owned V' A'" "owned V' A' \<subseteq> owned V'' A''" using owned_mono[OF g(1)] owned_mono[OF h(1)] by blast+
  have "slot V'' A'' k = slot V A k" if "k < NSLOT" "slot V A k \<noteq> 0" for k using g(1)[of k] h(1)[of k] that by simp
  moreover have "available sbk V'' b \<longleftrightarrow> available sbk V b \<and> b \<notin> owned V'' A''" for b using g(2) h(2) sub by blast
  moreover have "V'' b = V b" if "\<not> available sbk V b" "b \<notin> bitmap_blocks sbk" "b \<notin> owned V A" for b
    using g(2,3,4)[of b] h(3)[of b] that by metis
  moreover have "b \<in> owned V A \<or> available sbk V b" if "b \<in> owned V'' A''" for b using h(4)[OF that] g(2,4)[of b] by blast
  ultimately show ?thesis unfolding wrote_def by blast
qed

lemma gained_content:
  assumes "map_ok sbk R V A" and "gained sbk V A V' A'" and "i < MAXFILE * BSIZE" and "slot V A (bslot (i div BSIZE)) \<noteq> 0"
  shows "content V' A' i = content V A i"
proof -
  let ?k = "bslot (i div BSIZE)"
  note g = gainedD[OF assms(2)] and k = bslot_less[OF assms(3)]
  note o = map_okD(3)[OF assms(1) ownedI[OF k assms(4)]]
  have "slot V A ?k \<notin> indirect A" using map_okD(2)[OF assms(1) k, of NDIRECT] assms(4) bslot_direct[of "i div BSIZE"] slot_indirect[of V A] by (auto simp: indirect_def)
  then have "V' (slot V A ?k) = V (slot V A ?k)" using g(3) o by blast
  then show ?thesis using g(1)[OF k assms(4)] by (simp add: content_def)
qed

text \<open>Bytes are stored into one of the data blocks.\<close>

lemma store_slot:
  assumes m: "map_ok sbk R V A" and k: "k < NSLOT" "k \<noteq> NDIRECT" "slot V A k \<noteq> 0"
  shows "slot (V(slot V A k := v)) A j = slot V A j" and "alloc_ok sbk R V \<Longrightarrow> alloc_ok sbk R (V(slot V A k := v))"
    and "map_ok sbk R (V(slot V A k := v)) A" and "wrote sbk V A (V(slot V A k := v)) A"
proof -
  let ?a = "slot V A k" and ?W = "V(slot V A k := v)"
  note o = map_okD(3)[OF m ownedI[OF k(1,3)]]
  have "?a \<noteq> A ! NDIRECT" using map_okD(2)[OF m k(1), of NDIRECT] k(2,3) slot_indirect[of V A] by auto
  then show sl: "slot ?W A j = slot V A j" for j by (simp add: slot_def)
  have ow: "owned ?W A = owned V A" by (simp add: owned_def sl)
  have fr: "unat b < unat (fssize sbk) \<Longrightarrow> block_free sbk ?W b = block_free sbk V b" for b by (rule block_free_cong) (use o in auto)
  show "alloc_ok sbk R V \<Longrightarrow> alloc_ok sbk R ?W" using fr unfolding alloc_ok_def by blast
  show "map_ok sbk R ?W A" unfolding map_ok_def ow sl using m fr unfolding map_ok_def by blast
  show "wrote sbk V A ?W A" unfolding wrote_def ow sl using fr map_okD(3)[OF m] ownedI[OF k(1,3)] by auto
qed

section \<open>The loop\<close>

text \<open>The number of blocks that \<open>n\<close> bytes from an offset on lie in.\<close>

definition span :: "nat \<Rightarrow> nat \<Rightarrow> nat" where
  "span off n = (if n = 0 then 0 else (off + n - 1) div BSIZE - off div BSIZE + 1)"

lemma span_step:
  assumes "0 < n" and "m = min n (BSIZE - off mod BSIZE)"
  shows "span (off + m) (n - m) + 1 \<le> span off n"
proof (cases "n = m")
  case True
  then show ?thesis using assms(1) by (simp add: span_def)
next
  case False
  then have m: "m = BSIZE - off mod BSIZE" "m < n" using assms(2) by auto
  have "off mod BSIZE < BSIZE" by simp
  then have e: "off + m = BSIZE * (off div BSIZE) + BSIZE" using m(1) mult_div_mod_eq[of BSIZE off] by linarith
  have d: "(off + m) div BSIZE = off div BSIZE + 1" unfolding e div_mult_self4[OF numeral_neq_zero] by simp
  have "(off + m) div BSIZE \<le> (off + n - 1) div BSIZE" using m(2) by (intro div_le_mono) simp
  moreover have "span (off + m) (n - m) = (off + n - 1) div BSIZE - (off + m) div BSIZE + 1" "span off n = (off + n - 1) div BSIZE - off div BSIZE + 1"
    using m(2) by (simp_all add: span_def)
  ultimately show ?thesis using d by linarith
qed

text \<open>The bytes are stored in the file from an offset on.\<close>

definition stored_at :: "nat \<Rightarrow> nat \<Rightarrow> uchar list \<Rightarrow> 'a fs_scheme \<Rightarrow> 'a fs_scheme \<Rightarrow> bool" where
  "stored_at ip off bs s s' \<longleftrightarrow> linv s' Map.empty \<and> file_ok ip s' \<and> same_but ip s s' \<and>
     wrote (sb s) (view s) (addrs ip s) (view s') (addrs ip s') \<and> has_blocks (view s') (addrs ip s') off (off + length bs) \<and>
     (\<forall>i < MAXFILE * BSIZE. off \<le> i \<and> i < off + length bs \<longrightarrow> content (view s') (addrs ip s') i = bs ! (i - off)) \<and>
     (\<forall>i < MAXFILE * BSIZE. \<not> (off \<le> i \<and> i < off + length bs) \<longrightarrow> slot (view s) (addrs ip s) (bslot (i div BSIZE)) \<noteq> 0 \<longrightarrow>
        content (view s') (addrs ip s') i = content (view s) (addrs ip s) i)"

lemma wrote_slot: "wrote sbk V A V' A' \<Longrightarrow> x < MAXFILE * BSIZE \<Longrightarrow> slot V A (bslot (x div BSIZE)) \<noteq> 0 \<Longrightarrow> slot V' A' (bslot (x div BSIZE)) = slot V A (bslot (x div BSIZE))"
  using wroteD(1)[OF _ bslot_less] by blast

lemma stored_at_append:
  assumes 1: "stored_at ip off bs s s1" and 2: "stored_at ip (off + length bs) cs s1 s2" and b: "off + length bs + length cs \<le> MAXFILE * BSIZE"
  shows "stored_at ip off (bs @ cs) s s2"
proof -
  have sb: "sb s1 = sb s" using 1 same_butD(10) unfolding stored_at_def by blast
  have w1: "wrote (sb s) (view s) (addrs ip s) (view s1) (addrs ip s1)" and w2: "wrote (sb s) (view s1) (addrs ip s1) (view s2) (addrs ip s2)"
    using 1 2 sb by (simp_all add: stored_at_def)
  have h1: "has_blocks (view s1) (addrs ip s1) off (off + length bs)" and h2: "has_blocks (view s2) (addrs ip s2) (off + length bs) (off + length bs + length cs)"
    using 1 2 by (simp_all add: stored_at_def)
  have h: "has_blocks (view s2) (addrs ip s2) off (off + length (bs @ cs))" unfolding has_blocks_def
  proof (intro allI impI)
    fix x assume x: "off \<le> x" "x < off + length (bs @ cs)"
    show "slot (view s2) (addrs ip s2) (bslot (x div BSIZE)) \<noteq> 0"
    proof (cases "x < off + length bs")
      case True
      then have "slot (view s1) (addrs ip s1) (bslot (x div BSIZE)) \<noteq> 0" using h1 x by (simp add: has_blocks_def)
      then show ?thesis using wrote_slot[OF w2] x b by simp
    qed (use h2 x in \<open>simp add: has_blocks_def\<close>)
  qed
  have new: "content (view s2) (addrs ip s2) i = (bs @ cs) ! (i - off)" if i: "i < MAXFILE * BSIZE" "off \<le> i" "i < off + length (bs @ cs)" for i
  proof (cases "i < off + length bs")
    case True
    then have "slot (view s1) (addrs ip s1) (bslot (i div BSIZE)) \<noteq> 0" using h1 i by (simp add: has_blocks_def)
    then show ?thesis using 1 2 i True by (auto simp: stored_at_def nth_append)
  next
    case False
    then show ?thesis using 2 i by (auto simp: stored_at_def nth_append)
  qed
  have old: "content (view s2) (addrs ip s2) i = content (view s) (addrs ip s) i"
    if i: "i < MAXFILE * BSIZE" "\<not> (off \<le> i \<and> i < off + length (bs @ cs))" "slot (view s) (addrs ip s) (bslot (i div BSIZE)) \<noteq> 0" for i
  proof -
    have "slot (view s1) (addrs ip s1) (bslot (i div BSIZE)) \<noteq> 0" using wrote_slot[OF w1] i by simp
    then show ?thesis using 1 2 i by (auto simp: stored_at_def)
  qed
  have sm: "same_but ip s s2" using same_but_trans 1 2 unfolding stored_at_def by blast
  show ?thesis using wrote_trans[OF w1 w2] h new old sm 2 unfolding stored_at_def by blast
qed

lemma stored_at_nil:
  assumes "mapped ip k s a s1" and "file_ok ip s"
  shows "stored_at ip off [] s s1"
proof -
  have m: "map_ok (sb s) (larea s \<union> inode_blocks (sb s)) (view s) (addrs ip s)" using assms(2) by (simp add: file_ok_def)
  have g: "gained (sb s) (view s) (addrs ip s) (view s1) (addrs ip s1)" using assms(1) by (simp add: mapped_def)
  show ?thesis using assms(1) gained_wrote[OF g] gained_content[OF m g] by (auto simp: stored_at_def mapped_def has_blocks_def)
qed

text \<open>One round of the loop: the bytes go into the block that \<^verbatim>\<open>bmap\<close> returned.\<close>

lemma store_chunk:
  assumes m: "mapped ip (bslot (off div BSIZE)) s a s1" and f: "file_ok ip s" and a: "a \<noteq> 0" and bs: "bs \<noteq> []" "off mod BSIZE + length bs \<le> BSIZE"
    and mx: "off + length bs \<le> MAXFILE * BSIZE"
    and s2: "linv s2 Map.empty" "tx.same s1 s2" "view s2 = (view s1)(a := put_block (view s1 a) (off mod BSIZE) bs)"
  shows "stored_at ip off bs s s2"
proof -
  let ?V = "view s" and ?A = "addrs ip s" and ?V1 = "view s1" and ?A1 = "addrs ip s1" and ?k = "bslot (off div BSIZE)"
  let ?W = "?V1(a := put_block (?V1 a) (off mod BSIZE) bs)"
  have sm: "same_but ip s s1" and f1: "file_ok ip s1" and g: "gained (sb s) ?V ?A ?V1 ?A1" and ae: "a = slot ?V1 ?A1 ?k"
    using m by (simp_all add: mapped_def)
  note D = same_butD[OF sm] and E = same_fs[OF s2(2)]
  have m0: "map_ok (sb s) (larea s \<union> inode_blocks (sb s)) ?V ?A" and m1: "map_ok (sb s) (larea s \<union> inode_blocks (sb s)) ?V1 ?A1"
    and al: "alloc_ok (sb s) (larea s \<union> inode_blocks (sb s)) ?V1" using f f1 D(10,16) by (simp_all add: file_ok_def)
  have off: "off < MAXFILE * BSIZE" using bs(1) mx by (cases bs) auto
  note k = bslot_less[OF off] bslot_direct[of "off div BSIZE"]
  note S = store_slot[OF m1 k, folded ae, OF a, of "put_block (?V1 a) (off mod BSIZE) bs"]
  have A2: "addrs ip s2 = ?A1" using E by simp
  have "file_ok ip s2" using S(2)[OF al] S(3) f1 E D s2(3) by (simp add: file_ok_def)
  moreover have "same_but ip s s2" using same_but_trans[OF sm same_but_same[OF s2(2)]] .
  moreover have "wrote (sb s) ?V ?A (view s2) (addrs ip s2)" unfolding A2 s2(3) using wrote_trans[OF gained_wrote[OF g] S(4)] .
  moreover have same: "(off + i) div BSIZE = off div BSIZE \<and> (off + i) mod BSIZE = off mod BSIZE + i" if "i < length bs" for i
    using chunk[of "length bs" "length bs" off i] that bs by simp
  have "has_blocks (view s2) (addrs ip s2) off (off + length bs)" unfolding has_blocks_def A2 s2(3) S(1)
  proof (intro allI impI)
    fix x assume "off \<le> x" "x < off + length bs"
    then have "x div BSIZE = off div BSIZE" using same[of "x - off"] by simp
    then show "slot ?V1 ?A1 (bslot (x div BSIZE)) \<noteq> 0" using a ae by simp
  qed
  moreover have "content (view s2) (addrs ip s2) i = bs ! (i - off)" if i: "off \<le> i" "i < off + length bs" for i
  proof -
    obtain j where j: "i = off + j" "j < length bs" using i by (metis add_less_cancel_left le_iff_add)
    show ?thesis unfolding content_def A2 s2(3) S(1) j(1) using same[OF j(2)] j(2) ae by (simp add: put_block_def)
  qed
  moreover have "content (view s2) (addrs ip s2) i = content ?V ?A i"
    if i: "i < MAXFILE * BSIZE" "\<not> (off \<le> i \<and> i < off + length bs)" "slot ?V ?A (bslot (i div BSIZE)) \<noteq> 0" for i
  proof -
    have "?W (slot ?V1 ?A1 (bslot (i div BSIZE))) (i mod BSIZE) = ?V1 (slot ?V1 ?A1 (bslot (i div BSIZE))) (i mod BSIZE)"
    proof (cases "slot ?V1 ?A1 (bslot (i div BSIZE)) = a")
      case True
      then have "bslot (i div BSIZE) = ?k" using map_okD(2)[OF m1 bslot_less[OF i(1)] k(1)] a ae by simp
      then have "i div BSIZE = off div BSIZE" by (auto simp: bslot_def split: if_splits)
      then have "off mod BSIZE + i = i mod BSIZE + off" using mult_div_mod_eq[of BSIZE off] mult_div_mod_eq[of BSIZE i] by linarith
      then have "\<not> (off mod BSIZE \<le> i mod BSIZE \<and> i mod BSIZE < off mod BSIZE + length bs)" using i(2) by linarith
      then show ?thesis using True by (auto simp: put_block_def)
    qed simp
    then show ?thesis using gained_content[OF m0 g i(1,3)] unfolding content_def A2 s2(3) S(1) by simp
  qed
  ultimately show ?thesis unfolding stored_at_def using s2(1) by blast
qed

text \<open>Where the bytes come from: a kernel buffer, or readable memory of the process.\<close>

fun supplies :: "'a fs_scheme \<Rightarrow> end_addr \<Rightarrow> uchar list \<Rightarrow> bool" where
  "supplies s (Kern xs) bs \<longleftrightarrow> xs = bs"
| "supplies s (User a) bs \<longleftrightarrow>
     (\<forall>i n. i + n \<le> length bs \<longrightarrow> copyin (upagetable s) (a + of_nat i) n (umem s) = Inr (0, take n (drop i bs)))"

lemma supplies_step:
  assumes "supplies s src bs" and "n \<le> length bs"
  shows "\<exists>src'. either_copyin src n s = Inr (0, take n bs, src') \<and> supplies s src' (drop n bs)"
proof (cases src)
  case (User a)
  have c: "copyin (upagetable s) (a + of_nat i) k (umem s) = Inr (0, take k (drop i bs))" if "i + k \<le> length bs" for i k
    using assms(1) User that by simp
  have "copyin (upagetable s) (a + of_nat n + of_nat i) k (umem s) = Inr (0, take k (drop i (drop n bs)))" if "i + k \<le> length (drop n bs)" for i k
  proof -
    have "copyin (upagetable s) (a + of_nat (i + n)) k (umem s) = Inr (0, take k (drop (i + n) bs))"
      using assms(2) that by (intro c) simp
    then show ?thesis by (simp add: ac_simps)
  qed
  moreover have "copyin (upagetable s) a n (umem s) = Inr (0, take n bs)" using c[of 0 n] assms(2) by simp
  ultimately show ?thesis using User by simp
qed (use assms in simp)

lemma supplies_cong: "upagetable s' = upagetable s \<Longrightarrow> umem s' = umem s \<Longrightarrow> supplies s' src bs = supplies s src bs"
  by (cases src) simp_all

lemma supplies_user:
  assumes "ptree (umem s) (upagetable s) ps" and "unat a + n \<le> 2 ^ 38" and "\<forall>i < n. readable (umem s) (upagetable s) (a + of_nat i)"
  shows "supplies s (User a) (ubytes (umem s) (upagetable s) a n)"
  unfolding supplies.simps
proof (intro allI impI)
  fix i k assume "i + k \<le> length (ubytes (umem s) (upagetable s) a n)"
  then have ik: "i + k \<le> n" by simp
  have u: "unat (a + of_nat i) + k \<le> 2 ^ 38" using assms(2) ik unat_add_nat[of a i] by simp
  have "readable (umem s) (upagetable s) (a + of_nat i + of_nat j)" if "j < k" for j
    using assms(3)[rule_format, of "i + j"] that ik by (simp add: add.assoc)
  then have c: "copyin (upagetable s) (a + of_nat i) k (umem s) = Inr (0, ubytes (umem s) (upagetable s) (a + of_nat i) k)"
    using copyin_spec[OF assms(1) u] by simp
  obtain j where "n = i + (k + j)" using ik by (metis le_iff_add add.assoc)
  then have "ubytes (umem s) (upagetable s) (a + of_nat i) k = take k (drop i (ubytes (umem s) (upagetable s) a n))"
    by (simp add: ubytes_add[of _ _ _ i] ubytes_add[of _ _ _ k])
  then show "copyin (upagetable s) (a + of_nat i) k (umem s) = Inr (0, take k (drop i (ubytes (umem s) (upagetable s) a n)))" using c by simp
qed

lemma writei_loop_ok:
  assumes "linv s Map.empty" and "file_ok ip s" and "load ip s + span off (length bs) < log_cap s" and "off + length bs \<le> MAXFILE * BSIZE"
    and "supplies s src bs"
  shows "\<exists>n s'. writei_loop ip src (of_nat off) (length bs) tot s = Inr (tot + int n, of_nat (off + n), s') \<and> n \<le> length bs \<and>
    (n < length bs \<longrightarrow> (\<forall>b. \<not> available (sb s) (view s') b)) \<and> stored_at ip off (take n bs) s s' \<and> load ip s' \<le> load ip s + span off (length bs)"
  using assms
proof (induction "length bs" arbitrary: bs src off tot s rule: less_induct)
  case less
  have f: "file_ok ip s" and l: "linv s Map.empty" using less.prems by simp_all
  show ?case
  proof (cases "bs = []")
    case True
    have "map_ok (sb s) (larea s \<union> inode_blocks (sb s)) (view s) (addrs ip s)" using f by (simp add: file_ok_def)
    then have "wrote (sb s) (view s) (addrs ip s) (view s) (addrs ip s)" by (intro gained_wrote gained_refl)
    then have "stored_at ip off [] s s" using f l by (auto simp: stored_at_def has_blocks_def same_but_def)
    then show ?thesis using True by (intro exI[of _ 0] exI[of _ s]) (simp add: writei_loop.simps[of _ _ _ 0])
  next
    case False
    define m where "m = min (length bs) (BSIZE - off mod BSIZE)"
    let ?k = "bslot (off div BSIZE)"
    have n0: "0 < length bs" using False by simp
    have off: "off < MAXFILE * BSIZE" using less.prems(4) n0 by linarith
    note w = off_word[OF off]
    have m: "0 < m" "m \<le> length bs" using False by (auto simp: m_def)
    have sp: "span (off + m) (length bs - m) + 1 \<le> span off (length bs)" using span_step[OF n0 m_def] .
    have cap1: "load ip s + 1 < log_cap s" using less.prems(3) sp by linarith
    obtain a s1 where a: "bmap ip (of_nat off div 1024) s = Inr (a, s1)" "mapped ip ?k s a s1"
      using bmap_ok[OF l f cap1, of "of_nat off div 1024"] w(2) off by (auto simp: div_less_iff_less_mult)
    have s1: "linv s1 Map.empty" "file_ok ip s1" "same_but ip s s1" "a = slot (view s1) (addrs ip s1) ?k"
      "a = 0 \<longrightarrow> (\<forall>b. \<not> available (sb s) (view s1) b)"
      "set (blocks s1) \<subseteq> set (blocks s) \<union> bitmap_blocks (sb s) \<union> indirect (addrs ip s1) \<union> ({a} - {0})"
      "gained (sb s) (view s) (addrs ip s) (view s1) (addrs ip s1)" using a(2) unfolding mapped_def by blast+
    note D = same_butD[OF s1(3)]
    have ind: "addrs ip s ! NDIRECT \<noteq> 0 \<Longrightarrow> addrs ip s1 ! NDIRECT = addrs ip s ! NDIRECT"
      using gainedD(1)[OF s1(7), of NDIRECT] by (simp add: slot_indirect)
    show ?thesis
    proof (cases "a = 0")
      case True
      have "load ip s1 \<le> load ip s + 0" by (rule load_step[OF D(10) ind, of "{}"]) (use s1(6) True in auto)
      then show ?thesis using False a(1) True s1(5) stored_at_nil[OF a(2) f, of off]
        by (intro exI[of _ 0] exI[of _ s1]) (simp add: writei_loop.simps)
    next
      case a0: False
      have "load ip s1 \<le> load ip s + 1" by (rule load_step[OF D(10) ind, of "{a}"]) (use s1(6) in auto)
      then have len: "length (blocks s1) < log_cap s1" using load_blocks[OF s1(1), of ip] cap1 D(15) by linarith
      have "a \<in> owned (view s1) (addrs ip s1)" using a0 s1(4) ownedI[OF bslot_less[OF off]] by metis
      then have an: "a \<notin> larea s1" using s1(2) map_okD(3) unfolding file_ok_def by blast
      have d: "i_dev (itable s1 ip) = ROOTDEV" using s1(2) by (simp add: file_ok_def)
      let ?bs = "take m bs"
      let ?v = "put_block (view s1 a) (off mod BSIZE) ?bs"
      obtain bp s2 s3 s4 where r: "bread ROOTDEV a s1 = Inr (bp, s2)" "data (bufs s2 bp) = view s1 a" "log_write bp (set_data bp ?v s2) = Inr s3"
        "brelse bp s3 = Inr s4" "linv s4 Map.empty" "view s4 = (view s1)(a := ?v)" "tx.same s1 s4"
        "blocks s4 = (if a \<in> set (blocks s1) then blocks s1 else blocks s1 @ [a])" "tx.same s1 s2"
        using tx.update_block[OF s1(1) _ an tx_room[OF s1(1) len] len, of ?v] by auto
      note E = same_fs[OF r(7)]
      have "off mod BSIZE < BSIZE" by simp
      then have fit: "off mod BSIZE + length ?bs \<le> BSIZE" by (simp add: m_def)
      have st: "stored_at ip off ?bs s s4"
        by (rule store_chunk[OF a(2) f a0 _ fit _ r(5,7,6)]) (use False m less.prems(4) in auto)
      have ld: "load ip s4 \<le> load ip s + 1"
        by (rule load_step[of s4 s ip "{a}"]) (use s1(6) r(8) D(10) E ind in auto)
      obtain src' where src: "either_copyin src m s2 = Inr (0, ?bs, src')" "supplies s2 src' (drop m bs)"
        using supplies_step[of s2 src bs m] supplies_cong[of s2 s src bs] less.prems(5) m(2) D(11,12) same_fs[OF r(9)] by auto
      have step: "writei_loop ip src (of_nat off) (length bs) tot s =
          writei_loop ip src' (of_nat (off + m)) (length bs - m) (tot + int m) s4"
        using False a(1) a0 d r src(1) w(1) by (subst writei_loop.simps) (simp add: Let_def m_def)
      have sb4: "sb s4 = sb s" using E D(10) by simp
      have "\<exists>n s'. writei_loop ip src' (of_nat (off + m)) (length (drop m bs)) (tot + int m) s4 =
          Inr (tot + int m + int n, of_nat (off + m + n), s') \<and> n \<le> length (drop m bs) \<and>
        (n < length (drop m bs) \<longrightarrow> (\<forall>b. \<not> available (sb s4) (view s') b)) \<and> stored_at ip (off + m) (take n (drop m bs)) s4 s' \<and>
        load ip s' \<le> load ip s4 + span (off + m) (length (drop m bs))"
      proof (rule less.hyps)
        show "load ip s4 + span (off + m) (length (drop m bs)) < log_cap s4" using ld sp less.prems(3) D(15) E by simp
        show "file_ok ip s4" using st by (simp add: stored_at_def)
        show "supplies s4 src' (drop m bs)" using src(2) supplies_cong[of s4 s2] E same_fs[OF r(9)] by simp
      qed (use r(5) m less.prems(4) in auto)
      then obtain n s' where n: "writei_loop ip src' (of_nat (off + m)) (length bs - m) (tot + int m) s4 =
          Inr (tot + int m + int n, of_nat (off + m + n), s')" "n \<le> length bs - m"
        "n < length bs - m \<longrightarrow> (\<forall>b. \<not> available (sb s) (view s') b)" "stored_at ip (off + m) (take n (drop m bs)) s4 s'"
        "load ip s' \<le> load ip s4 + span (off + m) (length bs - m)" unfolding length_drop sb4 by blast
      have "length ?bs = m" using m(2) by simp
      then have "stored_at ip off (?bs @ take n (drop m bs)) s s'"
        using stored_at_append[OF st, of "take n (drop m bs)" s'] n(2,4) less.prems(4) m(2) by simp
      moreover have "?bs @ take n (drop m bs) = take (m + n) bs" by (simp add: take_add)
      ultimately have "stored_at ip off (take (m + n) bs) s s'" by simp
      moreover have "load ip s' \<le> load ip s + span off (length bs)" using n(5) ld sp by linarith
      moreover have "m + n \<le> length bs" "m + n < length bs \<longleftrightarrow> n < length bs - m" using n(2) m(2) by linarith+
      ultimately show ?thesis unfolding step n(1) using n(3) by (intro exI[of _ "m + n"] exI[of _ s']) (simp add: add.assoc)
    qed
  qed
qed

end
