(* ===== verification/FsInode.thy ===== *)
theory FsInode
  imports FsWrite
begin

text \<open>
  Inodes on the disk, and the properties of \<^verbatim>\<open>readi\<close> and \<^verbatim>\<open>writei\<close> of \<^verbatim>\<open>kernel/fs.c\<close>.
\<close>

section \<open>The inode in its block\<close>

lemma put_addrs:
  "get32 (fold (\<lambda>k v. put32 v (b + 4 * k) (xs ! k)) [0..<n] v) (b + 4 * j) = (if j < n then xs ! j else get32 v (b + 4 * j))"
proof (induction n)
  case (Suc n)
  then show ?case by (cases "j = n") auto
qed simp

lemma put_addrs_outside:
  "x < b \<or> b + 4 * n \<le> x \<Longrightarrow> fold (\<lambda>k v. put32 v (b + 4 * k) (xs ! k)) [0..<n] v x = v x"
  by (induction n) auto

lemma put_addrs_below:
  "c + 4 \<le> b \<Longrightarrow> get32 (fold (\<lambda>k v. put32 v (b + 4 * k) (xs ! k)) [0..<n] v) c = get32 v c"
  "c + 2 \<le> b \<Longrightarrow> get16 (fold (\<lambda>k v. put32 v (b + 4 * k) (xs ! k)) [0..<n] v) c = get16 v c"
  by (auto intro!: get32_cong get16_cong put_addrs_outside)

lemma get_put_dinode:
  assumes "length (i_addrs x) = NDIRECT + 1"
  shows "get_dinode i (put_dinode i x v) x = x"
proof -
  have "map (\<lambda>k. get32 (put_dinode i x v) (dino i + 12 + 4 * k)) [0..<NDIRECT + 1] = i_addrs x"
    by (rule nth_equalityI) (use assms in \<open>simp_all add: put_dinode_def Let_def put_addrs del: upt_Suc\<close>)
  then show ?thesis unfolding get_dinode_def Let_def
    by (simp add: put_dinode_def Let_def put_addrs_below del: upt_Suc)
qed

lemma put_dinode_outside: "k < dino i \<or> dino i + 64 \<le> k \<Longrightarrow> put_dinode i x v k = v k"
  unfolding put_dinode_def Let_def by (subst put_addrs_outside) auto

lemma get_put_other_dinode:
  assumes "unat i mod 16 \<noteq> unat j mod 16"
  shows "get_dinode j (put_dinode i x v) = get_dinode j v"
proof -
  have d: "dino j + 64 \<le> dino i \<or> dino i + 64 \<le> dino j" using assms by (auto simp: dino_def)
  have o: "put_dinode i x v k = v k" if "dino j \<le> k" "k < dino j + 64" for k using d that by (intro put_dinode_outside) auto
  have g: "c + 2 \<le> 64 \<Longrightarrow> get16 (put_dinode i x v) (dino j + c) = get16 v (dino j + c)"
    "c + 4 \<le> 64 \<Longrightarrow> get32 (put_dinode i x v) (dino j + c) = get32 v (dino j + c)" for c
    using o by (auto intro!: get16_cong get32_cong)
  have "map (\<lambda>k. get32 (put_dinode i x v) (dino j + 12 + 4 * k)) [0..<NDIRECT + 1] = map (\<lambda>k. get32 v (dino j + 12 + 4 * k)) [0..<NDIRECT + 1]"
    by (rule map_cong) (use g(2)[of "12 + 4 * _"] in \<open>auto simp: add.assoc\<close>)
  then show ?thesis using g(1)[of 0] g(1)[of 2] g(1)[of 4] g(1)[of 6] g(2)[of 8] by (intro ext) (simp add: get_dinode_def Let_def)
qed

lemma IBLOCK_eq: "IBLOCK i sbk = IBLOCK j sbk \<longleftrightarrow> unat i div 16 = unat j div 16"
  unfolding IBLOCK_def add_right_cancel by (simp add: word_unat_eq_iff unat_div)

lemma same_inode: "IBLOCK i sbk = IBLOCK j sbk \<Longrightarrow> unat i mod 16 = unat j mod 16 \<Longrightarrow> i = j"
  unfolding IBLOCK_eq by (metis div_mult_mod_eq word_unat_eq_iff)

lemma iupdate_ok:
  assumes "linv s Map.empty" and "i_dev (itable s ip) = ROOTDEV" and "IBLOCK (i_inum (itable s ip)) (sb s) \<notin> larea s" and "length (blocks s) < log_cap s"
  shows "\<exists>s'. iupdate ip s = Inr s' \<and> linv s' Map.empty \<and> tx.same s s' \<and> set (blocks s') = insert (IBLOCK (i_inum (itable s ip)) (sb s)) (set (blocks s)) \<and>
    view s' = (view s)(IBLOCK (i_inum (itable s ip)) (sb s) :=
      put_dinode (i_inum (itable s ip)) (itable s ip) (view s (IBLOCK (i_inum (itable s ip)) (sb s))))"
proof -
  let ?n = "IBLOCK (i_inum (itable s ip)) (sb s)" and ?v = "put_dinode (i_inum (itable s ip)) (itable s ip)"
  obtain s' where "bindE (bread ROOTDEV ?n s) (\<lambda>(bp, t). bindE (log_write bp (set_data bp (?v (data (bufs t bp))) t)) (brelse bp)) = Inr s'"
    "linv s' Map.empty" "view s' = (view s)(?n := ?v (view s ?n))" "tx.same s s'" "blocks s' = (if ?n \<in> set (blocks s) then blocks s else blocks s @ [?n])"
    using modify_block[OF assms(1) _ assms(3,4), of "\<lambda>_. ?v" ?v] by auto
  then show ?thesis using assms(2) by (intro exI[of _ s']) (auto simp: iupdate_def Let_def)
qed

section \<open>Writing and reading a file\<close>

text \<open>
  A locked inode with its contents, inside a transaction: the inode is in the inode area, its blocks are its own, and it has
  a block for every byte of its size.
\<close>

definition open_file :: "nat \<Rightarrow> 'a fs_scheme \<Rightarrow> bool" where
  "open_file ip s \<longleftrightarrow> linv s Map.empty \<and> file_ok ip s \<and> unat (i_inum (itable s ip)) < unat (ninodes (sb s)) \<and>
     inode_blocks (sb s) \<inter> larea s = {} \<and> unat (i_size (itable s ip)) \<le> MAXFILE * BSIZE \<and>
     has_blocks (view s) (addrs ip s) 0 (unat (i_size (itable s ip)))"

text \<open>The bytes of a file.\<close>

definition file_bytes :: "nat \<Rightarrow> 'a fs_scheme \<Rightarrow> uchar list" where
  "file_bytes ip s = map (content (view s) (addrs ip s)) [0..<unat (i_size (itable s ip))]"

lemma length_file_bytes [simp]: "length (file_bytes ip s) = unat (i_size (itable s ip))"
  by (simp add: file_bytes_def)

lemma nth_file_bytes: "i < unat (i_size (itable s ip)) \<Longrightarrow> file_bytes ip s ! i = content (view s) (addrs ip s) i"
  by (simp add: file_bytes_def)

text \<open>The bytes after a write at an offset that is not past the end.\<close>

definition overwrite :: "uchar list \<Rightarrow> nat \<Rightarrow> uchar list \<Rightarrow> uchar list" where
  "overwrite old off new = take off old @ new @ drop (off + length new) old"

text \<open>A block that nobody owns, such as a block of inodes, may change.\<close>

lemma foreign_block:
  assumes m: "map_ok sbk R V A" and n: "n \<in> R" "n \<notin> bitmap_blocks sbk"
  shows "slot (V(n := v)) A k = slot V A k" and "owned (V(n := v)) A = owned V A"
    and "unat b < unat (fssize sbk) \<Longrightarrow> block_free sbk (V(n := v)) b = block_free sbk V b"
    and "map_ok sbk R (V(n := v)) A" and "alloc_ok sbk R V \<Longrightarrow> alloc_ok sbk R (V(n := v))"
    and "i < MAXFILE * BSIZE \<Longrightarrow> slot V A (bslot (i div BSIZE)) \<noteq> 0 \<Longrightarrow> content (V(n := v)) A i = content V A i"
    and "has_blocks (V(n := v)) A x y = has_blocks V A x y"
proof -
  let ?W = "V(n := v)"
  have o: "b \<in> owned V A \<Longrightarrow> b \<noteq> n" for b using map_okD(3)[OF m, of b] n(1) by auto
  have "A ! NDIRECT \<noteq> 0 \<Longrightarrow> A ! NDIRECT \<noteq> n" using o[OF indirect_owned] by (simp add: indirect_def)
  then show sl: "slot ?W A k = slot V A k" for k by (simp add: slot_def)
  show ow: "owned ?W A = owned V A" by (simp add: owned_def sl)
  show fr: "unat b < unat (fssize sbk) \<Longrightarrow> block_free sbk ?W b = block_free sbk V b" for b by (rule block_free_cong) (use n in auto)
  show "map_ok sbk R ?W A" unfolding map_ok_def ow sl using m fr unfolding map_ok_def by blast
  show "alloc_ok sbk R V \<Longrightarrow> alloc_ok sbk R ?W" using fr unfolding alloc_ok_def by blast
  show "has_blocks ?W A x y = has_blocks V A x y" by (simp add: has_blocks_def sl)
  assume "i < MAXFILE * BSIZE" "slot V A (bslot (i div BSIZE)) \<noteq> 0"
  then show "content ?W A i = content V A i" using o[OF ownedI[OF bslot_less]] by (simp add: content_def sl)
qed

lemma overwrite_nth:
  assumes "off \<le> length old" and "i < length (overwrite old off new)"
  shows "overwrite old off new ! i = (if off \<le> i \<and> i < off + length new then new ! (i - off) else old ! i)"
  using assms by (auto simp: overwrite_def nth_append min_def)

lemma length_overwrite: "off \<le> length old \<Longrightarrow> length (overwrite old off new) = max (length old) (off + length new)"
  by (simp add: overwrite_def max_def)

text \<open>
  Nothing else changes: no other inode in memory or on the disk, no block that is in use and not the file's, and the blocks the file has gained
  were free.
\<close>

definition others_kept :: "nat \<Rightarrow> 'a fs_scheme \<Rightarrow> 'a fs_scheme \<Rightarrow> bool" where
  "others_kept ip s s' \<longleftrightarrow> (\<forall>j. j \<noteq> ip \<longrightarrow> itable s' j = itable s j) \<and> sb s' = sb s \<and> umem s' = umem s \<and>
     (\<forall>b. \<not> available (sb s) (view s) b \<longrightarrow> b \<notin> bitmap_blocks (sb s) \<longrightarrow> b \<notin> owned (view s) (addrs ip s) \<longrightarrow> b \<notin> inode_blocks (sb s) \<longrightarrow>
        view s' b = view s b) \<and>
     (\<forall>j. unat j < unat (ninodes (sb s)) \<longrightarrow> j \<noteq> i_inum (itable s ip) \<longrightarrow>
        get_dinode j (view s' (IBLOCK j (sb s))) = get_dinode j (view s (IBLOCK j (sb s)))) \<and>
     (\<forall>b. available (sb s) (view s') b \<longleftrightarrow> available (sb s) (view s) b \<and> b \<notin> owned (view s') (addrs ip s')) \<and>
     (\<forall>b \<in> owned (view s') (addrs ip s'). b \<in> owned (view s) (addrs ip s) \<or> available (sb s) (view s) b)"

text \<open>The inode on the disk is the one in memory.\<close>

definition on_disk :: "nat \<Rightarrow> 'a fs_scheme \<Rightarrow> bool" where
  "on_disk ip s \<longleftrightarrow> get_dinode (i_inum (itable s ip)) (view s (IBLOCK (i_inum (itable s ip)) (sb s))) (itable s ip) = itable s ip"

lemma open_fileD:
  assumes "open_file ip s"
  shows "linv s Map.empty" "file_ok ip s" "unat (i_inum (itable s ip)) < unat (ninodes (sb s))" "inode_blocks (sb s) \<inter> larea s = {}"
    "unat (i_size (itable s ip)) \<le> MAXFILE * BSIZE" "has_blocks (view s) (addrs ip s) 0 (unat (i_size (itable s ip)))"
    "IBLOCK (i_inum (itable s ip)) (sb s) \<in> inode_blocks (sb s)"
  using assms by (auto simp: open_file_def inode_blocks_def)

text \<open>The end of \<^verbatim>\<open>writei\<close>: the size and the inode on the disk, after the loop.\<close>

lemma writei_end:
  assumes o: "open_file ip s" and st: "stored_at ip off bs s s1" and off: "off \<le> unat (i_size (itable s ip))" "off + length bs \<le> MAXFILE * BSIZE"
    and len: "length (blocks s1) < log_cap s1"
    and s2: "s2 = (if of_nat (off + length bs) > i_size (itable s1 ip) then set_inode ip (\<lambda>x. x\<lparr>i_size := of_nat (off + length bs)\<rparr>) s1 else s1)"
  shows "\<exists>s'. iupdate ip s2 = Inr s' \<and> open_file ip s' \<and> file_bytes ip s' = overwrite (file_bytes ip s) off bs \<and>
    others_kept ip s s' \<and> on_disk ip s' \<and> load ip s' \<le> load ip s1 + 1 \<and> tx.same s2 s' \<and>
    (\<forall>b. available (sb s) (view s') b \<longleftrightarrow> available (sb s) (view s1) b)"
proof -
  note O = open_fileD[OF o]
  have S: "linv s1 Map.empty" "file_ok ip s1" "same_but ip s s1" "wrote (sb s) (view s) (addrs ip s) (view s1) (addrs ip s1)"
    "has_blocks (view s1) (addrs ip s1) off (off + length bs)"
    "\<And>i. i < MAXFILE * BSIZE \<Longrightarrow> off \<le> i \<Longrightarrow> i < off + length bs \<Longrightarrow> content (view s1) (addrs ip s1) i = bs ! (i - off)"
    "\<And>i. i < MAXFILE * BSIZE \<Longrightarrow> \<not> (off \<le> i \<and> i < off + length bs) \<Longrightarrow> slot (view s) (addrs ip s) (bslot (i div BSIZE)) \<noteq> 0 \<Longrightarrow>
        content (view s1) (addrs ip s1) i = content (view s) (addrs ip s) i"
    using st unfolding stored_at_def by blast+
  note D = same_butD[OF S(3)]
  let ?sz = "unat (i_size (itable s ip))" and ?n = "IBLOCK (i_inum (itable s ip)) (sb s)"
  have u: "unat (of_nat (off + length bs) :: uint) = off + length bs" using off(2) by (intro unat_of_nat_small) simp
  have k2: "linv s2 Map.empty" "view s2 = view s1" "blocks s2 = blocks s1" "log_cap s2 = log_cap s1" "larea s2 = larea s" "sb s2 = sb s"
    "addrs ip s2 = addrs ip s1" "i_inum (itable s2 ip) = i_inum (itable s ip)" "i_dev (itable s2 ip) = ROOTDEV" "umem s2 = umem s"
    "\<And>j. j \<noteq> ip \<Longrightarrow> itable s2 j = itable s j"
    using s2 S(1,2) D by (auto simp: file_ok_def)
  have sz2: "unat (i_size (itable s2 ip)) = max ?sz (off + length bs)"
    using s2 D(4) u by (auto simp: word_less_nat_alt not_less max_def)
  have nl: "?n \<notin> larea s2" using O(4,7) k2(5) by auto
  obtain s' where i: "iupdate ip s2 = Inr s'" "linv s' Map.empty" "tx.same s2 s'" "set (blocks s') = insert ?n (set (blocks s2))"
    "view s' = (view s2)(?n := put_dinode (i_inum (itable s ip)) (itable s2 ip) (view s2 ?n))"
    using iupdate_ok[OF k2(1), of ip] k2 nl len by auto
  note E = same_fs[OF i(3)]
  have A': "addrs ip s' = addrs ip s1" using E k2 by simp
  have m1: "map_ok (sb s) (larea s \<union> inode_blocks (sb s)) (view s1) (addrs ip s1)" and al1: "alloc_ok (sb s) (larea s \<union> inode_blocks (sb s)) (view s1)"
    using S(2) D by (simp_all add: file_ok_def)
  have bn: "?n \<notin> bitmap_blocks (sb s)" using O(2,7) by (auto simp: file_ok_def alloc_ok_def)
  note F = foreign_block[OF m1 UnI2[OF O(7)] bn, where v = "put_dinode (i_inum (itable s ip)) (itable s2 ip) (view s1 ?n)"]
  have V': "view s' = (view s1)(?n := put_dinode (i_inum (itable s ip)) (itable s2 ip) (view s1 ?n))" using i(5) k2(2) by simp
  have sz': "unat (i_size (itable s' ip)) = max ?sz (off + length bs)" using sz2 E by simp
  have slots: "slot (view s1) (addrs ip s1) (bslot (x div BSIZE)) \<noteq> 0" if x: "x < max ?sz (off + length bs)" for x
  proof (cases "off \<le> x \<and> x < off + length bs")
    case True
    then show ?thesis using S(5) by (simp add: has_blocks_def)
  next
    case False
    then have "x < ?sz" using x off(1) by auto
    then show ?thesis using O(5,6) wrote_slot[OF S(4), of x] by (simp add: has_blocks_def)
  qed
  have fo: "file_ok ip s'" unfolding file_ok_def A' V' using F(4,5) al1 E k2 by simp
  have hb: "has_blocks (view s') (addrs ip s') 0 (max ?sz (off + length bs))" unfolding A' V' F(7) using slots by (simp add: has_blocks_def)
  have op: "open_file ip s'" unfolding open_file_def sz' using i(2) fo O(3-5) E k2 off(2) hb by simp
  have fb: "file_bytes ip s' = overwrite (file_bytes ip s) off bs"
  proof (rule nth_equalityI)
    show l: "length (file_bytes ip s') = length (overwrite (file_bytes ip s) off bs)" using off(1) sz' by (simp add: length_overwrite)
    fix x assume "x < length (file_bytes ip s')"
    then have x: "x < max ?sz (off + length bs)" and xl: "x < length (overwrite (file_bytes ip s) off bs)" using sz' l by simp_all
    have xm: "x < MAXFILE * BSIZE" using x O(5) off(2) by linarith
    have "file_bytes ip s' ! x = content (view s1) (addrs ip s1) x"
      using nth_file_bytes[of x s' ip] x sz' F(6)[OF xm slots[OF x]] A' V' by simp
    also have "\<dots> = (if off \<le> x \<and> x < off + length bs then bs ! (x - off) else file_bytes ip s ! x)"
    proof (cases "off \<le> x \<and> x < off + length bs")
      case False
      then have "x < ?sz" using x off(1) by auto
      then show ?thesis using S(7)[OF xm False] False O(6) by (auto simp: has_blocks_def nth_file_bytes)
    qed (use S(6)[OF xm] in simp)
    also have "\<dots> = overwrite (file_bytes ip s) off bs ! x" using off(1) by (simp add: overwrite_nth[OF _ xl])
    finally show "file_bytes ip s' ! x = overwrite (file_bytes ip s) off bs ! x" .
  qed
  have dinodes: "get_dinode j (view s' (IBLOCK j (sb s))) = get_dinode j (view s (IBLOCK j (sb s)))"
    if j: "unat j < unat (ninodes (sb s))" "j \<noteq> i_inum (itable s ip)" for j
  proof -
    have jn: "IBLOCK j (sb s) \<in> inode_blocks (sb s)" using j(1) by (auto simp: inode_blocks_def)
    have v1: "view s1 (IBLOCK j (sb s)) = view s (IBLOCK j (sb s))"
      using wroteD(3)[OF S(4)] jn O(2) map_okD(3) unfolding file_ok_def alloc_ok_def by blast
    show ?thesis
    proof (cases "IBLOCK j (sb s) = ?n")
      case True
      then show ?thesis unfolding V' using v1 j(2) same_inode get_put_other_dinode by (metis fun_upd_same)
    qed (simp add: V' v1)
  qed
  have av: "available (sb s) (view s') b \<longleftrightarrow> available (sb s) (view s1) b" for b unfolding V' using F(3) by blast
  have "others_kept ip s s'" unfolding others_kept_def
  proof (intro conjI allI impI ballI)
    fix b show "available (sb s) (view s') b \<longleftrightarrow> available (sb s) (view s) b \<and> b \<notin> owned (view s') (addrs ip s')"
      unfolding av using wroteD(2)[OF S(4)] F(2) A' V' by simp
  next
    fix b assume "b \<in> owned (view s') (addrs ip s')"
    then show "b \<in> owned (view s) (addrs ip s) \<or> available (sb s) (view s) b" using wroteD(4)[OF S(4)] F(2) A' V' by simp
  next
    fix b assume "\<not> available (sb s) (view s) b" "b \<notin> bitmap_blocks (sb s)" "b \<notin> owned (view s) (addrs ip s)" "b \<notin> inode_blocks (sb s)"
    then show "view s' b = view s b" using wroteD(3)[OF S(4)] V' O(7) by auto
  qed (use k2 E dinodes in auto)
  moreover have "on_disk ip s'" unfolding on_disk_def
    using get_put_dinode[of "itable s2 ip"] map_okD(1)[OF m1] k2 E V' by simp
  moreover have "load ip s' \<le> load ip s1 + 1"
    by (rule load_step[of s' s1 ip "{?n}"]) (use i(4) k2 E A' D in auto)
  ultimately show ?thesis using i(1,3) op fb av by blast
qed

lemma writei_ok:
  assumes o: "open_file ip s" and src: "supplies s src bs" and off: "off \<le> unat (i_size (itable s ip))" "off + length bs \<le> MAXFILE * BSIZE"
    and cap: "load ip s + span off (length bs) < log_cap s"
  shows "\<exists>n s'. writei ip src (of_nat off) (of_nat (length bs)) s = Inr (int n, s') \<and> n \<le> length bs \<and>
    (n < length bs \<longrightarrow> (\<forall>b. \<not> available (sb s) (view s') b)) \<and> open_file ip s' \<and>
    file_bytes ip s' = overwrite (file_bytes ip s) off (take n bs) \<and> others_kept ip s s' \<and> on_disk ip s' \<and>
    load ip s' \<le> load ip s + span off (length bs) + 1 \<and> log_cap s' = log_cap s \<and>
    (itable s' ip)\<lparr>i_addrs := [], i_size := 0\<rparr> = (itable s ip)\<lparr>i_addrs := [], i_size := 0\<rparr>"
proof -
  note O = open_fileD[OF o]
  obtain n s1 where l: "writei_loop ip src (of_nat off) (length bs) 0 s = Inr (int n, of_nat (off + n), s1)" "n \<le> length bs"
    "n < length bs \<longrightarrow> (\<forall>b. \<not> available (sb s) (view s1) b)" "stored_at ip off (take n bs) s s1" "load ip s1 \<le> load ip s + span off (length bs)"
    using writei_loop_ok[OF O(1,2) cap off(2) src, of 0] by auto
  have S: "linv s1 Map.empty" "same_but ip s s1" using l(4) by (simp_all add: stored_at_def)
  note D = same_butD[OF S(2)]
  have len: "length (blocks s1) < log_cap s1" using load_blocks[OF S(1), of ip] l(5) cap D(15) by linarith
  define s2 where "s2 = (if of_nat (off + length (take n bs)) > i_size (itable s1 ip) then set_inode ip (\<lambda>x. x\<lparr>i_size := of_nat (off + length (take n bs))\<rparr>) s1 else s1)"
  have t: "length (take n bs) = n" using l(2) by simp
  have offn: "off + length (take n bs) \<le> MAXFILE * BSIZE" using off(2) l(2) by simp
  obtain s' where e: "iupdate ip s2 = Inr s'" "open_file ip s'" "file_bytes ip s' = overwrite (file_bytes ip s) off (take n bs)"
    "others_kept ip s s'" "on_disk ip s'" "load ip s' \<le> load ip s1 + 1" "tx.same s2 s'"
    "\<forall>b. available (sb s) (view s') b \<longleftrightarrow> available (sb s) (view s1) b"
    using writei_end[OF o l(4) off(1) offn len s2_def] by blast
  have lw: "off < 2 ^ 32" "length bs < 2 ^ 32" using off by auto
  have u: "unat (of_nat off :: uint) = off" "unat (of_nat (length bs) :: uint) = length bs" "unat (of_nat off + of_nat (length bs) :: uint) = off + length bs"
    using off(2) unat_of_nat_small[of off, where 'a = 32] unat_of_nat_small[of "length bs", where 'a = 32] unat_of_nat_small[of "off + length bs", where 'a = 32] lw by simp_all
  have g: "\<not> i_size (itable s ip) < of_nat off" "\<not> (of_nat off + of_nat (length bs) :: uint) < of_nat off" "\<not> MAXFILE * BSIZE < unat (of_nat off + of_nat (length bs) :: uint)"
    using off u by (simp_all add: word_less_nat_alt)
  have "writei ip src (of_nat off) (of_nat (length bs)) s = Inr (int n, s')"
    unfolding writei_def using g u(2) l(1) e(1)[unfolded s2_def t] by (simp add: Let_def split: if_splits)
  moreover have "log_cap s' = log_cap s" using same_fs(7)[OF e(7)] D(15) by (simp add: s2_def)
  moreover have "n < length bs \<longrightarrow> (\<forall>b. \<not> available (sb s) (view s') b)" using l(3) e(8) by blast
  moreover have "(itable s1 ip)\<lparr>i_addrs := []\<rparr> = (itable s ip)\<lparr>i_addrs := []\<rparr>" using S(2) by (simp add: same_but_def)
  then have "(itable s' ip)\<lparr>i_addrs := [], i_size := 0\<rparr> = (itable s ip)\<lparr>i_addrs := [], i_size := 0\<rparr>"
    unfolding same_fs(2)[OF e(7)] by (cases "itable s ip", cases "itable s1 ip") (auto simp: s2_def)
  ultimately show ?thesis using l(2,5) e by (intro exI[of _ n] exI[of _ s']) auto
qed

end
