(* ===== verification/FsProps.thy ===== *)
theory FsProps
  imports FsInode
begin

text \<open>
  The properties of files: what \<^verbatim>\<open>writei\<close> stores is what \<^verbatim>\<open>readi\<close> returns, and the number of blocks a write logs.
\<close>

section \<open>A small file system\<close>

text \<open>
  A file system of 2000 blocks as \<^verbatim>\<open>mkfs\<close> lays it out, its first 48 blocks in use, with a transaction under way and an empty
  file in the entry 0 of the inode table.
\<close>

definition empty_inode :: inode where
  "empty_inode = \<lparr>i_dev = 1, i_inum = 5, i_ref = 1, i_lock = Some 1, i_valid = True, i_type = T_FILE, i_major = 0, i_minor = 0, i_nlink = 1, i_size = 0,
     i_addrs = replicate 13 0\<rparr>"

definition small_fs :: fs where
  "small_fs = binit \<lparr>bufs = (\<lambda>_. zero_buf), bnext = (\<lambda>_. 0), bprev = (\<lambda>_. 0), disk = (\<lambda>n i. if n = 45 \<and> i < 6 then 255 else 0), writes = [], pid = 1,
     lstart = 2, lsize = 30, outstanding = 1, committing = False, ldev = 1, lh_n = 0, lh_block = replicate 30 0,
     sb = sb0, itable = (\<lambda>_. empty_inode), umem = \<lparr>pmem = (\<lambda>_. 0), freelist = 0, kend = 0\<rparr>, upagetable = 0, cwd = 0\<rparr>"

lemma sb0_fields [simp]: "unat (fssize sb0) = 2000" "unat (ninodes sb0) = 200" "bmapstart sb0 = 45" "inodestart sb0 = 32"
  by (simp_all add: sb0_def)

lemma small_BBLOCK: "unat b < 2000 \<Longrightarrow> BBLOCK b sb0 = 45"
proof -
  assume "unat b < 2000"
  then have "unat (b div 8192) = 0" by (simp add: unat_div)
  then show ?thesis by (simp add: BBLOCK_def unat_eq_0)
qed

lemma small_bitmap: "bitmap_blocks sb0 = {45}"
proof -
  have "BBLOCK 0 sb0 = 45" by (rule small_BBLOCK) simp
  then have "45 \<in> bitmap_blocks sb0" using bitmap_blocksI[of 0 sb0] by simp
  moreover have "bitmap_blocks sb0 \<subseteq> {45}" using small_BBLOCK by (auto simp: bitmap_blocks_def)
  ultimately show ?thesis by blast
qed

lemma small_inodes: "b \<in> inode_blocks sb0 \<Longrightarrow> 32 \<le> unat b \<and> unat b \<le> 44"
proof -
  assume "b \<in> inode_blocks sb0"
  then obtain i where i: "b = i div 16 + 32" "unat i < 200" by (auto simp: inode_blocks_def IBLOCK_def)
  have "unat (i div 16) \<le> 12" using i(2) by (simp add: unat_div)
  then show ?thesis unfolding i(1) by (simp add: unat_plus_if')
qed

lemma small_fs_simps:
  "linv small_fs Map.empty" "blocks small_fs = []" "log_cap small_fs = 29" "sb small_fs = sb0" "itable small_fs = (\<lambda>_. empty_inode)"
  "view small_fs = (\<lambda>n i. if n = 45 \<and> i < 6 then 255 else 0)" "b \<in> larea small_fs \<Longrightarrow> 2 \<le> unat b \<and> unat b \<le> 31"
proof -
  define s0 :: fs where "s0 = \<lparr>bufs = (\<lambda>_. zero_buf), bnext = (\<lambda>_. 0), bprev = (\<lambda>_. 0), disk = (\<lambda>n i. if n = 45 \<and> i < 6 then 255 else 0), writes = [], pid = 1,
     lstart = 2, lsize = 30, outstanding = 1, committing = False, ldev = 1, lh_n = 0, lh_block = replicate 30 0,
     sb = sb0, itable = (\<lambda>_. empty_inode), umem = \<lparr>pmem = (\<lambda>_. 0), freelist = 0, kend = 0\<rparr>, upagetable = 0, cwd = 0\<rparr>"
  have b: "small_fs = binit s0" by (simp add: small_fs_def s0_def)
  have r: "(pid (binit s0), bio.more (binit s0)) = (pid s0, bio.more s0)" by simp
  note R = log_rest[OF r]
  have c: "cinv (binit s0) Map.empty {}" "view (binit s0) = disk s0" by (rule binit_cinv; simp add: s0_def)+
  show bl: "blocks small_fs = []" unfolding b using R by (simp add: blocks_def s0_def)
  have z: "get32 (disk (binit s0) (lstart (binit s0))) 0 = 0" using R by (simp add: s0_def)
  have "ldev (binit s0) = 1" "length (lh_block (binit s0)) = 30" "lh_n (binit s0) = 0" "lsize (binit s0) = 30" using R by (simp_all add: s0_def)
  then have "lgood (binit s0)" using bl[unfolded b] by (simp add: lgood_def)
  then show "linv small_fs Map.empty" unfolding linv_def bl unfolding b using c(1) z bl[unfolded b] by simp
  show "view small_fs = (\<lambda>n i. if n = 45 \<and> i < 6 then 255 else 0)" unfolding b using c(2) by (simp add: s0_def)
  show "log_cap small_fs = 29" unfolding b using R by (simp add: log_cap_def s0_def)
  have m: "log.more (binit s0) = log.more s0" using R by simp
  then show "sb small_fs = sb0" "itable small_fs = (\<lambda>_. empty_inode)" unfolding b by (cases "binit s0", simp add: s0_def)+
  assume "b \<in> larea small_fs"
  then obtain i where "b = 2 + of_nat i" "i < 30" unfolding b using R by (auto simp: larea_def log_area_def s0_def)
  moreover have "unat (of_nat i :: uint) = i" using \<open>i < 30\<close> by (intro unat_of_nat_small) simp
  ultimately show "2 \<le> unat b \<and> unat b \<le> 31" by (simp add: unat_plus_if')
qed

lemma small_free: "unat b < 2000 \<Longrightarrow> block_free sb0 (view small_fs) b \<longleftrightarrow> 48 \<le> unat b"
proof -
  assume b: "unat b < 2000"
  have "unat b div 8 < 6 \<longleftrightarrow> \<not> 48 \<le> unat b" by (auto simp: div_less_iff_less_mult)
  moreover have "bit (255 :: uchar) (unat b mod 8)"
  proof -
    have "(255 :: uchar) = - 1" by simp
    moreover have "unat b mod 8 < LENGTH(8)" by simp
    ultimately show ?thesis by (simp only: bit_minus_1_iff possible_bit_word) 
  qed
  ultimately show ?thesis using b by (simp add: block_free_def small_BBLOCK[OF b] bit_free_bit small_fs_simps(6))
qed

lemma small_open: "open_file 0 small_fs" "load 0 small_fs = 2" "file_bytes 0 small_fs = []"
proof -
  let ?R = "larea small_fs \<union> inode_blocks sb0"
  have R: "b \<in> ?R \<Longrightarrow> 2 \<le> unat b \<and> unat b \<le> 44" for b using small_fs_simps(7)[of b] small_inodes[of b] by auto
  have sl: "slot V (replicate 13 0) k = 0" for V k by (simp add: slot_def nth_replicate)
  have "map_ok sb0 ?R (view small_fs) (replicate 13 0)" by (auto simp: map_ok_def owned_def sl)
  moreover have "alloc_ok sb0 ?R (view small_fs)" unfolding alloc_ok_def small_bitmap
  proof (intro conjI allI impI)
    show "{45} \<inter> ?R = {}" using R[of 45] by auto
    fix b assume "unat b < unat (fssize sb0)" "block_free sb0 (view small_fs) b"
    then have "48 \<le> unat b" using small_free[of b] by simp
    then show "b \<noteq> 0" "b \<notin> ?R" "b \<notin> {45}" using R[of b] by auto
  qed
  moreover have "inode_blocks sb0 \<inter> larea small_fs = {}" using small_fs_simps(7) small_inodes by fastforce
  ultimately show "open_file 0 small_fs"
    using small_fs_simps by (simp add: open_file_def file_ok_def empty_inode_def has_blocks_def)
  show "load 0 small_fs = 2" using small_fs_simps by (simp add: load_def small_bitmap indirect_def empty_inode_def)
  show "file_bytes 0 small_fs = []" using small_fs_simps by (simp add: file_bytes_def empty_inode_def)
qed

text \<open>A file has at most as many blocks as slots, so a write on this file system is never cut short.\<close>

lemma card_owned: "card (owned V A) \<le> NSLOT"
proof -
  have "card (owned V A) \<le> card (slot V A ` {..<NSLOT})" by (intro card_mono) (auto simp: owned_def)
  also have "\<dots> \<le> card {..<NSLOT}" by (rule card_image_le) simp
  finally show ?thesis by simp
qed

lemma small_room:
  assumes "others_kept 0 s s'" and "sb s = sb0" "view s = view small_fs"
  shows "\<exists>b. available sb0 (view s') b"
proof (rule ccontr)
  assume "\<not> ?thesis"
  moreover have "available sb0 (view s') b \<longleftrightarrow> available sb0 (view small_fs) b \<and> b \<notin> owned (view s') (addrs 0 s')" for b
    using assms(1) unfolding others_kept_def assms(2,3) by blast
  ultimately have o: "available sb0 (view small_fs) b \<longrightarrow> b \<in> owned (view s') (addrs 0 s')" for b by blast
  have u: "unat (of_nat k :: uint) = k" if "k < 2000" for k using that by (intro unat_of_nat_small) simp
  have "(of_nat :: nat \<Rightarrow> uint) ` {48..<2000} \<subseteq> owned (view s') (addrs 0 s')"
    using o small_free u by auto
  then have "card ((of_nat :: nat \<Rightarrow> uint) ` {48..<2000}) \<le> card (owned (view s') (addrs 0 s'))" by (rule card_mono[OF finite])
  then have "card ((of_nat :: nat \<Rightarrow> uint) ` {48..<2000}) \<le> NSLOT" using card_owned order_trans by blast
  moreover have "inj_on (of_nat :: nat \<Rightarrow> uint) {48..<2000}" by (rule inj_on_inverseI[of _ unat]) (use u in auto)
  then have "card ((of_nat :: nat \<Rightarrow> uint) ` {48..<2000}) = 1952" by (simp add: card_image)
  ultimately show False by simp
qed

lemma small_write: "\<exists>s'. writei 0 (Kern [104, 105]) 0 2 small_fs = Inr (2, s')"
proof -
  obtain n s' where w: "writei 0 (Kern [104, 105]) (of_nat 0) (of_nat (length [104, 105 :: uchar])) small_fs = Inr (int n, s')" "n \<le> 2"
    "n < 2 \<longrightarrow> (\<forall>b. \<not> available (sb small_fs) (view s') b)" "others_kept 0 small_fs s'"
    using writei_ok[OF small_open(1), of "Kern [104, 105]" "[104, 105]" 0] small_open(2) small_fs_simps(3) by (auto simp: span_def)
  have "n = 2" using w(2,3) small_room[OF w(4) small_fs_simps(4) refl] small_fs_simps(4) by fastforce
  then show ?thesis using w(1) by auto
qed

section \<open>Properties\<close>

text \<open>
  C2. \<^verbatim>\<open>writei\<close> into a locked file, at an offset that is not past its end and with room in the log, never panics: it stores the bytes
  in the file, or a prefix of them when the disk runs full, the file growing as needed; the inode on the disk is the one in memory; and nothing
  else changes: no other inode, no block in use that is not the file's. The bytes may come from the kernel or from the memory of the process.
\<close>

theorem writei_correct:
  assumes "open_file ip s" and "supplies s src bs" and "off \<le> length (file_bytes ip s)" and "off + length bs \<le> MAXFILE * BSIZE"
    and "load ip s + span off (length bs) < log_cap s"
  shows "\<exists>n s'. writei ip src (of_nat off) (of_nat (length bs)) s = Inr (int n, s') \<and> n \<le> length bs \<and>
    (n < length bs \<longrightarrow> (\<forall>b. \<not> available (sb s) (view s') b)) \<and> open_file ip s' \<and>
    file_bytes ip s' = overwrite (file_bytes ip s) off (take n bs) \<and> others_kept ip s s' \<and> on_disk ip s'"
  using writei_ok[OF assms(1,2) _ assms(4,5)] assms(3) by auto

theorem writei_correct_witness:
  "\<exists>s'. writei 0 (Kern [104, 105]) 0 2 small_fs = Inr (2, s') \<and> file_bytes 0 s' = [104, 105]"
proof -
  obtain n s' where w: "writei 0 (Kern [104, 105]) (of_nat 0) (of_nat (length [104, 105 :: uchar])) small_fs = Inr (int n, s')"
    "file_bytes 0 s' = overwrite (file_bytes 0 small_fs) 0 (take n [104, 105])"
    using writei_correct[OF small_open(1), of "Kern [104, 105]" "[104, 105]" 0] small_open(2) small_fs_simps(3) by (auto simp: span_def)
  then have "n = 2" using small_write by auto
  then show ?thesis using w small_open(3) by (auto simp: overwrite_def)
qed

text \<open>
  C3. What \<^verbatim>\<open>writei\<close> has stored, \<^verbatim>\<open>readi\<close> reads back: reading at the same offset as many bytes as were written returns exactly
  those, whatever was in the file, across block boundaries and through the indirect block.
\<close>

theorem writei_readi:
  assumes "open_file ip s" and "supplies s src bs" and "off \<le> length (file_bytes ip s)" and "off + length bs \<le> MAXFILE * BSIZE"
    and "load ip s + span off (length bs) + 2 < log_cap s"
  shows "\<exists>n s' s''. writei ip src (of_nat off) (of_nat (length bs)) s = Inr (int n, s') \<and>
    readi ip (Kern []) (of_nat off) (of_nat n) s' = Inr (int n, Kern (take n bs), s'') \<and>
    (n = length bs \<or> n < length bs \<and> (\<forall>b. \<not> available (sb s) (view s') b))"
proof -
  have c: "load ip s + span off (length bs) < log_cap s" using assms(5) by simp
  obtain n s' where w: "writei ip src (of_nat off) (of_nat (length bs)) s = Inr (int n, s')" "n \<le> length bs"
    "n < length bs \<longrightarrow> (\<forall>b. \<not> available (sb s) (view s') b)" "open_file ip s'" "file_bytes ip s' = overwrite (file_bytes ip s) off (take n bs)"
    "load ip s' \<le> load ip s + span off (length bs) + 1" "log_cap s' = log_cap s"
    using writei_ok[OF assms(1,2) _ assms(4) c] assms(3) by auto
  note O = open_fileD[OF w(4)]
  let ?f = "content (view s') (addrs ip s')" and ?sz = "unat (i_size (itable s' ip))"
  have u: "unat (of_nat off :: uint) = off" "unat (of_nat n :: uint) = n" using assms(4) w(2) by (simp_all add: unat_of_nat_small)
  have sz: "off + n \<le> ?sz"
    using length_overwrite[of off "file_bytes ip s" "take n bs"] assms(3) w(2,5) length_file_bytes[of ip s'] by simp
  have b: "map ?f [off..<off + n] = take n bs"
  proof (rule nth_equalityI)
    fix i assume "i < length (map ?f [off..<off + n])"
    then have i: "i < n" by simp
    have "?f (off + i) = overwrite (file_bytes ip s) off (take n bs) ! (off + i)" using nth_file_bytes[of "off + i" s' ip] i sz w(5) by simp
    also have "\<dots> = bs ! i" using overwrite_nth[of off "file_bytes ip s" "off + i" "take n bs"] assms(3) i w(2,5) sz length_file_bytes[of ip s'] by simp
    finally show "map ?f [off..<off + n] ! i = take n bs ! i" using i by simp
  qed (use w(2) in simp)
  have "load ip s' + 1 < log_cap s'" using assms(5) w(6,7) by simp
  then obtain s'' where "readi ip (Kern []) (of_nat off) (of_nat n) s' = Inr (int n, Kern (map ?f [off..<off + n]), s'')"
    using readi_ok[OF O(1,2) _ refl O(5,6), of "of_nat off" "of_nat n" "[]" "{}" "Kern []"] u sz O(5) by auto
  then show ?thesis using w b by (intro exI[of _ n] exI[of _ s'] exI[of _ s'']) auto
qed

theorem writei_readi_witness:
  "\<exists>s' s''. writei 0 (Kern [104, 105]) 0 2 small_fs = Inr (2, s') \<and> readi 0 (Kern []) 0 2 s' = Inr (2, Kern [104, 105], s'')"
proof -
  obtain n s' s'' where w: "writei 0 (Kern [104, 105]) (of_nat 0) (of_nat (length [104, 105 :: uchar])) small_fs = Inr (int n, s')"
    "readi 0 (Kern []) (of_nat 0) (of_nat n) s' = Inr (int n, Kern (take n [104, 105]), s'')"
    using writei_readi[OF small_open(1), of "Kern [104, 105]" "[104, 105]" 0] small_open(2) small_fs_simps(3) by (auto simp: span_def)
  then have "n = 2" using small_write by auto
  then show ?thesis using w by auto
qed

text \<open>
  C23. A write of the size \<^verbatim>\<open>filewrite\<close> chooses, at most three blocks' worth of bytes, stays within what \<^verbatim>\<open>begin_op\<close> reserves: wherever
  it begins, it logs at most \<^verbatim>\<open>MAXOPBLOCKS\<close> blocks, the bitmap, the indirect block and the inode included, on every file system
  with at most four bitmap blocks.
\<close>

theorem writei_fits:
  assumes "open_file ip s" and "supplies s src bs" and "off \<le> length (file_bytes ip s)" and "off + length bs \<le> MAXFILE * BSIZE"
    and "int (length bs) \<le> (MAXOPBLOCKS - 1 - 1 - 2) div 2 * int BSIZE" and "card (bitmap_blocks (sb s)) \<le> 4" and "int (length (blocks s)) + MAXOPBLOCKS \<le> int (log_cap s)"
  shows "\<exists>n s'. writei ip src (of_nat off) (of_nat (length bs)) s = Inr (int n, s') \<and> int (length (blocks s')) \<le> int (length (blocks s)) + MAXOPBLOCKS"
proof -
  have sp: "span off (length bs) \<le> 4"
  proof -
    have "(off + length bs - 1) div BSIZE \<le> (off + 3 * BSIZE) div BSIZE" using assms(5) by (intro div_le_mono) simp
    also have "\<dots> = off div BSIZE + 3" by simp
    finally show ?thesis unfolding span_def by (auto split: if_splits)
  qed
  have ld: "load ip s \<le> length (blocks s) + card (bitmap_blocks (sb s)) + 1"
  proof -
    have "card (set (blocks s) \<union> bitmap_blocks (sb s) \<union> indirect (addrs ip s)) \<le> card (set (blocks s)) + card (bitmap_blocks (sb s)) + card (indirect (addrs ip s))"
      using card_Un_le[of "set (blocks s) \<union> bitmap_blocks (sb s)" "indirect (addrs ip s)"] card_Un_le[of "set (blocks s)" "bitmap_blocks (sb s)"] by linarith
    moreover have "card (set (blocks s)) \<le> length (blocks s)" by (rule card_length)
    moreover have "card (indirect (addrs ip s)) + (if addrs ip s ! NDIRECT = 0 then 1 else 0) = 1" by (simp add: indirect_def)
    ultimately show ?thesis unfolding load_def by linarith
  qed
  have c: "load ip s + span off (length bs) < log_cap s" using ld sp assms(6,7) by simp
  obtain n s' where w: "writei ip src (of_nat off) (of_nat (length bs)) s = Inr (int n, s')" "open_file ip s'"
    "load ip s' \<le> load ip s + span off (length bs) + 1"
    using writei_ok[OF assms(1,2) _ assms(4) c] assms(3) by auto
  have "length (blocks s') \<le> load ip s'" using load_blocks open_fileD(1)[OF w(2)] by blast
  then show ?thesis using w(1,3) ld sp assms(6) by (intro exI[of _ n] exI[of _ s']) simp
qed

theorem writei_fits_witness:
  "\<exists>n s'. writei 0 (Kern [104, 105]) 0 2 small_fs = Inr (int n, s') \<and> length (blocks s') \<le> 10"
proof -
  have "\<exists>n s'. writei 0 (Kern [104, 105]) (of_nat 0) (of_nat (length [104, 105 :: uchar])) small_fs = Inr (int n, s') \<and>
      int (length (blocks s')) \<le> int (length (blocks small_fs)) + MAXOPBLOCKS"
    by (rule writei_fits[OF small_open(1)]) (use small_fs_simps small_bitmap in simp_all)
  then show ?thesis using small_fs_simps(2) by simp
qed

end
