(* ===== verification/FsDir.thy ===== *)
theory FsDir
  imports FsProps
begin

text \<open>
  Directories: \<^verbatim>\<open>dirlookup\<close> and \<^verbatim>\<open>dirlink\<close> of \<^verbatim>\<open>kernel/fs.c\<close> over the bytes of the directory.
\<close>

section \<open>Entries\<close>




section \<open>Reading a directory\<close>












section \<open>Adding an entry\<close>



lemma dir_offs_in: "16 dvd unat off \<Longrightarrow> unat off + 16 \<le> unat sz \<Longrightarrow> off \<in> set (dir_offs sz)"
proof -
  assume a: "16 dvd unat off" "unat off + 16 \<le> unat sz"
  obtain i where i: "unat off = 16 * i" using a(1) by (rule dvdE)
  then have "i < (unat sz + 15) div 16" using a(2) by simp
  moreover have "off = of_nat (16 * i)" by (simp flip: i)
  ultimately show ?thesis by (auto simp: dir_offs_def)
qed









section \<open>Properties\<close>






end
