(* ===== verification/FsTrunc.thy ===== *)
theory FsTrunc
  imports FsProps
begin

text \<open>
  The end of a file: \<^verbatim>\<open>itrunc\<close> gives every block of an inode back to the bitmap, and \<^verbatim>\<open>iput\<close> of the last reference to
  a file without links frees its inode as well.
\<close>

section \<open>Giving blocks back\<close>

definition released :: "superblock \<Rightarrow> uint set \<Rightarrow> (uint \<Rightarrow> block) \<Rightarrow> (uint \<Rightarrow> block) \<Rightarrow> bool" where
  "released sbk F V V' \<longleftrightarrow> (\<forall>b. b \<notin> bitmap_blocks sbk \<longrightarrow> V' b = V b) \<and>
     (\<forall>b. unat b < unat (fssize sbk) \<longrightarrow> (block_free sbk V' b \<longleftrightarrow> b \<in> F \<or> block_free sbk V b))"

lemma released_refl: "released sbk {} V V"
  by (simp add: released_def)

lemma released_step:
  assumes "released sbk F V V'" and "unat a < unat (fssize sbk)"
  shows "released sbk (insert a F) V (given_back sbk a V')"
  using assms bitmap_blocksI[OF assms(2)] by (auto simp: released_def given_back_def block_free_clear)

text \<open>
  A state of the truncation of \<open>ip\<close>: since the state \<open>s\<close>, the blocks \<open>F\<close> have been given back; \<open>H\<close> are the buffers held.
\<close>

definition freeing :: "nat \<Rightarrow> (nat \<rightharpoonup> uint) \<Rightarrow> uint set \<Rightarrow> 'a fs_scheme \<Rightarrow> 'a fs_scheme \<Rightarrow> bool" where
  "freeing ip H F s t \<longleftrightarrow> linv t H \<and> same_but ip s t \<and> released (sb s) F (view s) (view t) \<and>
     set (blocks t) \<subseteq> set (blocks s) \<union> bitmap_blocks (sb s) \<and> set (blocks s) \<subseteq> set (blocks t)"

lemma freeing_room:
  assumes "freeing ip H F s t" and "card (set (blocks s) \<union> bitmap_blocks (sb s)) < log_cap s"
  shows "length (blocks t) < log_cap t"
proof -
  have f: "linv t H" "set (blocks t) \<subseteq> set (blocks s) \<union> bitmap_blocks (sb s)" "log_cap t = log_cap s"
    using assms(1) same_butD[of ip s t] by (simp_all add: freeing_def)
  have "length (blocks t) = card (set (blocks t))" using linvD(2)[OF f(1)] by (simp add: distinct_card)
  also have "\<dots> \<le> card (set (blocks s) \<union> bitmap_blocks (sb s))" using f(2) by (intro card_mono) simp_all
  finally show ?thesis using assms(2) f(3) by simp
qed

lemma freeing_bfree:
  assumes f: "freeing ip H F s t" and cap: "card (set (blocks s) \<union> bitmap_blocks (sb s)) < log_cap s" and ok: "file_ok ip s"
    and a: "a \<in> owned (view s) (addrs ip s)" "a \<notin> F" and H: "card (dom H) \<le> 1" "ran H \<inter> bitmap_blocks (sb s) = {}"
  shows "\<exists>t'. bfree ROOTDEV a t = Inr t' \<and> freeing ip H (insert a F) s t' \<and> tx.same t t'"
proof -
  have l: "linv t H" and sm: "same_but ip s t" and r: "released (sb s) F (view s) (view t)" and bl: "set (blocks t) \<subseteq> set (blocks s) \<union> bitmap_blocks (sb s)" "set (blocks s) \<subseteq> set (blocks t)"
    using f by (simp_all add: freeing_def)
  note D = same_butD[OF sm]
  have o: "unat a < unat (fssize (sb s))" "\<not> block_free (sb s) (view s) a"
    using ok a(1) map_okD(3)[of "sb s" "larea s \<union> inode_blocks (sb s)" "view s" "addrs ip s" a] by (simp_all add: file_ok_def)
  have bm: "BBLOCK a (sb s) \<in> bitmap_blocks (sb s)" using o(1) by (rule bitmap_blocksI)
  then have "BBLOCK a (sb t) \<notin> ran H \<union> larea t" using H(2) ok D by (auto simp: file_ok_def alloc_ok_def)
  moreover have "\<not> block_free (sb t) (view t) a" using r o a(2) D by (simp add: released_def)
  ultimately obtain t' where t': "bfree ROOTDEV a t = Inr t'" "linv t' H" "view t' = given_back (sb t) a (view t)" "tx.same t t'"
    "set (blocks t') = insert (BBLOCK a (sb t)) (set (blocks t))"
    using bfree_ok[OF l _ freeing_room[OF f cap] H(1)] by blast
  have "freeing ip H (insert a F) s t'"
    using t' released_step[OF r o(1)] same_but_trans[OF sm same_but_same[OF t'(4)]] bl bm D by (auto simp: freeing_def)
  then show ?thesis using t' by blast
qed

lemma freeing_set_addr: "freeing ip H F s t \<Longrightarrow> freeing ip H F s (set_addr ip k a t)"
  by (auto simp: freeing_def same_but_def set_addr_def)

section \<open>The loops\<close>

lemma free_direct:
  assumes s: "linv s Map.empty" "file_ok ip s" and cap: "card (set (blocks s) \<union> bitmap_blocks (sb s)) < log_cap s" and n: "n \<le> NDIRECT"
  shows "\<exists>t. foldE (\<lambda>i s. if i_addrs (itable s ip) ! i \<noteq> 0
              then bindE (bfree (i_dev (itable s ip)) (i_addrs (itable s ip) ! i) s) (\<lambda>s. Inr (set_addr ip i 0 s))
              else Inr s) [0..<n] s = Inr t \<and>
    freeing ip Map.empty (set (take n (addrs ip s)) - {0}) s t \<and> addrs ip t = replicate n 0 @ drop n (addrs ip s)"
  using n
proof (induction n)
  case 0
  then show ?case using s(1) by (simp add: freeing_def released_refl same_but_def)
next
  case (Suc n)
  let ?A = "addrs ip s"
  have m: "map_ok (sb s) (larea s \<union> inode_blocks (sb s)) (view s) ?A" and dv: "i_dev (itable s ip) = ROOTDEV" using s(2) by (simp_all add: file_ok_def)
  have len: "length ?A = 13" using map_okD(1)[OF m] by simp
  obtain t where t: "foldE (\<lambda>i s. if i_addrs (itable s ip) ! i \<noteq> 0
              then bindE (bfree (i_dev (itable s ip)) (i_addrs (itable s ip) ! i) s) (\<lambda>s. Inr (set_addr ip i 0 s))
              else Inr s) [0..<n] s = Inr t" "freeing ip Map.empty (set (take n ?A) - {0}) s t" "addrs ip t = replicate n 0 @ drop n ?A"
    using Suc by auto
  have an: "addrs ip t ! n = ?A ! n" using t(3) len Suc.prems by (simp add: nth_append)
  have dt: "i_dev (itable t ip) = ROOTDEV" using t(2) dv same_butD(2)[of ip s t] by (simp add: freeing_def)
  have tk: "take (Suc n) ?A = take n ?A @ [?A ! n]" using len Suc.prems by (simp add: take_Suc_conv_app_nth)
  have dr: "drop n ?A = ?A ! n # drop (Suc n) ?A" using len Suc.prems by (simp add: Cons_nth_drop_Suc)
  show ?case
  proof (cases "?A ! n = 0")
    case True
    then show ?thesis using t an tk dr by (intro exI[of _ t]) (simp add: foldE_append replicate_app_Cons_same)
  next
    case False
    have "?A ! n = slot (view s) ?A n" using Suc.prems by (simp add: slot_def)
    then have a: "?A ! n \<in> owned (view s) ?A" using ownedI[of n "view s" ?A] False Suc.prems by simp
    have ne: "?A ! n \<noteq> ?A ! j" if "j < n" for j
      using map_okD(2)[OF m, of n j] that Suc.prems False by (auto simp: slot_def)
    have nf: "?A ! n \<notin> set (take n ?A) - {0}"
    proof
      assume "?A ! n \<in> set (take n ?A) - {0}"
      then obtain j where "j < n" "take n ?A ! j = ?A ! n" unfolding Diff_iff in_set_conv_nth by auto
      then show False using ne[of j] by simp
    qed
    obtain t' where t': "bfree ROOTDEV (?A ! n) t = Inr t'" "freeing ip Map.empty (insert (?A ! n) (set (take n ?A) - {0})) s t'" "tx.same t t'"
      using freeing_bfree[OF t(2) cap s(2) a nf] by auto
    have it: "itable t' = itable t" using same_fs[OF t'(3)] by simp
    have "freeing ip Map.empty (set (take (Suc n) ?A) - {0}) s (set_addr ip n 0 t')"
      using freeing_set_addr[OF t'(2), of n 0] False tk by (simp add: insert_Diff_if)
    moreover have "addrs ip (set_addr ip n 0 t') = replicate (Suc n) 0 @ drop (Suc n) ?A"
      using it t(3) dr by (simp add: set_addr_def list_update_append replicate_app_Cons_same)
    ultimately show ?thesis using t(1) t'(1) an dt False by (intro exI[of _ "set_addr ip n 0 t'"]) (simp add: foldE_append)
  qed
qed

lemma free_indirect:
  assumes ok: "file_ok ip s" and cap: "card (set (blocks s) \<union> bitmap_blocks (sb s)) < log_cap s"
    and I: "addrs ip s ! NDIRECT = n" "n \<noteq> 0" and t: "freeing ip H (set (take NDIRECT (addrs ip s)) - {0}) s t" and m: "m \<le> NINDIRECT"
    and H: "H = [bp \<mapsto> n]"
  shows "\<exists>u. foldE (\<lambda>j s. if get32 (data (bufs s bp)) (4 * j) \<noteq> 0
                       then bfree (i_dev (itable s ip)) (get32 (data (bufs s bp)) (4 * j)) s
                       else Inr s) [0..<m] t = Inr u \<and>
    freeing ip H (set (take NDIRECT (addrs ip s)) \<union> slot (view s) (addrs ip s) ` {NDIRECT<..<13 + m} - {0}) s u \<and> itable u = itable t"
  using m
proof (induction m)
  case 0
  have e: "{NDIRECT<..<13 + 0} = {}" by auto
  show ?case unfolding e image_empty Un_empty_right by (intro exI[of _ t] conjI t) simp_all
next
  case (Suc m)
  let ?A = "addrs ip s" and ?V = "view s"
  let ?F = "set (take NDIRECT ?A) \<union> slot ?V ?A ` {NDIRECT<..<13 + m} - {0}"
  have mo: "map_ok (sb s) (larea s \<union> inode_blocks (sb s)) ?V ?A" and dv: "i_dev (itable s ip) = ROOTDEV" using ok by (simp_all add: file_ok_def)
  have len: "length ?A = 13" using map_okD(1)[OF mo] by simp
  obtain u where u: "foldE (\<lambda>j s. if get32 (data (bufs s bp)) (4 * j) \<noteq> 0
                       then bfree (i_dev (itable s ip)) (get32 (data (bufs s bp)) (4 * j)) s
                       else Inr s) [0..<m] t = Inr u" "freeing ip H ?F s u" "itable u = itable t"
    using Suc by auto
  have no: "n \<in> owned ?V ?A" using I by (intro indirect_owned) (simp add: indirect_def)
  then have nb: "n \<notin> bitmap_blocks (sb s)" using map_okD(3)[OF mo no] by blast
  have l: "linv u H" and du: "i_dev (itable u ip) = ROOTDEV" and vu: "view u n = ?V n"
    using u(2) dv same_butD(2)[of ip s u] nb by (auto simp: freeing_def released_def)
  have d: "get32 (data (bufs u bp)) (4 * m) = slot ?V ?A (13 + m)"
    using tx.ld[OF l, of bp n] vu I H by (simp add: slot_def)
  have iv: "{NDIRECT<..<13 + Suc m} = insert (13 + m) {NDIRECT<..<13 + m}" by auto
  show ?case
  proof (cases "slot ?V ?A (13 + m) = 0")
    case True
    then show ?thesis using u d unfolding iv by (intro exI[of _ u]) (simp add: foldE_append)
  next
    case False
    let ?a = "slot ?V ?A (13 + m)"
    have a: "?a \<in> owned ?V ?A" using False Suc.prems by (intro ownedI) simp_all
    have "?a \<noteq> slot ?V ?A j" if "j < 13 + m" for j
      using map_okD(2)[OF mo, of "13 + m" j] that Suc.prems False by auto
    then have "?a \<notin> slot ?V ?A ` {..<13 + m}" by auto
    moreover have "set (take NDIRECT ?A) \<subseteq> slot ?V ?A ` {..<13 + m}"
    proof
      fix x assume "x \<in> set (take NDIRECT ?A)"
      then obtain j where "j < NDIRECT" "x = ?A ! j" using len by (auto simp: in_set_conv_nth)
      then show "x \<in> slot ?V ?A ` {..<13 + m}" by (intro image_eqI[of _ _ j]) (simp_all add: slot_def)
    qed
    ultimately have nf: "?a \<notin> ?F" by auto
    obtain u' where u': "bfree ROOTDEV ?a u = Inr u'" "freeing ip H (insert ?a ?F) s u'" "tx.same u u'"
      using freeing_bfree[OF u(2) cap ok a nf] nb H by auto
    have "insert ?a ?F = set (take NDIRECT ?A) \<union> slot ?V ?A ` {NDIRECT<..<13 + Suc m} - {0}" unfolding iv using False by auto
    then show ?thesis using u(1,3) u' d du False same_fs(2)[OF u'(3)] by (intro exI[of _ u']) (simp add: foldE_append)
  qed
qed

section \<open>Truncation\<close>

text \<open>
  What freeing the blocks of \<open>ip\<close> amounts to: they are available, no other block changes but in the bitmap and in the block of the inode,
  where the other inodes are as before.
\<close>

definition freed :: "nat \<Rightarrow> 'a fs_scheme \<Rightarrow> 'a fs_scheme \<Rightarrow> bool" where
  "freed ip s s' \<longleftrightarrow> linv s' Map.empty \<and> sb s' = sb s \<and> umem s' = umem s \<and> larea s' = larea s \<and> log_cap s' = log_cap s \<and> pid s' = pid s \<and>
     (\<forall>j. j \<noteq> ip \<longrightarrow> itable s' j = itable s j) \<and>
     set (blocks s') \<subseteq> insert (IBLOCK (i_inum (itable s ip)) (sb s)) (set (blocks s) \<union> bitmap_blocks (sb s)) \<and>
     (\<forall>b. available (sb s) (view s') b \<longleftrightarrow> available (sb s) (view s) b \<or> b \<in> owned (view s) (addrs ip s)) \<and>
     (\<forall>b. b \<notin> bitmap_blocks (sb s) \<longrightarrow> b \<notin> inode_blocks (sb s) \<longrightarrow> view s' b = view s b) \<and>
     (\<forall>j. unat j < unat (ninodes (sb s)) \<longrightarrow> j \<noteq> i_inum (itable s ip) \<longrightarrow>
        get_dinode j (view s' (IBLOCK j (sb s))) = get_dinode j (view s (IBLOCK j (sb s))))"

lemma freedD:
  assumes "freed ip s s'"
  shows "linv s' Map.empty" "sb s' = sb s" "umem s' = umem s" "larea s' = larea s" "log_cap s' = log_cap s" "pid s' = pid s" "j \<noteq> ip \<Longrightarrow> itable s' j = itable s j"
    "set (blocks s') \<subseteq> insert (IBLOCK (i_inum (itable s ip)) (sb s)) (set (blocks s) \<union> bitmap_blocks (sb s))"
    "available (sb s) (view s') b \<longleftrightarrow> available (sb s) (view s) b \<or> b \<in> owned (view s) (addrs ip s)"
    "b \<notin> bitmap_blocks (sb s) \<Longrightarrow> b \<notin> inode_blocks (sb s) \<Longrightarrow> view s' b = view s b"
    "unat j' < unat (ninodes (sb s)) \<Longrightarrow> j' \<noteq> i_inum (itable s ip) \<Longrightarrow> get_dinode j' (view s' (IBLOCK j' (sb s))) = get_dinode j' (view s (IBLOCK j' (sb s)))"
  using assms unfolding freed_def by blast+

lemma freed_set_inode: "freed ip s t \<Longrightarrow> freed ip s (set_inode ip f t)"
  by (simp add: freed_def)

lemma freed_iupdate:
  assumes o: "open_file ip s" and f: "freed ip s t" and cap: "card (set (blocks s) \<union> bitmap_blocks (sb s)) + 1 < log_cap s"
    and t: "i_inum (itable t ip) = i_inum (itable s ip)" "i_dev (itable t ip) = ROOTDEV" "length (addrs ip t) = NDIRECT + 1"
  shows "\<exists>t'. iupdate ip t = Inr t' \<and> freed ip s t' \<and> itable t' = itable t \<and> on_disk ip t' \<and> (\<forall>b. available (sb s) (view t') b = available (sb s) (view t) b)"
proof -
  note O = open_fileD[OF o] and F = freedD[OF f]
  let ?i = "i_inum (itable s ip)" and ?B = "set (blocks s) \<union> bitmap_blocks (sb s)"
  let ?n = "IBLOCK ?i (sb s)"
  have "length (blocks t) = card (set (blocks t))" using linvD(2)[OF F(1)] by (simp add: distinct_card)
  also have "\<dots> \<le> card (insert ?n ?B)" using F(8) by (intro card_mono) simp_all
  also have "\<dots> \<le> Suc (card ?B)" by (rule card_insert_le')
  finally have len: "length (blocks t) < log_cap t" using cap F(5) by simp
  have bn: "?n \<notin> bitmap_blocks (sb s)" using O(2,7) by (auto simp: file_ok_def alloc_ok_def)
  obtain t' where u: "iupdate ip t = Inr t'" "linv t' Map.empty" "tx.same t t'" "set (blocks t') = insert ?n (set (blocks t))"
    "view t' = (view t)(?n := put_dinode ?i (itable t ip) (view t ?n))"
    using iupdate_ok[OF F(1), of ip] t(1,2) F(2,4) O(4,7) len by auto
  note E = same_fs[OF u(3)]
  have "view t' m = view t m" if "m \<in> bitmap_blocks (sb s)" for m using that bn u(5) by auto
  then have av: "available (sb s) (view t') b = available (sb s) (view t) b" for b using block_free_cong[of "sb s" "view t'" "view t" b] by blast
  have d: "get_dinode j (view t' (IBLOCK j (sb s))) = get_dinode j (view s (IBLOCK j (sb s)))"
    if j: "unat j < unat (ninodes (sb s))" "j \<noteq> ?i" for j
  proof (cases "IBLOCK j (sb s) = ?n")
    case True
    then show ?thesis using F(11)[OF j] u(5) j(2) same_inode get_put_other_dinode by (metis fun_upd_same)
  qed (use F(11)[OF j] u(5) in simp)
  have "freed ip s t'" unfolding freed_def av using u(2,4) E F d u(5) O(7) by auto
  moreover have "on_disk ip t'" unfolding on_disk_def using get_put_dinode[of "itable t ip"] t u(5) E F(2) by simp
  ultimately show ?thesis using u(1) E av by blast
qed

lemma slots_take: "length A = NDIRECT + 1 \<Longrightarrow> slot V A ` {..<NDIRECT} = set (take NDIRECT A)"
  using nth_image[of NDIRECT A] by (simp add: slot_def atLeast0LessThan cong: image_cong_simp)

lemma slots_split:
  assumes "length A = NDIRECT + 1" and "A ! NDIRECT \<noteq> 0"
  shows "owned V A = insert (A ! NDIRECT) (set (take NDIRECT A) \<union> slot V A ` {NDIRECT<..<13 + NINDIRECT} - {0})"
proof -
  have "{..<NSLOT} = insert NDIRECT ({..<NDIRECT} \<union> {NDIRECT<..<13 + NINDIRECT})" by auto
  moreover have "slot V A ` {..<NDIRECT} = set (take NDIRECT A)" by (rule slots_take[OF assms(1)])
  moreover have "slot V A NDIRECT = A ! NDIRECT" by (simp add: slot_def)
  ultimately have "slot V A ` {..<NSLOT} = insert (A ! NDIRECT) (set (take NDIRECT A) \<union> slot V A ` {NDIRECT<..<13 + NINDIRECT})"
    by (simp only: image_insert image_Un)
  then show ?thesis unfolding owned_def using assms(2) by auto
qed

lemma slots_direct:
  assumes "length A = NDIRECT + 1" and "A ! NDIRECT = 0"
  shows "owned V A = set (take NDIRECT A) - {0}"
proof -
  have "{..<NSLOT} = {..<NDIRECT} \<union> {NDIRECT..<NSLOT}" by auto
  moreover have "slot V A ` {..<NDIRECT} = set (take NDIRECT A)" by (rule slots_take[OF assms(1)])
  moreover have "slot V A ` {NDIRECT..<NSLOT} \<subseteq> {0}" using assms(2) by (auto simp: slot_def)
  ultimately show ?thesis unfolding owned_def by (simp only: image_Un) blast
qed

lemma freeing_same:
  assumes "freeing ip H F s t" and "tx.same t t'" "linv t' H'" "view t' = view t" "blocks t' = blocks t"
  shows "freeing ip H' F s t'"
  using assms same_but_trans[of ip s t t'] same_but_same[of t t' ip] by (auto simp: freeing_def)

lemma freeing_freed:
  assumes "open_file ip s" and "freeing ip Map.empty (owned (view s) (addrs ip s)) s t"
  shows "freed ip s t"
proof -
  note O = open_fileD[OF assms(1)]
  have f: "linv t Map.empty" "same_but ip s t" "\<And>b. b \<notin> bitmap_blocks (sb s) \<Longrightarrow> view t b = view s b"
    "\<And>b. unat b < unat (fssize (sb s)) \<Longrightarrow> block_free (sb s) (view t) b \<longleftrightarrow> b \<in> owned (view s) (addrs ip s) \<or> block_free (sb s) (view s) b"
    "set (blocks t) \<subseteq> set (blocks s) \<union> bitmap_blocks (sb s)"
    using assms(2) by (auto simp: freeing_def released_def)
  have "b \<in> owned (view s) (addrs ip s) \<Longrightarrow> unat b < unat (fssize (sb s))" for b
    using O(2) map_okD(3) unfolding file_ok_def by blast
  then have av: "available (sb s) (view t) b \<longleftrightarrow> available (sb s) (view s) b \<or> b \<in> owned (view s) (addrs ip s)" for b using f(4) by blast
  have ib: "IBLOCK j (sb s) \<notin> bitmap_blocks (sb s)" if "unat j < unat (ninodes (sb s))" for j
    using that O(2) by (auto simp: file_ok_def alloc_ok_def inode_blocks_def)
  show ?thesis unfolding freed_def av using f same_butD[OF f(2)] ib by auto
qed

text \<open>The indirect block: read, its entries given back, released, and given back itself.\<close>

lemma free_indirect_block:
  assumes o: "open_file ip s" and cap: "card (set (blocks s) \<union> bitmap_blocks (sb s)) < log_cap s" and n: "addrs ip s ! NDIRECT = n" "n \<noteq> 0"
    and t: "freeing ip Map.empty (set (take NDIRECT (addrs ip s)) - {0}) s t" "addrs ip t ! NDIRECT = n"
  shows "\<exists>u. bindE (bread (i_dev (itable t ip)) (i_addrs (itable t ip) ! NDIRECT) t) (\<lambda>(bp, s).
              bindE (foldE (\<lambda>j s.
                       if get32 (data (bufs s bp)) (4 * j) \<noteq> 0
                       then bfree (i_dev (itable s ip)) (get32 (data (bufs s bp)) (4 * j)) s
                       else Inr s) [0..<NINDIRECT] s) (\<lambda>s.
              bindE (brelse bp s) (\<lambda>s.
              bindE (bfree (i_dev (itable s ip)) (i_addrs (itable s ip) ! NDIRECT) s) (\<lambda>s.
              Inr (set_addr ip NDIRECT 0 s))))) = Inr u \<and>
    freeing ip Map.empty (owned (view s) (addrs ip s)) s u \<and> addrs ip u = (addrs ip t)[NDIRECT := 0]"
proof -
  note O = open_fileD[OF o]
  let ?A = "addrs ip s" and ?V = "view s"
  let ?F = "set (take NDIRECT ?A) \<union> slot ?V ?A ` {NDIRECT<..<13 + NINDIRECT} - {0}"
  have mo: "map_ok (sb s) (larea s \<union> inode_blocks (sb s)) ?V ?A" using O(2) by (simp add: file_ok_def)
  have no: "n \<in> owned ?V ?A" using n by (intro indirect_owned) (simp add: indirect_def)
  have nb: "n \<notin> bitmap_blocks (sb s)" "n \<notin> larea s" using map_okD(3)[OF mo no] by blast+
  have ft: "linv t Map.empty" "same_but ip s t" using t(1) by (simp_all add: freeing_def)
  note D = same_butD[OF ft(2)]
  have dv: "i_dev (itable t ip) = ROOTDEV" using O(2) D(2) by (simp add: file_ok_def)
  obtain bp t1 where r: "bread ROOTDEV n t = Inr (bp, t1)" "linv t1 [bp \<mapsto> n]" "view t1 = view t" "disk t1 = disk t" "blocks t1 = blocks t"
    "log_cap t1 = log_cap t" "larea t1 = larea t" "lrest t1 = lrest t"
    using tx.rd[OF ft(1) _ _ tx_room[OF ft(1) freeing_room[OF t(1) cap]], of n] nb D by auto
  have sm: "tx.same t t1" using r by (simp add: tx.same_def)
  have f1: "freeing ip [bp \<mapsto> n] (set (take NDIRECT ?A) - {0}) s t1" by (rule freeing_same[OF t(1) sm r(2,3,5)])
  obtain u where u: "foldE (\<lambda>j s.
                       if get32 (data (bufs s bp)) (4 * j) \<noteq> 0
                       then bfree (i_dev (itable s ip)) (get32 (data (bufs s bp)) (4 * j)) s
                       else Inr s) [0..<NINDIRECT] t1 = Inr u" "freeing ip [bp \<mapsto> n] ?F s u" "itable u = itable t1"
    using free_indirect[OF O(2) cap n f1 order_refl refl] by blast
  have lu: "linv u [bp \<mapsto> n]" and su: "same_but ip s u" and vu: "view u n = ?V n" and bu: "set (blocks s) \<subseteq> set (blocks u)"
    using u(2) nb(1) by (auto simp: freeing_def released_def)
  have "n \<in> set (blocks u) \<or> view u n = disk u n"
    using tx.clean[OF O(1), of n] vu bu same_butD(17)[OF su] by auto
  then obtain u1 where v: "brelse bp u = Inr u1" "linv u1 ([bp \<mapsto> n](bp := None))" "view u1 = view u" "disk u1 = disk u" "blocks u1 = blocks u"
    "log_cap u1 = log_cap u" "larea u1 = larea u" "lrest u1 = lrest u"
    using tx.rls[OF lu, of bp n] by auto
  have l1: "linv u1 Map.empty" using v(2) by simp
  have sm1: "tx.same u u1" using v by (simp add: tx.same_def)
  have f2: "freeing ip Map.empty ?F s u1" by (rule freeing_same[OF u(2) sm1 l1 v(3,5)])
  have it: "itable u1 = itable t" using same_fs(2)[OF sm1] same_fs(2)[OF sm] u(3) by simp
  have "slot ?V ?A NDIRECT = n" using n by (simp add: slot_def)
  then have "n \<noteq> slot ?V ?A k" if "k \<in> {..<NSLOT} - {NDIRECT}" for k using map_okD(2)[OF mo, of NDIRECT k] that n(2) by auto
  then have "n \<notin> slot ?V ?A ` ({..<NSLOT} - {NDIRECT})" by blast
  moreover have "slot ?V ?A ` {..<NDIRECT} \<union> slot ?V ?A ` {NDIRECT<..<13 + NINDIRECT} \<subseteq> slot ?V ?A ` ({..<NSLOT} - {NDIRECT})"
    unfolding image_Un[symmetric] by (rule image_mono) auto
  ultimately have nf: "n \<notin> ?F" unfolding slots_take[OF map_okD(1)[OF mo], of ?V, symmetric] by blast
  obtain u2 where w: "bfree ROOTDEV n u1 = Inr u2" "freeing ip Map.empty (insert n ?F) s u2" "tx.same u1 u2"
    using freeing_bfree[OF f2 cap O(2) no nf] by auto
  have "freeing ip Map.empty (owned ?V ?A) s (set_addr ip NDIRECT 0 u2)"
    using freeing_set_addr[OF w(2)] slots_split[OF map_okD(1)[OF mo], of ?V] n by simp
  moreover have "addrs ip (set_addr ip NDIRECT 0 u2) = (addrs ip t)[NDIRECT := 0]" using same_fs(2)[OF w(3)] it by (simp add: set_addr_def)
  ultimately show ?thesis using r(1) u(1) v(1) w(1) dv t(2) it by (intro exI[of _ "set_addr ip NDIRECT 0 u2"]) simp
qed

lemma itrunc_ok:
  assumes o: "open_file ip s" and cap: "card (set (blocks s) \<union> bitmap_blocks (sb s)) + 1 < log_cap s"
  shows "\<exists>s'. itrunc ip s = Inr s' \<and> freed ip s s' \<and> on_disk ip s' \<and>
    itable s' ip = (itable s ip)\<lparr>i_addrs := replicate (NDIRECT + 1) 0, i_size := 0\<rparr>"
proof -
  note O = open_fileD[OF o]
  let ?A = "addrs ip s"
  have c: "card (set (blocks s) \<union> bitmap_blocks (sb s)) < log_cap s" using cap by simp
  have len: "length ?A = NDIRECT + 1" using O(2) map_okD(1) unfolding file_ok_def by blast
  obtain t where t: "foldE (\<lambda>i s. if i_addrs (itable s ip) ! i \<noteq> 0
              then bindE (bfree (i_dev (itable s ip)) (i_addrs (itable s ip) ! i) s) (\<lambda>s. Inr (set_addr ip i 0 s))
              else Inr s) [0..<NDIRECT] s = Inr t" "freeing ip Map.empty (set (take NDIRECT ?A) - {0}) s t"
    "addrs ip t = replicate NDIRECT 0 @ drop NDIRECT ?A"
    using free_direct[OF O(1,2) c order_refl] by blast
  have "drop NDIRECT ?A = [?A ! NDIRECT]" using len by (intro nth_equalityI) auto
  then have at: "addrs ip t = replicate NDIRECT 0 @ [?A ! NDIRECT]" using t(3) by simp
  then have an: "addrs ip t ! NDIRECT = ?A ! NDIRECT" by (simp add: nth_append)
  obtain u where u: "(if i_addrs (itable t ip) ! NDIRECT \<noteq> 0 then
              bindE (bread (i_dev (itable t ip)) (i_addrs (itable t ip) ! NDIRECT) t) (\<lambda>(bp, s).
              bindE (foldE (\<lambda>j s.
                       if get32 (data (bufs s bp)) (4 * j) \<noteq> 0
                       then bfree (i_dev (itable s ip)) (get32 (data (bufs s bp)) (4 * j)) s
                       else Inr s) [0..<NINDIRECT] s) (\<lambda>s.
              bindE (brelse bp s) (\<lambda>s.
              bindE (bfree (i_dev (itable s ip)) (i_addrs (itable s ip) ! NDIRECT) s) (\<lambda>s.
              Inr (set_addr ip NDIRECT 0 s)))))
            else Inr t) = Inr u" "freeing ip Map.empty (owned (view s) ?A) s u" "addrs ip u = replicate (NDIRECT + 1) 0"
  proof (cases "?A ! NDIRECT = 0")
    case True
    moreover have "replicate (NDIRECT + 1) 0 = replicate NDIRECT 0 @ [0 :: uint]" by (simp add: numeral_eq_Suc)
    ultimately show thesis using that[of t] t(2) at an slots_direct[OF len True] by simp
  next
    case False
    have "replicate (NDIRECT + 1) 0 = (addrs ip t)[NDIRECT := 0]" using at by (simp add: list_update_append numeral_eq_Suc)
    then show thesis using free_indirect_block[OF o c refl False t(2) an] that an False by auto
  qed
  let ?u = "set_inode ip (\<lambda>x. x\<lparr>i_size := 0\<rparr>) u"
  have su: "same_but ip s u" using u(2) by (simp add: freeing_def)
  note D = same_butD[OF su]
  have f: "freed ip s ?u" by (rule freed_set_inode[OF freeing_freed[OF o u(2)]])
  obtain s' where s': "iupdate ip ?u = Inr s'" "freed ip s s'" "itable s' = itable ?u" "on_disk ip s'"
    using freed_iupdate[OF o f cap] D(2,3) O(2) u(3) by (auto simp: file_ok_def)
  have "itable u ip = (itable s ip)\<lparr>i_addrs := replicate (NDIRECT + 1) 0\<rparr>"
    using su u(3) by (cases "itable u ip", cases "itable s ip") (simp add: same_but_def)
  then have "itable s' ip = (itable s ip)\<lparr>i_addrs := replicate (NDIRECT + 1) 0, i_size := 0\<rparr>" using s'(3) by simp
  then show ?thesis unfolding itrunc_def using t(1) u(1) s' by (intro exI[of _ s']) simp
qed

lemma open_file_set_inode:
  assumes "i_dev (f (itable s ip)) = i_dev (itable s ip)" "i_inum (f (itable s ip)) = i_inum (itable s ip)" "i_size (f (itable s ip)) = i_size (itable s ip)"
    "i_addrs (f (itable s ip)) = addrs ip s"
  shows "open_file ip (set_inode ip f s) = open_file ip s"
  using assms by (simp add: open_file_def file_ok_def)

lemma freed_from:
  "i_inum (f (itable s ip)) = i_inum (itable s ip) \<Longrightarrow> i_addrs (f (itable s ip)) = addrs ip s \<Longrightarrow> freed ip (set_inode ip f s) t = freed ip s t"
  by (auto simp: freed_def)

section \<open>Properties\<close>

text \<open>
  C4. \<^verbatim>\<open>iput\<close> of the last reference to a file that no directory names frees the file: every block it had, the indirect block included, is
  available again, and no other; its inode on the disk is free for \<^verbatim>\<open>ialloc\<close> and its entry of the table for \<^verbatim>\<open>iget\<close>; the other inodes
  and every block outside the bitmap and the inodes are as before. One block more than the bitmap has is all the log needs for this.
\<close>

theorem iput_frees:
  assumes "open_file ip s" and "card (set (blocks s) \<union> bitmap_blocks (sb s)) + 1 < log_cap s"
    and "i_ref (itable s ip) = 1" "i_valid (itable s ip)" "i_nlink (itable s ip) = 0" "i_lock (itable s ip) = None"
  shows "\<exists>s'. iput ip s = Inr s' \<and> freed ip s s' \<and> i_ref (itable s' ip) = 0 \<and> i_lock (itable s' ip) = None \<and> \<not> i_valid (itable s' ip) \<and>
    dinode_type (view s' (IBLOCK (i_inum (itable s ip)) (sb s))) (i_inum (itable s ip)) = 0"
proof -
  let ?f = "\<lambda>x. x\<lparr>i_lock := Some (pid s)\<rparr>" and ?i = "i_inum (itable s ip)"
  let ?s = "set_inode ip ?f s"
  have aq: "acquire_inode ip s = Inr ?s" using assms(6) by (simp add: acquire_inode_def)
  have o: "open_file ip ?s" using open_file_set_inode[of ?f s ip] assms(1) by simp
  obtain t where t: "itrunc ip ?s = Inr t" "freed ip ?s t" "itable t ip = (itable ?s ip)\<lparr>i_addrs := replicate (NDIRECT + 1) 0, i_size := 0\<rparr>"
    using itrunc_ok[OF o] assms(2) by auto
  let ?t = "set_inode ip (\<lambda>x. x\<lparr>i_type := 0\<rparr>) t"
  have f: "freed ip s ?t" using freed_set_inode t(2) freed_from[of ?f s ip] by auto
  have dv: "i_dev (itable s ip) = ROOTDEV" using open_fileD(2)[OF assms(1)] by (simp add: file_ok_def)
  obtain u where u: "iupdate ip ?t = Inr u" "freed ip s u" "itable u = itable ?t" "on_disk ip u"
    using freed_iupdate[OF assms(1) f assms(2)] t(3) dv by auto
  let ?u = "set_inode ip (\<lambda>x. x\<lparr>i_ref := i_ref x - 1\<rparr>) (release_inode ip (set_inode ip (\<lambda>x. x\<lparr>i_valid := False\<rparr>) u))"
  have iu: "itable u ip = (itable s ip)\<lparr>i_lock := Some (pid s), i_addrs := replicate (NDIRECT + 1) 0, i_size := 0, i_type := 0\<rparr>"
    using u(3) t(3) by simp
  have "i_type (get_dinode ?i (view u (IBLOCK ?i (sb s))) (itable u ip)) = 0"
    using u(4) iu freedD(2)[OF u(2)] by (simp add: on_disk_def)
  then have "dinode_type (view u (IBLOCK ?i (sb s))) ?i = 0" by (simp add: get_dinode_def dinode_type_def Let_def)
  moreover have "iput ip s = Inr ?u" unfolding iput_def using assms(3-5) aq t(1) u(1) by simp
  moreover have "freed ip s ?u" unfolding release_inode_def by (intro freed_set_inode u(2))
  ultimately show ?thesis using iu assms(3) by (intro exI[of _ ?u]) (simp add: release_inode_def)
qed

text \<open>A file with no name, written through the only reference to it and then dropped.\<close>

abbreviation small_unlinked :: fs where
  "small_unlinked \<equiv> set_inode 0 (\<lambda>x. x\<lparr>i_nlink := 0, i_lock := None\<rparr>) small_fs"

lemma small_written:
  "\<exists>s'. writei 0 (Kern [104, 105]) 0 2 small_unlinked = Inr (2, s') \<and> open_file 0 s' \<and> file_bytes 0 s' = [104, 105] \<and>
    card (set (blocks s') \<union> bitmap_blocks (sb s')) + 1 < log_cap s' \<and>
    (itable s' 0)\<lparr>i_addrs := [], i_size := 0\<rparr> = (itable small_unlinked 0)\<lparr>i_addrs := [], i_size := 0\<rparr>"
proof -
  let ?f = "\<lambda>x. x\<lparr>i_nlink := 0, i_lock := None\<rparr>"
  have o: "open_file 0 small_unlinked" using open_file_set_inode[of ?f small_fs 0] small_open(1) by simp
  have l: "load 0 small_unlinked = 2" "log_cap small_unlinked = 29" using small_open(2) small_fs_simps(3) by (simp_all add: load_def)
  have e: "file_bytes 0 small_unlinked = []" using small_open(3) by (simp add: file_bytes_def)
  obtain n s' where w: "writei 0 (Kern [104, 105]) (of_nat 0) (of_nat (length [104, 105 :: uchar])) small_unlinked = Inr (int n, s')" "n \<le> 2"
    "n < 2 \<longrightarrow> (\<forall>b. \<not> available (sb small_unlinked) (view s') b)" "open_file 0 s'" "file_bytes 0 s' = overwrite (file_bytes 0 small_unlinked) 0 (take n [104, 105])"
    "others_kept 0 small_unlinked s'" "load 0 s' \<le> load 0 small_unlinked + span 0 2 + 1" "log_cap s' = log_cap small_unlinked"
    "(itable s' 0)\<lparr>i_addrs := [], i_size := 0\<rparr> = (itable small_unlinked 0)\<lparr>i_addrs := [], i_size := 0\<rparr>"
    using writei_ok[OF o, of "Kern [104, 105]" "[104, 105]" 0] l by (auto simp: span_def)
  have "sb small_unlinked = sb0" "view small_unlinked = view small_fs" using small_fs_simps(4) by simp_all
  then have "n = 2" using w(2,3) small_room[OF w(6)] by fastforce
  moreover have "card (set (blocks s') \<union> bitmap_blocks (sb s')) + 1 < log_cap s'"
    using load_bitmap[of s' 0] w(7,8) l by (simp add: span_def)
  ultimately show ?thesis using w e by (intro exI[of _ s']) (simp add: overwrite_def)
qed

theorem iput_frees_witness:
  "\<exists>s s'. writei 0 (Kern [104, 105]) 0 2 small_unlinked = Inr (2, s) \<and> iput 0 s = Inr s' \<and> i_ref (itable s' 0) = 0 \<and>
    (\<forall>b. b \<in> owned (view s) (addrs 0 s) \<longrightarrow> block_free (sb s) (view s') b)"
proof -
  obtain s where s: "writei 0 (Kern [104, 105]) 0 2 small_unlinked = Inr (2, s)" "open_file 0 s" "card (set (blocks s) \<union> bitmap_blocks (sb s)) + 1 < log_cap s"
    "(itable s 0)\<lparr>i_addrs := [], i_size := 0\<rparr> = (itable small_unlinked 0)\<lparr>i_addrs := [], i_size := 0\<rparr>"
    using small_written by blast
  have "i_ref (itable s 0) = 1" "i_valid (itable s 0)" "i_nlink (itable s 0) = 0" "i_lock (itable s 0) = None"
    using s(4) small_fs_simps(5) by (cases "itable s 0", simp add: empty_inode_def)+
  then show ?thesis using iput_frees[OF s(2,3)] s(1) freedD(9) by blast
qed

end
