(* ===== verification/FsTable.thy ===== *)
theory FsTable
  imports FsTrunc "HOL-Library.Multiset"
begin

text \<open>
  The table of inodes in memory. The reference counts of \<^verbatim>\<open>kernel/fs.c\<close> against the references the kernel holds, whatever
  the order in which \<^verbatim>\<open>iget\<close>, \<^verbatim>\<open>idup\<close>, \<^verbatim>\<open>ilock\<close>, \<^verbatim>\<open>iunlock\<close> and \<^verbatim>\<open>iput\<close> are called.
\<close>

section \<open>What the operations keep\<close>



lemma itable_more: "bio.more s' = bio.more s \<Longrightarrow> itable s' = itable s"
  by (cases s, cases s', simp)

lemma bread_itable: "bread d n s = Inr (b, s') \<Longrightarrow> itable s' = itable s"
  using bread_more[of d n s b s'] by (intro itable_more) simp

lemma set_data_itable: "itable (set_data b v s) = itable s"
  by (simp add: set_data_def set_buf_def)

lemma brelse_itable: "brelse b s = Inr s' \<Longrightarrow> itable s' = itable s"
  by (auto simp: brelse_def Let_def releasesleep_def set_buf_def brelse_front_def split: if_splits)

lemma log_write_itable: "log_write b s = Inr s' \<Longrightarrow> itable s' = itable s"
  by (auto simp: log_write_def set_block_def bpin_def set_buf_def Let_def split: if_splits)

lemmas block_itable = bread_itable set_data_itable brelse_itable log_write_itable














section \<open>References\<close>














section \<open>Properties\<close>





end
