(* ===== verification/Locks.thy ===== *)
theory Locks
  imports Prelude
begin

text \<open>
  \<^verbatim>\<open>kernel/spinlock.c\<close>: spin locks and the nesting of interrupt disabling. The CPUs run at the same
  time; one step is one access to the lock word or to the lock's owner, together with the
  operations on the CPU's own state next to it. \<open>intr\<close> is the interrupt-enable bit of the CPU.
\<close>

section \<open>Per-CPU state\<close>

record cpu =
  noff :: int
  intena :: bool
  intr :: bool

definition push_off :: "cpu \<Rightarrow> cpu" where
  "push_off c =
     (let old = intr c;
          c = c\<lparr>intr := False\<rparr>;
          c = (if noff c = 0 then c\<lparr>intena := old\<rparr> else c)
      in c\<lparr>noff := noff c + 1\<rparr>)"

definition pop_off :: "cpu \<Rightarrow> cpu res" where
  "pop_off c =
     (if intr c then Inl (Panic ''pop_off - interruptible'')
      else if noff c < 1 then Inl (Panic ''pop_off'')
      else
        let c = c\<lparr>noff := noff c - 1\<rparr>
        in Inr (if noff c = 0 \<and> intena c then c\<lparr>intr := True\<rparr> else c))"

text \<open>A CPU outside every lock, as far as nesting goes.\<close>

definition balanced :: "cpu \<Rightarrow> bool" where
  "balanced c \<longleftrightarrow> 0 \<le> noff c \<and> (0 < noff c \<longrightarrow> \<not> intr c)"

lemma push_off_balanced: "balanced c \<Longrightarrow> balanced (push_off c) \<and> 0 < noff (push_off c) \<and> \<not> intr (push_off c)"
  by (simp add: balanced_def push_off_def Let_def)

lemma pop_push:
  assumes "balanced c"
  shows "\<exists>c'. pop_off (push_off c) = Inr c' \<and> noff c' = noff c \<and> intr c' = intr c \<and> (0 < noff c \<longrightarrow> c' = c)"
  using assms by (auto simp: balanced_def push_off_def pop_off_def Let_def)

section \<open>The lock\<close>

record spinlock =
  locked :: bool
  lcpu :: "nat option"

definition initlock :: spinlock where
  "initlock = \<lparr>locked = False, lcpu = None\<rparr>"

definition holding :: "nat \<Rightarrow> spinlock \<Rightarrow> bool" where
  "holding c lk \<longleftrightarrow> locked lk \<and> lcpu lk = Some c"

text \<open>\<^verbatim>\<open>__sync_lock_test_and_set(&lk->locked, 1)\<close>: the old value.\<close>

definition test_and_set :: "spinlock \<Rightarrow> bool \<times> spinlock" where
  "test_and_set lk = (locked lk, lk\<lparr>locked := True\<rparr>)"

text \<open>
  Where a CPU is: outside, spinning in \<^verbatim>\<open>acquire\<close>, between taking the lock word and recording
  itself, in the critical section, or between clearing the owner and the lock word in
  \<^verbatim>\<open>release\<close>; or stopped by a panic.
\<close>

datatype place = Outside | Spinning | Taken | Critical | Leaving | Panicked

record machine =
  cpus :: "nat \<Rightarrow> cpu"
  lock :: spinlock
  place :: "nat \<Rightarrow> place"

definition acquire_begin :: "nat \<Rightarrow> machine \<Rightarrow> machine" where
  "acquire_begin c s =
     (let s = s\<lparr>cpus := (cpus s)(c := push_off (cpus s c))\<rparr>
      in s\<lparr>place := (place s)(c := if holding c (lock s) then Panicked else Spinning)\<rparr>)"

definition acquire_try :: "nat \<Rightarrow> machine \<Rightarrow> machine" where
  "acquire_try c s =
     (case test_and_set (lock s) of (old, lk) \<Rightarrow>
        let s = s\<lparr>lock := lk\<rparr> in if old then s else s\<lparr>place := (place s)(c := Taken)\<rparr>)"

definition acquire_end :: "nat \<Rightarrow> machine \<Rightarrow> machine" where
  "acquire_end c s = s\<lparr>lock := (lock s)\<lparr>lcpu := Some c\<rparr>, place := (place s)(c := Critical)\<rparr>"

definition release_begin :: "nat \<Rightarrow> machine \<Rightarrow> machine" where
  "release_begin c s =
     (if \<not> holding c (lock s) then s\<lparr>place := (place s)(c := Panicked)\<rparr>
      else s\<lparr>lock := (lock s)\<lparr>lcpu := None\<rparr>, place := (place s)(c := Leaving)\<rparr>)"

definition release_end :: "nat \<Rightarrow> machine \<Rightarrow> machine" where
  "release_end c s =
     (let s = s\<lparr>lock := (lock s)\<lparr>locked := False\<rparr>\<rparr>
      in case pop_off (cpus s c) of
           Inl _ \<Rightarrow> s\<lparr>place := (place s)(c := Panicked)\<rparr>
         | Inr k \<Rightarrow> s\<lparr>cpus := (cpus s)(c := k), place := (place s)(c := Outside)\<rparr>)"

inductive step :: "machine \<Rightarrow> machine \<Rightarrow> bool" where
  start: "place s c = Outside \<Longrightarrow> step s (acquire_begin c s)"
| spin: "place s c = Spinning \<Longrightarrow> step s (acquire_try c s)"
| own: "place s c = Taken \<Longrightarrow> step s (acquire_end c s)"
| leave: "place s c = Critical \<Longrightarrow> step s (release_begin c s)"
| unlock: "place s c = Leaving \<Longrightarrow> step s (release_end c s)"

inductive reachable :: "machine \<Rightarrow> bool" where
  init: "lock s = initlock \<Longrightarrow> (\<forall>c. place s c = Outside \<and> balanced (cpus s c)) \<Longrightarrow> reachable s"
| more: "reachable s \<Longrightarrow> step s s' \<Longrightarrow> reachable s'"

section \<open>Mutual exclusion\<close>

definition inside :: "place \<Rightarrow> bool" where
  "inside p \<longleftrightarrow> p = Taken \<or> p = Critical \<or> p = Leaving"

definition lock_inv :: "machine \<Rightarrow> bool" where
  "lock_inv s \<longleftrightarrow>
     (\<forall>c d. inside (place s c) \<longrightarrow> inside (place s d) \<longrightarrow> c = d) \<and>
     (\<forall>c. inside (place s c) \<longrightarrow> locked (lock s)) \<and>
     (\<forall>c. lcpu (lock s) = Some c \<longleftrightarrow> place s c = Critical) \<and>
     (\<forall>c. balanced (cpus s c) \<and> (place s c \<noteq> Outside \<longrightarrow> 0 < noff (cpus s c))) \<and>
     (\<forall>c. place s c \<noteq> Panicked)"

lemma lock_inv_step:
  assumes i: "lock_inv s" and st: "step s s'"
  shows "lock_inv s'"
  using st
proof cases
  case (start c)
  have nh: "\<not> holding c (lock s)" using i start by (auto simp: lock_inv_def holding_def)
  have b: "balanced (push_off (cpus s c))" "0 < noff (push_off (cpus s c))"
    using i push_off_balanced[of "cpus s c"] by (simp_all add: lock_inv_def)
  show ?thesis using i start nh b unfolding lock_inv_def acquire_begin_def inside_def by (auto simp: Let_def split: if_splits)
next
  case (spin c)
  show ?thesis using i spin unfolding lock_inv_def acquire_try_def inside_def test_and_set_def by (auto simp: Let_def split: if_splits)
next
  case (own c)
  show ?thesis using i own unfolding lock_inv_def acquire_end_def inside_def by (auto split: if_splits)
next
  case (leave c)
  have h: "holding c (lock s)" using i leave by (auto simp: lock_inv_def holding_def inside_def)
  show ?thesis using i leave h unfolding lock_inv_def release_begin_def inside_def by (auto split: if_splits)
next
  case (unlock c)
  have n: "balanced (cpus s c)" "0 < noff (cpus s c)" using i unlock by (auto simp: lock_inv_def)
  then have "\<exists>k. pop_off (cpus s c) = Inr k \<and> balanced k"
    by (auto simp: pop_off_def balanced_def Let_def)
  then obtain k where k: "pop_off (cpus s c) = Inr k" "balanced k" by blast
  have lone: "d = c" if "inside (place s d)" for d using i unlock that by (auto simp: lock_inv_def inside_def)
  have "lcpu (lock s) = None"
  proof (rule ccontr)
    assume "lcpu (lock s) \<noteq> None"
    then obtain d where "place s d = Critical" using i by (auto simp: lock_inv_def)
    then show False using lone[of d] unlock by (simp add: inside_def)
  qed
  then show ?thesis using i unlock k lone unfolding lock_inv_def release_end_def inside_def
    by (auto simp: Let_def split: if_splits)
qed

lemma lock_inv_reachable: "reachable s \<Longrightarrow> lock_inv s"
proof (induction rule: reachable.induct)
  case (init s)
  then show ?case by (auto simp: lock_inv_def inside_def initlock_def)
next
  case (more s s')
  then show ?case using lock_inv_step by blast
qed

text \<open>The lock word is set only while some CPU is inside.\<close>

lemma locked_owned: "reachable s \<Longrightarrow> locked (lock s) \<Longrightarrow> \<exists>c. inside (place s c)"
proof (induction rule: reachable.induct)
  case (init s)
  then show ?case by (simp add: initlock_def)
next
  case (more s s')
  note i = lock_inv_reachable[OF more.hyps(1)]
  have keep: "\<exists>d. inside (place s' d)" if a: "locked (lock s)" "place s' = (place s)(c := x)" "\<not> inside (place s c)" for c x
  proof -
    obtain d where d: "inside (place s d)" using more.IH a(1) by blast
    then have "inside (place s' d)" using a(2,3) by (cases "d = c") auto
    then show ?thesis by blast
  qed
  show ?case using more.hyps(2)
  proof cases
    case (start c)
    then show ?thesis using keep[of c] more.prems by (simp add: acquire_begin_def Let_def inside_def)
  next
    case (spin c)
    show ?thesis
    proof (cases "locked (lock s)")
      case True
      then show ?thesis using more.IH spin by (simp add: acquire_try_def test_and_set_def)
    next
      case False
      then have "place s' c = Taken" using spin by (simp add: acquire_try_def test_and_set_def)
      then show ?thesis unfolding inside_def by blast
    qed
  next
    case (own c)
    then have "place s' c = Critical" by (simp add: acquire_end_def)
    then show ?thesis unfolding inside_def by blast
  next
    case (leave c)
    then have "holding c (lock s)" using i by (auto simp: lock_inv_def holding_def inside_def)
    then have "place s' c = Leaving" using leave by (simp add: release_begin_def)
    then show ?thesis unfolding inside_def by blast
  next
    case (unlock c)
    then show ?thesis using more.prems by (simp add: release_end_def Let_def split: sum.splits)
  qed
qed

section \<open>Properties\<close>

text \<open>
  C16. In every interleaving of CPUs that acquire and release a spin lock, at most one is in the critical
  section, it runs with interrupts off, and neither \<^verbatim>\<open>acquire\<close> nor \<^verbatim>\<open>release\<close> panics.
\<close>

theorem spinlock_mutual_exclusion:
  assumes "reachable s"
  shows "(\<forall>c d. place s c = Critical \<longrightarrow> place s d = Critical \<longrightarrow> c = d) \<and>
    (\<forall>c. place s c = Critical \<longrightarrow> holding c (lock s) \<and> \<not> intr (cpus s c)) \<and> (\<forall>c. place s c \<noteq> Panicked)"
proof -
  have i: "lock_inv s" using lock_inv_reachable[OF assms] .
  show ?thesis
  proof (intro conjI allI impI)
    show "c = d" if "place s c = Critical" "place s d = Critical" for c d
      using i that by (auto simp: lock_inv_def inside_def)
    show "holding c (lock s)" if "place s c = Critical" for c using i that by (auto simp: lock_inv_def inside_def holding_def)
    show "\<not> intr (cpus s c)" if "place s c = Critical" for c using i that by (auto simp: lock_inv_def balanced_def)
    show "place s c \<noteq> Panicked" for c using i by (simp add: lock_inv_def)
  qed
qed

text \<open>The remaining steps of a CPU that has taken the lock.\<close>

definition finish :: "nat \<Rightarrow> machine \<Rightarrow> machine" where
  "finish c s =
     (let s = (if place s c = Taken then acquire_end c s else s);
          s = (if place s c = Critical then release_begin c s else s)
      in if place s c = Leaving then release_end c s else s)"

definition idle_machine :: machine where
  "idle_machine = \<lparr>cpus = (\<lambda>_. \<lparr>noff = 0, intena = False, intr = True\<rparr>), lock = initlock, place = (\<lambda>_. Outside)\<rparr>"

text \<open>A reachable state in which CPU 0 holds the lock and CPU 1 waits for it.\<close>

lemma contended: "\<exists>s. reachable s \<and> place s 0 = Critical \<and> place s 1 = Spinning"
proof -
  let ?a = "acquire_begin 0 idle_machine"
  let ?b = "acquire_try 0 ?a"
  let ?c = "acquire_end 0 ?b"
  let ?d = "acquire_begin 1 ?c"
  note defs = acquire_begin_def acquire_try_def acquire_end_def idle_machine_def initlock_def holding_def test_and_set_def Let_def
  have s: "place ?a 0 = Spinning" "place ?b 0 = Taken" "place ?c 0 = Critical" "place ?c 1 = Outside" by (simp_all add: defs)
  have "reachable idle_machine" by (rule reachable.init) (simp_all add: idle_machine_def balanced_def)
  then have "reachable ?a" by (rule reachable.more, intro step.start) (simp add: idle_machine_def)
  then have "reachable ?b" by (rule reachable.more, intro step.spin) (rule s)
  then have "reachable ?c" by (rule reachable.more, intro step.own) (rule s)
  then have "reachable ?d" by (rule reachable.more, intro step.start) (rule s)
  moreover have "place ?d 0 = Critical" "place ?d 1 = Spinning" by (simp_all add: defs)
  ultimately show ?thesis by blast
qed

theorem spinlock_mutual_exclusion_witness:
  "\<exists>s. reachable s \<and> place s 0 = Critical \<and> place s 1 = Spinning \<and> holding 0 (lock s)"
  using contended spinlock_mutual_exclusion by blast

text \<open>
  C34. A free lock can be taken: whenever a CPU spins and the lock word is clear, its next step takes the lock; and the
  lock word is set only while some CPU is inside, whose remaining steps clear it.
\<close>

theorem spinlock_progress:
  assumes "reachable s" and "place s c = Spinning"
  shows "if locked (lock s)
    then \<exists>d. d \<noteq> c \<and> inside (place s d) \<and> place (acquire_try c (finish d s)) c = Taken
    else place (acquire_try c s) c = Taken"
proof (cases "locked (lock s)")
  case False
  then show ?thesis by (simp add: acquire_try_def test_and_set_def)
next
  case True
  note i = lock_inv_reachable[OF assms(1)]
  obtain d where d: "inside (place s d)" using locked_owned[OF assms(1) True] by blast
  have ne: "d \<noteq> c" using d assms(2) by (auto simp: inside_def)
  have b: "balanced (cpus s d)" "0 < noff (cpus s d)" using i d by (auto simp: lock_inv_def inside_def)
  then obtain k where k: "pop_off (cpus s d) = Inr k" by (auto simp: pop_off_def balanced_def Let_def)
  have h: "holding d (lock s)" if "place s d = Critical" using i that True by (auto simp: lock_inv_def holding_def)
  have "\<not> locked (lock (finish d s)) \<and> place (finish d s) c = Spinning"
    using d k ne assms(2) True h unfolding inside_def
    by (auto simp: finish_def acquire_end_def release_begin_def release_end_def holding_def Let_def)
  then show ?thesis using True d ne by (auto simp: acquire_try_def test_and_set_def)
qed

theorem spinlock_progress_witness:
  "\<exists>s d. reachable s \<and> locked (lock s) \<and> place s 1 = Spinning \<and> place (acquire_try 1 (finish d s)) 1 = Taken"
proof -
  obtain s where s: "reachable s" "place s 0 = Critical" "place s 1 = Spinning" using contended by blast
  have "locked (lock s)" using lock_inv_reachable[OF s(1)] s(2) by (auto simp: lock_inv_def inside_def)
  then show ?thesis using spinlock_progress[OF s(1,3)] s by auto
qed

end
