(* ===== verification/Sched.thy ===== *)
theory Sched
  imports Proc
begin

text \<open>
  Scheduling and the hand-over of the CPU: \<^verbatim>\<open>scheduler\<close>, \<^verbatim>\<open>sched\<close>, \<^verbatim>\<open>sleep\<close> and \<^verbatim>\<open>wakeup\<close> of \<^verbatim>\<open>kernel/proc.c\<close>. The first part
  is one pass of the scheduler over the process table. The second part lets the processes run at the same time: one
  step is the code between two operations on locks.
\<close>

section \<open>The scheduler\<close>

text \<open>The checks of \<^verbatim>\<open>sched\<close>, in order: whether the process holds its lock, the depth of \<^verbatim>\<open>push_off\<close>, its state, and interrupts.\<close>

definition sched :: "bool \<Rightarrow> int \<Rightarrow> procstate \<Rightarrow> bool \<Rightarrow> unit res" where
  "sched held noff st intr =
     (if \<not> held then Inl (Panic ''sched p->lock'')
      else if noff \<noteq> 1 then Inl (Panic ''sched locks'')
      else if st = RUNNING then Inl (Panic ''sched running'')
      else if intr then Inl (Panic ''sched interruptible'')
      else Inr ())"



lemma ptab_load_proc [simp]: "ptab (load_proc p s) = ptab s"
  by (simp add: load_proc_def Let_def)

lemma ptab_set_proc [simp]: "ptab (set_proc p f s) q = (if q = p then f (ptab s p) else ptab s q)"
  by (simp add: set_proc_def)




section \<open>Sleeping and waking\<close>

text \<open>
  The processes share a condition and the lock that protects it. Each of them may wait for the condition,
  sleeping on one channel while it does not hold, use it up, or establish it and wake the sleepers. Where a process is:
  not using the condition; with the lock, testing; in \<^verbatim>\<open>sleep\<close> with its own lock before and after the release of
  the other one; after setting its state; off the CPU; picked by the scheduler; before taking the lock again; in \<^verbatim>\<open>wakeup\<close> before and
  inside the visit of table entry \<open>i\<close>; or stopped by a panic of \<^verbatim>\<open>sched\<close>.
\<close>

datatype point = Idle | Testing | Entered | Released | Set_State | Off_Cpu | Picked | Retaking | Scanning nat | Visiting nat | Stuck

record sleepers =
  cond :: bool
  lk :: "nat option"
  plock :: "nat \<Rightarrow> nat option"
  pstate :: "nat \<Rightarrow> procstate"
  asleep_on :: "nat \<Rightarrow> bool"
  at_point :: "nat \<Rightarrow> point"

definition goto :: "nat \<Rightarrow> point \<Rightarrow> sleepers \<Rightarrow> sleepers" where
  "goto p x s = s\<lparr>at_point := (at_point s)(p := x)\<rparr>"

definition locks_held :: "nat \<Rightarrow> sleepers \<Rightarrow> nat" where
  "locks_held p s = (if lk s = Some p then 1 else 0) + length (filter (\<lambda>i. plock s i = Some p) [0..<NPROC])"

inductive sstep :: "sleepers \<Rightarrow> sleepers \<Rightarrow> bool" where
  lock: "p < NPROC \<Longrightarrow> at_point s p \<in> {Idle, Retaking} \<Longrightarrow> lk s = None \<Longrightarrow> sstep s (goto p Testing (s\<lparr>lk := Some p\<rparr>))"
| unlock: "p < NPROC \<Longrightarrow> at_point s p = Testing \<Longrightarrow> sstep s (goto p Idle (s\<lparr>lk := None\<rparr>))"
| use: "p < NPROC \<Longrightarrow> at_point s p = Testing \<Longrightarrow> cond s \<Longrightarrow> sstep s (s\<lparr>cond := False\<rparr>)"
| enter: "p < NPROC \<Longrightarrow> at_point s p = Testing \<Longrightarrow> \<not> cond s \<Longrightarrow> plock s p = None \<Longrightarrow>
    sstep s (goto p Entered (s\<lparr>plock := (plock s)(p := Some p)\<rparr>))"
| release: "p < NPROC \<Longrightarrow> at_point s p = Entered \<Longrightarrow> sstep s (goto p Released (s\<lparr>lk := None\<rparr>))"
| set_state: "p < NPROC \<Longrightarrow> at_point s p = Released \<Longrightarrow>
    sstep s (goto p Set_State (s\<lparr>asleep_on := (asleep_on s)(p := True), pstate := (pstate s)(p := SLEEPING)\<rparr>))"
| switch: "p < NPROC \<Longrightarrow> at_point s p = Set_State \<Longrightarrow>
    sstep s (case sched (plock s p = Some p) (int (locks_held p s)) (pstate s p) False of
               Inl _ \<Rightarrow> goto p Stuck s
             | Inr _ \<Rightarrow> goto p Off_Cpu (s\<lparr>plock := (plock s)(p := None)\<rparr>))"
| pick: "p < NPROC \<Longrightarrow> at_point s p = Off_Cpu \<Longrightarrow> pstate s p = RUNNABLE \<Longrightarrow> plock s p = None \<Longrightarrow>
    sstep s (goto p Picked (s\<lparr>plock := (plock s)(p := Some p), pstate := (pstate s)(p := RUNNING)\<rparr>))"
| tidy: "p < NPROC \<Longrightarrow> at_point s p = Picked \<Longrightarrow>
    sstep s (goto p Retaking (s\<lparr>asleep_on := (asleep_on s)(p := False), plock := (plock s)(p := None)\<rparr>))"
| establish: "p < NPROC \<Longrightarrow> at_point s p = Testing \<Longrightarrow> sstep s (goto p (Scanning 0) (s\<lparr>cond := True\<rparr>))"
| skip: "p < NPROC \<Longrightarrow> at_point s p = Scanning p \<Longrightarrow> sstep s (goto p (Scanning (Suc p)) s)"
| visit: "p < NPROC \<Longrightarrow> at_point s p = Scanning i \<Longrightarrow> i < NPROC \<Longrightarrow> i \<noteq> p \<Longrightarrow> plock s i = None \<Longrightarrow>
    sstep s (goto p (Visiting i) (s\<lparr>plock := (plock s)(i := Some p)\<rparr>))"
| wake: "p < NPROC \<Longrightarrow> at_point s p = Visiting i \<Longrightarrow>
    sstep s (goto p (Scanning (Suc i)) (s\<lparr>plock := (plock s)(i := None),
      pstate := (if pstate s i = SLEEPING \<and> asleep_on s i then (pstate s)(i := RUNNABLE) else pstate s)\<rparr>))"
| scanned: "p < NPROC \<Longrightarrow> at_point s p = Scanning NPROC \<Longrightarrow> sstep s (goto p Idle (s\<lparr>lk := None\<rparr>))"
| kill: "i < NPROC \<Longrightarrow> plock s i = None \<Longrightarrow> pstate s i = SLEEPING \<Longrightarrow> sstep s (s\<lparr>pstate := (pstate s)(i := RUNNABLE)\<rparr>)"

inductive sreach :: "sleepers \<Rightarrow> bool" where
  init: "lk s = None \<Longrightarrow> (\<forall>p. plock s p = None \<and> pstate s p = RUNNING \<and> \<not> asleep_on s p \<and> at_point s p = Idle) \<Longrightarrow> sreach s"
| step: "sreach s \<Longrightarrow> sstep s s' \<Longrightarrow> sreach s'"

section \<open>The invariant\<close>

fun has_lk :: "point \<Rightarrow> bool" where
  "has_lk Testing = True"
| "has_lk Entered = True"
| "has_lk (Scanning i) = True"
| "has_lk (Visiting i) = True"
| "has_lk _ = False"

fun own_lock :: "point \<Rightarrow> bool" where
  "own_lock Entered = True"
| "own_lock Released = True"
| "own_lock Set_State = True"
| "own_lock Picked = True"
| "own_lock _ = False"

fun waking :: "nat \<Rightarrow> point \<Rightarrow> bool" where
  "waking p (Scanning i) = (i \<le> p)"
| "waking p (Visiting i) = (i \<le> p)"
| "waking p _ = False"

text \<open>A process that sleeps or has decided to.\<close>

definition sleepy :: "sleepers \<Rightarrow> nat \<Rightarrow> bool" where
  "sleepy s p \<longleftrightarrow> at_point s p \<in> {Entered, Released, Set_State} \<or> (at_point s p = Off_Cpu \<and> pstate s p = SLEEPING)"

definition lk_inv :: "sleepers \<Rightarrow> bool" where
  "lk_inv s \<longleftrightarrow> (\<forall>p. lk s = Some p \<longleftrightarrow> has_lk (at_point s p))"

definition plock_inv :: "sleepers \<Rightarrow> bool" where
  "plock_inv s \<longleftrightarrow> (\<forall>i q. plock s i = Some q \<longleftrightarrow> (q = i \<and> own_lock (at_point s i)) \<or> (at_point s q = Visiting i))"

definition place_inv :: "sleepers \<Rightarrow> bool" where
  "place_inv s \<longleftrightarrow> (\<forall>p. (NPROC \<le> p \<longrightarrow> at_point s p = Idle) \<and> at_point s p \<noteq> Stuck \<and> at_point s p \<noteq> Visiting p \<and>
     (\<forall>i. at_point s p = Visiting i \<longrightarrow> i < NPROC) \<and> (\<forall>i. at_point s p = Scanning i \<longrightarrow> i \<le> NPROC))"

definition state_inv :: "sleepers \<Rightarrow> bool" where
  "state_inv s \<longleftrightarrow> (\<forall>p. (pstate s p = SLEEPING \<longrightarrow> at_point s p \<in> {Set_State, Off_Cpu} \<and> asleep_on s p) \<and>
     (at_point s p = Set_State \<longrightarrow> pstate s p = SLEEPING))"

definition wake_inv :: "sleepers \<Rightarrow> bool" where
  "wake_inv s \<longleftrightarrow> (\<forall>p. sleepy s p \<longrightarrow> cond s \<longrightarrow> (\<exists>q. waking p (at_point s q)))"

lemmas sinv_defs = lk_inv_def plock_inv_def place_inv_def state_inv_def wake_inv_def sleepy_def goto_def

lemma waking_has_lk: "waking p x \<Longrightarrow> has_lk x"
  by (cases x) auto

lemma waker_unique: "lk_inv s \<Longrightarrow> lk s = Some q \<Longrightarrow> waking p (at_point s q') \<Longrightarrow> q' = q"
  using waking_has_lk unfolding lk_inv_def by (metis option.inject)

text \<open>A process that calls \<^verbatim>\<open>sched\<close> holds its own lock and no other.\<close>

lemma one_lock:
  assumes "lk_inv s" and "plock_inv s" and "place_inv s" and "p < NPROC" and "at_point s p = Set_State"
  shows "locks_held p s = 1" and "plock s p = Some p"
proof -
  show own: "plock s p = Some p" using assms(2,5) by (simp add: plock_inv_def)
  have "lk s \<noteq> Some p" using assms(1,5) by (simp add: lk_inv_def)
  moreover have "filter (\<lambda>i. plock s i = Some p) [0..<NPROC] = filter (\<lambda>i. i = p) [0..<NPROC]"
    using assms(2,5) own by (intro filter_cong refl) (auto simp: plock_inv_def)
  moreover have "length (filter (\<lambda>i. i = p) [0..<n]) = (if p < n then 1 else 0)" for n by (induction n) auto
  ultimately show "locks_held p s = 1" using assms(4) by (simp add: locks_held_def)
qed

lemma switch_ok:
  assumes "lk_inv s" and "plock_inv s" and "place_inv s" and "state_inv s" and "p < NPROC" and "at_point s p = Set_State"
  shows "sched (plock s p = Some p) (int (locks_held p s)) (pstate s p) False = Inr ()"
proof -
  have "pstate s p = SLEEPING" using assms(4,6) by (simp add: state_inv_def)
  then show ?thesis using one_lock[OF assms(1-3,5,6)] by (simp add: sched_def)
qed

definition sinv :: "sleepers \<Rightarrow> bool" where
  "sinv s \<longleftrightarrow> lk_inv s \<and> plock_inv s \<and> place_inv s \<and> state_inv s \<and> wake_inv s"

lemma sole_holder: "sinv s \<Longrightarrow> has_lk (at_point s p) \<Longrightarrow> has_lk (at_point s q) \<longleftrightarrow> q = p"
  unfolding sinv_def lk_inv_def by (metis option.inject)

lemma lk_inv_step: "sstep s s' \<Longrightarrow> sinv s \<Longrightarrow> lk_inv s'"
proof (induction rule: sstep.induct)
  case (unlock p s)
  then show ?case using sole_holder[of s p] by (auto simp: lk_inv_def goto_def)
next
  case (release p s)
  then show ?case using sole_holder[of s p] by (auto simp: lk_inv_def goto_def)
next
  case (scanned p s)
  then show ?case using sole_holder[of s p] by (auto simp: lk_inv_def goto_def)
next
  case (switch p s)
  then show ?case using switch_ok[of s p] by (auto simp: sinv_def lk_inv_def goto_def)
qed (auto simp: sinv_def lk_inv_def goto_def)

lemma place_inv_step: "sstep s s' \<Longrightarrow> sinv s \<Longrightarrow> place_inv s'"
proof (induction rule: sstep.induct)
  case (switch p s)
  then show ?case using switch_ok[of s p] by (auto simp: sinv_def place_inv_def goto_def)
next
  case (wake p s i)
  then have "i < NPROC" unfolding sinv_def place_inv_def by blast
  then have "i \<le> 63" by simp
  then show ?case using wake by (auto simp: sinv_def place_inv_def goto_def)
qed (auto simp: sinv_def place_inv_def goto_def)

lemma sole_visitor:
  "sinv s \<Longrightarrow> own_lock (at_point s p) \<Longrightarrow> at_point s q \<noteq> Visiting p"
  "sinv s \<Longrightarrow> at_point s q = Visiting p \<Longrightarrow> at_point s r = Visiting p \<longleftrightarrow> r = q"
  unfolding sinv_def plock_inv_def place_inv_def by (metis option.inject)+

lemma free_plock: "sinv s \<Longrightarrow> plock s i = None \<Longrightarrow> \<not> own_lock (at_point s i) \<and> at_point s q \<noteq> Visiting i"
  unfolding sinv_def plock_inv_def by (metis option.distinct(1))

lemma plock_inv_step: "sstep s s' \<Longrightarrow> sinv s \<Longrightarrow> plock_inv s'"
proof (induction rule: sstep.induct)
  case (enter p s)
  then show ?case using free_plock[of s p] by (auto simp: sinv_def plock_inv_def goto_def)
next
  case (pick p s)
  then show ?case using free_plock[of s p] by (auto simp: sinv_def plock_inv_def goto_def)
next
  case (visit p s i)
  then show ?case using free_plock[of s i] by (auto simp: sinv_def plock_inv_def goto_def)
next
  case (switch p s)
  then show ?case using switch_ok[of s p] sole_visitor(1)[of s p] by (auto simp: sinv_def plock_inv_def goto_def)
next
  case (tidy p s)
  then show ?case using sole_visitor(1)[of s p] by (auto simp: sinv_def plock_inv_def goto_def)
next
  case (wake p s i)
  then have "i \<noteq> p" "\<not> own_lock (at_point s i)" using sole_visitor(1)[of s i p] by (auto simp: sinv_def place_inv_def)
  moreover have "r \<noteq> p \<Longrightarrow> at_point s r \<noteq> Visiting i" for r using wake sole_visitor(2)[of s p i r] by blast
  ultimately show ?case using wake by (auto simp: sinv_def plock_inv_def goto_def)
qed (auto simp: sinv_def plock_inv_def place_inv_def goto_def)

lemma state_inv_step: "sstep s s' \<Longrightarrow> sinv s \<Longrightarrow> state_inv s'"
proof (induction rule: sstep.induct)
  case (switch p s)
  then show ?case using switch_ok[of s p] by (auto simp: sinv_def state_inv_def goto_def)
next
  case (wake p s i)
  then have "at_point s i \<noteq> Set_State" using sole_visitor(1)[of s i p] by auto
  then show ?case using wake by (auto simp: sinv_def state_inv_def goto_def)
next
  case (kill i s)
  then have "at_point s i \<noteq> Set_State" using free_plock[of s i] by auto
  then show ?case using kill by (auto simp: sinv_def state_inv_def)
qed (auto simp: sinv_def state_inv_def goto_def)

lemma wake_inv_step: "sstep s s' \<Longrightarrow> sinv s \<Longrightarrow> wake_inv s'"
proof -
  assume st: "sstep s s'" and i: "sinv s"
  have keep: "wake_inv s'"
    if "\<And>p. sleepy s' p \<Longrightarrow> cond s' \<Longrightarrow> sleepy s p \<and> cond s" "\<And>p q. sleepy s' p \<Longrightarrow> waking p (at_point s q) \<Longrightarrow> waking p (at_point s' q)"
    using i that unfolding sinv_def wake_inv_def by blast
  show ?thesis using st
  proof cases
    case (enter p)
    then show ?thesis by (simp add: wake_inv_def goto_def)
  next
    case (use p)
    then show ?thesis by (simp add: wake_inv_def)
  next
    case (establish p)
    then show ?thesis by (auto simp: wake_inv_def goto_def intro!: exI[of _ p])
  next
    case (switch p)
    have "sched (plock s p = Some p) (int (locks_held p s)) (pstate s p) False = Inr ()"
      using switch_ok[of s p] i switch by (simp add: sinv_def)
    then have s': "s' = goto p Off_Cpu (s\<lparr>plock := (plock s)(p := None)\<rparr>)" using switch by simp
    show ?thesis by (rule keep) (auto simp: s' sleepy_def goto_def switch(3) split: if_splits)
  next
    case (skip p)
    show ?thesis by (rule keep) (auto simp: skip sleepy_def goto_def Suc_le_eq le_less split: if_splits)
  next
    case (wake p j)
    have o: "\<not> own_lock (at_point s j)" using sole_visitor(1)[OF i, of j p] wake(3) by auto
    have "asleep_on s j" if "pstate s j = SLEEPING" using i that by (simp add: sinv_def state_inv_def)
    then have nj: "\<not> sleepy s' j" using o wake by (auto simp: sleepy_def goto_def)
    show ?thesis
    proof (rule keep)
      show "sleepy s' q \<Longrightarrow> cond s' \<Longrightarrow> sleepy s q \<and> cond s" for q using nj by (auto simp: wake sleepy_def goto_def split: if_splits)
      show "sleepy s' q \<Longrightarrow> waking q (at_point s r) \<Longrightarrow> waking q (at_point s' r)" for q r
        using nj wake(3) by (cases "q = j") (auto simp: wake(1) goto_def)
    qed
  next
    case (scanned p)
    have "\<not> sleepy s' q" if "NPROC \<le> q" for q using i that scanned by (auto simp: sinv_def place_inv_def sleepy_def goto_def)
    note big = this
    show ?thesis
    proof (rule keep)
      show "sleepy s' q \<Longrightarrow> cond s' \<Longrightarrow> sleepy s q \<and> cond s" for q by (auto simp: scanned sleepy_def goto_def split: if_splits)
      show "waking q (at_point s' r)" if "sleepy s' q" "waking q (at_point s r)" for q r
      proof (cases "r = p")
        case True
        then have "NPROC \<le> q" using that(2) scanned(3) by simp
        then show ?thesis using big that(1) by blast
      next
        case False
        then show ?thesis using that(2) by (simp add: scanned(1) goto_def)
      qed
    qed
  next
    case (pick p)
    show ?thesis by (rule keep) (auto simp: pick sleepy_def goto_def split: if_splits)
  next
    case (kill i)
    show ?thesis by (rule keep) (auto simp: kill sleepy_def split: if_splits)
  next
    case (set_state p)
    show ?thesis by (rule keep) (auto simp: set_state sleepy_def goto_def split: if_splits)
  qed (rule keep; auto simp: sleepy_def goto_def split: if_splits; fail)+
qed

lemma sinv_reachable: "sreach s \<Longrightarrow> sinv s"
proof (induction rule: sreach.induct)
  case (init s)
  then show ?case by (simp add: sinv_def sinv_defs)
next
  case (step s s')
  then show ?case
    using lk_inv_step plock_inv_step place_inv_step state_inv_step wake_inv_step unfolding sinv_def[of s'] by blast
qed

section \<open>Properties\<close>

text \<open>
  C8. No wakeup is lost: in every interleaving of processes that wait for a condition, use it up, establish it and wake the sleepers, no process
  is asleep, or about to be, while the condition holds and its lock is free; and \<^verbatim>\<open>sched\<close> never panics.
\<close>

theorem no_lost_wakeup:
  assumes "sreach s"
  shows "(lk s = None \<and> cond s \<longrightarrow> (\<forall>p. at_point s p \<notin> {Entered, Released, Set_State} \<and> pstate s p \<noteq> SLEEPING)) \<and>
    (\<forall>p. at_point s p \<noteq> Stuck)"
proof (intro conjI impI allI)
  note i = sinv_reachable[OF assms]
  fix p
  show "at_point s p \<noteq> Stuck" using i by (simp add: sinv_def place_inv_def)
  assume a: "lk s = None \<and> cond s"
  have ns: "\<not> sleepy s p"
  proof
    assume "sleepy s p"
    then obtain q where "waking p (at_point s q)" using i a unfolding sinv_def wake_inv_def by blast
    then have "lk s = Some q" using i waking_has_lk unfolding sinv_def lk_inv_def by blast
    then show False using a by simp
  qed
  then show "at_point s p \<notin> {Entered, Released, Set_State}" by (simp add: sleepy_def)
  show "pstate s p \<noteq> SLEEPING" using ns i by (auto simp: sleepy_def sinv_def state_inv_def)
qed

text \<open>Process 1 goes to sleep, process 0 establishes the condition and wakes it.\<close>

definition calm :: sleepers where
  "calm = \<lparr>cond = False, lk = None, plock = (\<lambda>_. None), pstate = (\<lambda>_. RUNNING), asleep_on = (\<lambda>_. False), at_point = (\<lambda>_. Idle)\<rparr>"

lemma sreach_goto: "sreach s \<Longrightarrow> sstep s s' \<Longrightarrow> s' = t \<Longrightarrow> sreach t"
  using sreach.step by blast

lemma one_asleep: "sreach (calm\<lparr>pstate := (\<lambda>_. RUNNING)(1 := SLEEPING), asleep_on := (\<lambda>_. False)(1 := True), at_point := (\<lambda>_. Idle)(1 := Off_Cpu)\<rparr>)"
proof -
  let ?P = "\<lambda>l f st ch x. calm\<lparr>lk := l, plock := f, pstate := st, asleep_on := ch, at_point := (\<lambda>_. Idle)(1 := x)\<rparr>"
  let ?n = "\<lambda>_ :: nat. None :: nat option" and ?r = "\<lambda>_ :: nat. RUNNING" and ?no = "\<lambda>_ :: nat. False"
  have "sreach calm" by (rule sreach.init) (simp_all add: calm_def)
  then have "sreach (?P (Some 1) ?n ?r ?no Testing)"
    by (rule sreach_goto[OF _ sstep.lock[of 1]]) (simp_all add: calm_def goto_def)
  then have "sreach (?P (Some 1) (?n(1 := Some 1)) ?r ?no Entered)"
    by (rule sreach_goto[OF _ sstep.enter[of 1]]) (simp_all add: calm_def goto_def)
  then have "sreach (?P None (?n(1 := Some 1)) ?r ?no Released)"
    by (rule sreach_goto[OF _ sstep.release[of 1]]) (simp_all add: calm_def goto_def)
  then have a: "sreach (?P None (?n(1 := Some 1)) (?r(1 := SLEEPING)) (?no(1 := True)) Set_State)"
    by (rule sreach_goto[OF _ sstep.set_state[of 1]]) (simp_all add: calm_def goto_def)
  let ?s = "?P None (?n(1 := Some 1)) (?r(1 := SLEEPING)) (?no(1 := True)) Set_State"
  have "sched (plock ?s 1 = Some 1) (int (locks_held 1 ?s)) (pstate ?s 1) False = Inr ()"
    using switch_ok[of ?s 1] sinv_reachable[OF a] by (simp add: sinv_def)
  then have "sstep ?s (?P None ?n (?r(1 := SLEEPING)) (?no(1 := True)) Off_Cpu)"
    using sstep.switch[of 1 ?s] by (simp add: goto_def calm_def)
  with a have "sreach (?P None ?n (?r(1 := SLEEPING)) (?no(1 := True)) Off_Cpu)" by (rule sreach.step)
  then show ?thesis by (simp add: calm_def)
qed

theorem no_lost_wakeup_witness:
  "\<exists>s. sreach s \<and> pstate s 1 = SLEEPING \<and> lk s = None \<and> \<not> cond s \<and> (\<forall>p. at_point s p \<noteq> Stuck)"
proof -
  let ?s = "calm\<lparr>pstate := (\<lambda>_. RUNNING)(1 := SLEEPING), asleep_on := (\<lambda>_. False)(1 := True), at_point := (\<lambda>_. Idle)(1 := Off_Cpu)\<rparr>"
  have "pstate ?s 1 = SLEEPING" "lk ?s = None" "\<not> cond ?s" by (simp_all add: calm_def)
  then show ?thesis using one_asleep no_lost_wakeup[OF one_asleep] by blast
qed



end
