(* ===== verification/Console.thy ===== *)
theory Console
  imports Syscall
begin

text \<open>
  \<^verbatim>\<open>kernel/console.c\<close> and \<^verbatim>\<open>kernel/uart.c\<close>: the line discipline of the console and the transmit ring of the UART. The
  registers of the UART are parameters: what it has received, and how many more bytes its transmitter accepts. A call that
  has to sleep stops with \<open>Waiting\<close> and goes on from there when it is woken.
\<close>

section \<open>The console\<close>

abbreviation INPUT_BUF_SIZE :: nat where "INPUT_BUF_SIZE \<equiv> 128"

record cons =
  c_buf :: "nat \<Rightarrow> uchar"
  c_r :: uint
  c_w :: uint
  c_e :: uint

text \<open>The bytes \<^verbatim>\<open>consputc\<close> sends; \<open>None\<close> is \<^verbatim>\<open>BACKSPACE\<close>.\<close>

fun consputc :: "uchar option \<Rightarrow> uchar list" where
  "consputc None = [8, 32, 8]"
| "consputc (Some c) = [c]"

function kill_line :: "cons \<Rightarrow> uchar list \<times> cons" where
  "kill_line c =
     (if c_e c \<noteq> c_w c \<and> c_buf c (unat (c_e c - 1) mod INPUT_BUF_SIZE) \<noteq> 10 then
        case kill_line (c\<lparr>c_e := c_e c - 1\<rparr>) of (echo, c) \<Rightarrow> (consputc None @ echo, c)
      else ([], c))"
  by pat_completeness auto
termination
proof (relation "measure (\<lambda>c. unat (c_e c - c_w c))", simp)
  fix c :: cons
  assume "c_e c \<noteq> c_w c \<and> c_buf c (unat (c_e c - 1) mod INPUT_BUF_SIZE) \<noteq> 10"
  then have "unat (c_e c - c_w c) = Suc (unat (c_e c - c_w c - 1))" by (intro unat_minus_Suc) simp
  then show "(c\<lparr>c_e := c_e c - 1\<rparr>, c) \<in> measure (\<lambda>c. unat (c_e c - c_w c))" by (simp add: algebra_simps)
qed

declare kill_line.simps [simp del]

text \<open>The bytes echoed, whether sleeping readers are woken, and the console. The process list of control-P is left out.\<close>

definition consoleintr :: "uchar \<Rightarrow> cons \<Rightarrow> uchar list \<times> bool \<times> cons" where
  "consoleintr ch c =
     (if ch = 16 then ([], False, c)
      else if ch = 21 then (case kill_line c of (echo, c) \<Rightarrow> (echo, False, c))
      else if ch = 8 \<or> ch = 127 then
        if c_e c \<noteq> c_w c then (consputc None, False, c\<lparr>c_e := c_e c - 1\<rparr>) else ([], False, c)
      else if ch \<noteq> 0 \<and> unat (c_e c - c_r c) < INPUT_BUF_SIZE then
        let ch = (if ch = 13 then 10 else ch);
            c = c\<lparr>c_buf := (c_buf c)(unat (c_e c) mod INPUT_BUF_SIZE := ch), c_e := c_e c + 1\<rparr>
        in if ch = 10 \<or> ch = 4 \<or> unat (c_e c - c_r c) = INPUT_BUF_SIZE
           then (consputc (Some ch), True, c\<lparr>c_w := c_e c\<rparr>)
           else (consputc (Some ch), False, c)
      else ([], False, c))"

text \<open>\<open>n\<close> of the \<open>target\<close> bytes are still to be read.\<close>

function consoleread_loop :: "uint64 \<Rightarrow> uint64 \<Rightarrow> nat \<Rightarrow> nat \<Rightarrow> bool \<Rightarrow> phys \<Rightarrow> cons \<Rightarrow> (pipe_io \<times> cons \<times> phys) res" where
  "consoleread_loop pagetable dst target n dead m c =
     (if n = 0 then Inr (Returned (int (target - n)), c, m)
      else if c_r c = c_w c then Inr (if dead then Returned (-1) else Waiting n, c, m)
      else
        let ch = c_buf c (unat (c_r c) mod INPUT_BUF_SIZE);
            c1 = c\<lparr>c_r := c_r c + 1\<rparr>
        in if ch = 4 then Inr (Returned (int (target - n)), if n < target then c else c1, m)
           else bindE (copyout pagetable dst [ch] m) (\<lambda>(r, m).
             if r = -1 then Inr (Returned (int (target - n)), c1, m)
             else if ch = 10 then Inr (Returned (int (target - (n - 1))), c1, m)
             else consoleread_loop pagetable (dst + 1) target (n - 1) dead m c1))"
  by pat_completeness auto
termination
  by (relation "measure (\<lambda>(pagetable, dst, target, n, dead, m, c). n)") auto

declare consoleread_loop.simps [simp del]

definition consoleread_from :: "uint64 \<Rightarrow> uint64 \<Rightarrow> int \<Rightarrow> bool \<Rightarrow> phys \<Rightarrow> cons \<Rightarrow> (pipe_io \<times> cons \<times> phys) res" where
  "consoleread_from pagetable dst n dead m c = consoleread_loop pagetable dst (nat n) (nat n) dead m c"

section \<open>The UART\<close>

abbreviation UART_TX_BUF_SIZE :: nat where "UART_TX_BUF_SIZE \<equiv> 32"

record uart =
  tx_buf :: "nat \<Rightarrow> uchar"
  tx_w :: uint64
  tx_r :: uint64

text \<open>\<open>k\<close> is how many times the transmit holding register is found empty; the bytes written to it are the first result.\<close>

fun uartstart :: "nat \<Rightarrow> uart \<Rightarrow> uchar list \<times> uart" where
  "uartstart 0 u = ([], u)"
| "uartstart (Suc k) u =
     (if tx_w u = tx_r u then ([], u)
      else
        let c = tx_buf u (unat (tx_r u) mod UART_TX_BUF_SIZE)
        in case uartstart k (u\<lparr>tx_r := tx_r u + 1\<rparr>) of (sent, u) \<Rightarrow> (c # sent, u))"

text \<open>\<open>None\<close> when the buffer is full and the caller has to sleep.\<close>

definition uartputc :: "nat \<Rightarrow> uchar \<Rightarrow> uart \<Rightarrow> (uchar list \<times> uart) option" where
  "uartputc k c u =
     (if tx_w u = tx_r u + of_nat UART_TX_BUF_SIZE then None
      else Some (uartstart k (u\<lparr>tx_buf := (tx_buf u)(unat (tx_w u) mod UART_TX_BUF_SIZE := c), tx_w := tx_w u + 1\<rparr>)))"

text \<open>The received bytes that are waiting: \<^verbatim>\<open>-1\<close> when there is none.\<close>

definition uartgetc :: "uchar list \<Rightarrow> int \<times> uchar list" where
  "uartgetc rx = (case rx of [] \<Rightarrow> (-1, []) | c # rx \<Rightarrow> (uint c, rx))"

text \<open>The first \<open>i\<close> of the \<open>n\<close> bytes are written; \<open>room\<close> says how many bytes the transmitter takes after each byte.\<close>

function consolewrite_loop :: "(nat \<Rightarrow> nat) \<Rightarrow> uint64 \<Rightarrow> uint64 \<Rightarrow> nat \<Rightarrow> nat \<Rightarrow> phys \<Rightarrow> uart \<Rightarrow> (pipe_io \<times> uchar list \<times> uart) res" where
  "consolewrite_loop room pagetable src n i m u =
     (if i < n then
        bindE (copyin pagetable (src + of_nat i) 1 m) (\<lambda>(r, bs).
          if r = -1 then Inr (Returned (int i), [], u)
          else case uartputc (room i) (bs ! 0) u of
                 None \<Rightarrow> Inr (Waiting i, [], u)
               | Some (sent, u) \<Rightarrow>
                   bindE (consolewrite_loop room pagetable src n (Suc i) m u) (\<lambda>(io, sent2, u). Inr (io, sent @ sent2, u)))
      else Inr (Returned (int i), [], u))"
  by pat_completeness auto
termination
  by (relation "measure (\<lambda>(room, pagetable, src, n, i, m, u). n - i)") auto

declare consolewrite_loop.simps [simp del]

section \<open>Devices in the kernel\<close>

text \<open>The state of the kernel with the console and the UART; \<open>thr\<close> are the bytes written to the transmitter so far.\<close>

record dev_kernel = kernel +
  cons :: cons
  uart :: uart
  thr :: "uchar list"

definition cons_chan :: chan where "cons_chan = Chan 1"
definition uart_chan :: chan where "uart_chan = Chan 2"

definition consoleread :: "'a dev_kernel_scheme devfn" where
  "consoleread dst n s =
     bindE (consoleread_from (upagetable s) dst n (pkilled s) (umem s) (cons s)) (\<lambda>(io, c, m).
       case io of Waiting _ \<Rightarrow> Inl Sleeping | Returned r \<Rightarrow> Inr (r, s\<lparr>cons := c, umem := m\<rparr>))"

definition consolewrite :: "(nat \<Rightarrow> nat) \<Rightarrow> 'a dev_kernel_scheme devfn" where
  "consolewrite room src n s =
     bindE (consolewrite_loop room (upagetable s) src (nat n) 0 (umem s) (uart s)) (\<lambda>(io, sent, u).
       case io of Waiting _ \<Rightarrow> Inl Sleeping
       | Returned r \<Rightarrow> Inr (r, (if sent = [] then s else wakeup uart_chan s)\<lparr>uart := u, thr := thr s @ sent\<rparr>))"

text \<open>The device table of the console, \<^verbatim>\<open>devsw[CONSOLE]\<close>.\<close>

definition consoleinit :: "(nat \<Rightarrow> nat) \<Rightarrow> (nat \<Rightarrow> 'a dev_kernel_scheme devfn option) \<times> (nat \<Rightarrow> 'a dev_kernel_scheme devfn option)" where
  "consoleinit room = ([1 \<mapsto> consoleread], [1 \<mapsto> consolewrite room])"

text \<open>One received byte: the echo goes to the transmitter at once, by \<^verbatim>\<open>uartputc_sync\<close>.\<close>

definition receive :: "uchar \<Rightarrow> 'a dev_kernel_scheme \<Rightarrow> 'a dev_kernel_scheme" where
  "receive ch s =
     (case consoleintr ch (cons s) of (echo, woken, c) \<Rightarrow>
        let s = s\<lparr>cons := c, thr := thr s @ echo\<rparr> in if woken then wakeup cons_chan s else s)"

function receive_all :: "uchar list \<Rightarrow> 'a dev_kernel_scheme \<Rightarrow> 'a dev_kernel_scheme" where
  "receive_all rx s =
     (case uartgetc rx of (c, rx') \<Rightarrow> if c = -1 then s else receive_all rx' (receive (word_of_int c) s))"
  by pat_completeness auto
termination
  by (relation "measure (\<lambda>(rx, s). length rx)") (auto simp: uartgetc_def split: list.splits)

declare receive_all.simps [simp del]

definition uartintr :: "uchar list \<Rightarrow> nat \<Rightarrow> 'a dev_kernel_scheme \<Rightarrow> 'a dev_kernel_scheme" where
  "uartintr rx k s =
     (let s = receive_all rx s in
      case uartstart k (uart s) of (sent, u) \<Rightarrow>
        (if sent = [] then s else wakeup uart_chan s)\<lparr>uart := u, thr := thr s @ sent\<rparr>)"

section \<open>The line editor\<close>

interpretation cring: ring INPUT_BUF_SIZE "TYPE(32)"
  by unfold_locales simp_all

interpretation uring: ring UART_TX_BUF_SIZE "TYPE(64)"
  by unfold_locales simp_all

text \<open>The bytes that can be read, and the line that is still being edited.\<close>

definition committed :: "cons \<Rightarrow> uchar list" where
  "committed c = window INPUT_BUF_SIZE (c_buf c) (c_r c) (c_w c)"

definition editing :: "cons \<Rightarrow> uchar list" where
  "editing c = window INPUT_BUF_SIZE (c_buf c) (c_w c) (c_e c)"

definition cons_inv :: "cons \<Rightarrow> bool" where
  "cons_inv c \<longleftrightarrow> unat (c_w c - c_r c) \<le> unat (c_e c - c_r c) \<and> unat (c_e c - c_r c) \<le> INPUT_BUF_SIZE \<and> 10 \<notin> set (editing c)"

lemma cons_invD:
  assumes "cons_inv c"
  shows "unat (c_e c - c_r c) = length (committed c) + length (editing c)" and "unat (c_w c - c_r c) \<le> unat (c_e c - c_r c)"
    and "unat (c_e c - c_r c) \<le> INPUT_BUF_SIZE" and "10 \<notin> set (editing c)"
  using assms cring.split_at(1)[of "c_w c" "c_r c" "c_e c"] by (simp_all add: cons_inv_def committed_def editing_def)

lemma cons_invI:
  assumes "unat (c_w c - c_r c) + unat (c_e c - c_w c) \<le> INPUT_BUF_SIZE" and "10 \<notin> set (editing c)"
  shows "cons_inv c"
proof -
  have "unat ((c_w c - c_r c) + (c_e c - c_w c)) = unat (c_w c - c_r c) + unat (c_e c - c_w c)"
    using assms(1) by (subst unat_plus_if') simp
  then have "unat (c_e c - c_r c) = unat (c_w c - c_r c) + unat (c_e c - c_w c)" by (simp add: algebra_simps)
  then show ?thesis using assms by (simp add: cons_inv_def)
qed

text \<open>What a key does to the two lists.\<close>

fun edit :: "uchar \<Rightarrow> uchar list \<times> uchar list \<Rightarrow> uchar list \<times> uchar list" where
  "edit ch (com, ed) =
     (if ch = 21 then (com, [])
      else if ch = 8 \<or> ch = 127 then (com, butlast ed)
      else if ch = 16 \<or> ch = 0 \<or> INPUT_BUF_SIZE \<le> length com + length ed then (com, ed)
      else
        let ch = (if ch = 13 then 10 else ch)
        in if ch = 10 \<or> ch = 4 \<or> Suc (length com + length ed) = INPUT_BUF_SIZE then (com @ ed @ [ch], []) else (com, ed @ [ch]))"

lemma erase_one:
  assumes "cons_inv c" and "c_e c \<noteq> c_w c"
  shows "editing c = editing (c\<lparr>c_e := c_e c - 1\<rparr>) @ [c_buf c (unat (c_e c - 1) mod INPUT_BUF_SIZE)]"
    and "committed (c\<lparr>c_e := c_e c - 1\<rparr>) = committed c" and "cons_inv (c\<lparr>c_e := c_e c - 1\<rparr>)"
proof -
  note U = cring.unput[OF assms(2)[symmetric]]
  show e: "editing c = editing (c\<lparr>c_e := c_e c - 1\<rparr>) @ [c_buf c (unat (c_e c - 1) mod INPUT_BUF_SIZE)]"
    using U(2) by (simp add: editing_def)
  show "committed (c\<lparr>c_e := c_e c - 1\<rparr>) = committed c" by (simp add: committed_def)
  have "unat (c_w c - c_r c) + unat (c_e c - c_w c) \<le> INPUT_BUF_SIZE"
    using cons_invD(1,3)[OF assms(1)] by (simp add: committed_def editing_def)
  then show "cons_inv (c\<lparr>c_e := c_e c - 1\<rparr>)"
    using U(1) cons_invD(4)[OF assms(1)] e by (intro cons_invI) auto
qed

lemma kill_line_spec: "cons_inv c \<Longrightarrow> committed (snd (kill_line c)) = committed c \<and> editing (snd (kill_line c)) = [] \<and> cons_inv (snd (kill_line c))"
proof (induction c rule: kill_line.induct)
  case (1 c)
  show ?case
  proof (cases "c_e c = c_w c")
    case True
    then show ?thesis using 1(2) by (simp add: kill_line.simps[of c] editing_def window_empty)
  next
    case False
    note E = erase_one[OF 1(2) False]
    have nl: "c_buf c (unat (c_e c - 1) mod INPUT_BUF_SIZE) \<noteq> 10" using cons_invD(4)[OF 1(2)] E(1) by (metis in_set_conv_decomp)
    then show ?thesis using 1(1)[OF _ E(3)] False E(2) by (auto simp: kill_line.simps[of c] split: prod.splits)
  qed
qed

text \<open>A byte is stored at the edit position.\<close>

lemma store_byte:
  assumes i: "cons_inv c" and room: "unat (c_e c - c_r c) < INPUT_BUF_SIZE"
    and c': "c' = c\<lparr>c_buf := (c_buf c)(unat (c_e c) mod INPUT_BUF_SIZE := ch), c_e := c_e c + 1\<rparr>"
  shows "committed c' = committed c" and "editing c' = editing c @ [ch]" and "unat (c_e c' - c_r c') = Suc (unat (c_e c - c_r c))"
    and "committed (c'\<lparr>c_w := c_e c'\<rparr>) = committed c @ editing c @ [ch]" and "editing (c'\<lparr>c_w := c_e c'\<rparr>) = []"
proof -
  let ?b = "(c_buf c)(unat (c_e c) mod INPUT_BUF_SIZE := ch)"
  have el: "unat (c_e c - c_w c) < INPUT_BUF_SIZE" using cons_invD(1)[OF i] room by (simp add: editing_def)
  show l: "unat (c_e c' - c_r c') = Suc (unat (c_e c - c_r c))" using cring.put(1)[OF room] c' by simp
  show ed: "editing c' = editing c @ [ch]" using cring.put(2)[OF el] c' by (simp add: editing_def)
  have all: "window INPUT_BUF_SIZE ?b (c_r c) (c_e c + 1) = (committed c @ editing c) @ [ch]"
    using cring.put(2)[OF room, of "c_buf c" ch] cring.split_at(2)[OF cons_invD(2)[OF i], of "c_buf c"] by (simp add: committed_def editing_def)
  then show "committed (c'\<lparr>c_w := c_e c'\<rparr>) = committed c @ editing c @ [ch]" using c' by (simp add: committed_def)
  show "editing (c'\<lparr>c_w := c_e c'\<rparr>) = []" by (simp add: editing_def window_empty)
  have "unat (c_w c - c_r c) \<le> unat (c_e c + 1 - c_r c)" using cons_invD(2)[OF i] l c' by simp
  then have "window INPUT_BUF_SIZE ?b (c_r c) (c_e c + 1) = committed c' @ editing c'"
    using cring.split_at(2)[of "c_w c" "c_r c" "c_e c + 1" ?b] c' by (simp add: committed_def editing_def)
  then show "committed c' = committed c" using all ed by simp
qed

section \<open>Reading\<close>

text \<open>
  What a read of at most \<open>n\<close> bytes delivers: the bytes, what stays, and whether it is complete. A control-D ends it; one that is not
  at the start of the read stays for the next.
\<close>

fun deliver :: "nat \<Rightarrow> bool \<Rightarrow> uchar list \<Rightarrow> uchar list \<times> uchar list \<times> bool" where
  "deliver 0 started com = ([], com, True)"
| "deliver (Suc n) started [] = ([], [], False)"
| "deliver (Suc n) started (ch # com) =
     (if ch = 4 then ([], if started then ch # com else com, True)
      else if ch = 10 then ([ch], com, True)
      else case deliver n True com of (bs, rest, finished) \<Rightarrow> (ch # bs, rest, finished))"

lemma take_one:
  assumes "cons_inv c" and "c_r c \<noteq> c_w c"
  shows "committed c = c_buf c (unat (c_r c) mod INPUT_BUF_SIZE) # committed (c\<lparr>c_r := c_r c + 1\<rparr>)"
    and "editing (c\<lparr>c_r := c_r c + 1\<rparr>) = editing c" and "cons_inv (c\<lparr>c_r := c_r c + 1\<rparr>)"
proof -
  note G = cring.get[OF assms(2)]
  show "committed c = c_buf c (unat (c_r c) mod INPUT_BUF_SIZE) # committed (c\<lparr>c_r := c_r c + 1\<rparr>)"
    using G(2) by (simp add: committed_def)
  show e: "editing (c\<lparr>c_r := c_r c + 1\<rparr>) = editing c" by (simp add: editing_def)
  have "unat (c_w c - c_r c) + unat (c_e c - c_w c) \<le> INPUT_BUF_SIZE"
    using cons_invD(1,3)[OF assms(1)] by (simp add: committed_def editing_def)
  then show "cons_inv (c\<lparr>c_r := c_r c + 1\<rparr>)" using G(1) cons_invD(4)[OF assms(1)] e by (intro cons_invI) auto
qed

lemma consoleread_loop_spec:
  "aspace m r ps U \<Longrightarrow> owns_writable m r U \<Longrightarrow> unat dst + n \<le> 2 ^ 38 \<Longrightarrow> \<forall>j < n. writable m r (dst + of_nat j) \<Longrightarrow>
   cons_inv c \<Longrightarrow> n \<le> target \<Longrightarrow> deliver n (n < target) (committed c) = (bs, rest, finished) \<Longrightarrow>
    \<exists>c' m'. consoleread_loop r dst target n dead m c =
        Inr (if finished then Returned (int (target - n + length bs)) else if dead then Returned (-1) else Waiting (n - length bs), c', m') \<and>
      committed c' = rest \<and> editing c' = editing c \<and> cons_inv c' \<and> aspace m' r ps U \<and> stored r U dst bs m m'"
proof (induction n arbitrary: dst m c bs)
  case 0
  then show ?case by (simp add: consoleread_loop.simps[of r] stored_Nil)
next
  case (Suc n)
  note A = Suc.prems
  show ?case
  proof (cases "c_r c = c_w c")
    case True
    then have "committed c = []" by (simp add: committed_def window_empty)
    then show ?thesis using A True by (auto simp: consoleread_loop.simps[of r] stored_Nil)
  next
    case False
    let ?ch = "c_buf c (unat (c_r c) mod INPUT_BUF_SIZE)" and ?c = "c\<lparr>c_r := c_r c + 1\<rparr>"
    note T = take_one[OF A(5) False]
    have L: "consoleread_loop r dst target (Suc n) dead m c =
        (if ?ch = 4 then Inr (Returned (int (target - Suc n)), if Suc n < target then c else ?c, m)
         else bindE (copyout r dst [?ch] m) (\<lambda>(x, m).
           if x = -1 then Inr (Returned (int (target - Suc n)), ?c, m)
           else if ?ch = 10 then Inr (Returned (int (target - n)), ?c, m)
           else consoleread_loop r (dst + 1) target n dead m ?c))"
      using False by (subst consoleread_loop.simps) (simp add: Let_def cong: if_cong)
    show ?thesis
    proof (cases "?ch = 4")
      case True
      then show ?thesis using A T L by (auto simp: T(1) stored_Nil)
    next
      case ne: False
      have w: "\<forall>j < length [?ch]. writable m r (dst + of_nat j)" using A(4) spec[of _ 0] by auto
      obtain m1 where m1: "copyout r dst [?ch] m = Inr (0, m1)" "aspace m1 r ps U" "\<forall>va. leaf (pmem m1) r va = leaf (pmem m) r va"
        "stored r U dst [?ch] m m1"
        using copyout_spec[OF A(1,2), of dst "[?ch]"] w A(3) by auto
      show ?thesis
      proof (cases "?ch = 10")
        case True
        then have "bs = [?ch]" "rest = committed ?c" "finished" using A(7) by (simp_all add: T(1))
        then show ?thesis using True L m1 T A(6) by (auto simp: Suc_diff_le)
      next
        case False
        then obtain bs' where bs': "deliver n True (committed ?c) = (bs', rest, finished)" "bs = ?ch # bs'"
          using A(7) ne by (auto simp: T(1) split: prod.splits)
        have u: "unat (dst + 1) = unat dst + 1" using A(3) unat_add_nat[of dst 1] by simp
        have st: "owns_writable m1 r U" "unat (dst + 1) + n \<le> 2 ^ 38" "n \<le> target" "n < target" using A(2,3,6) u by (simp_all add: owns_leaf[OF m1(3)])
        have w1: "\<forall>j < n. writable m1 r (dst + 1 + of_nat j)"
        proof (intro allI impI)
          fix j assume "j < n"
          then have "writable m r (dst + of_nat (Suc j))" using A(4) by blast
          then show "writable m1 r (dst + 1 + of_nat j)" by (simp add: writable_leaf[OF m1(3)] add.assoc)
        qed
        have "deliver n (n < target) (committed ?c) = (bs', rest, finished)" using bs'(1) st(4) by simp
        note IH = Suc.IH[OF m1(2) st(1,2) w1 T(3) st(3) this]
        then obtain c' m' where c': "consoleread_loop r (dst + 1) target n dead m1 ?c =
            Inr (if finished then Returned (int (target - n + length bs')) else if dead then Returned (-1) else Waiting (n - length bs'), c', m')"
          "committed c' = rest" "editing c' = editing ?c" "cons_inv c'" "aspace m' r ps U" "stored r U (dst + 1) bs' m1 m'"
          by (elim exE conjE) (rule that)
        have "stored r U dst bs m m'" unfolding bs'(2)
          using stored_append[of r U dst 1 "?ch # bs'" m m1 "dst + 1" m'] m1(4) c'(6) u by simp
        then show ?thesis using L ne False m1(1) c' bs'(2) T(2) st(4) by (simp add: Suc_diff_Suc)
      qed
    qed
  qed
qed

section \<open>The transmit ring\<close>

definition unsent :: "uart \<Rightarrow> uchar list" where
  "unsent u = window UART_TX_BUF_SIZE (tx_buf u) (tx_r u) (tx_w u)"

lemma uartstart_spec:
  "uartstart k u = (sent, u') \<Longrightarrow> unat (tx_w u - tx_r u) \<le> UART_TX_BUF_SIZE \<Longrightarrow>
    unsent u = sent @ unsent u' \<and> length sent = min k (length (unsent u)) \<and> unat (tx_w u' - tx_r u') \<le> UART_TX_BUF_SIZE"
proof (induction k arbitrary: u sent)
  case 0
  then show ?case by simp
next
  case (Suc k)
  show ?case
  proof (cases "tx_w u = tx_r u")
    case True
    then show ?thesis using Suc.prems by (simp add: unsent_def)
  next
    case False
    note G = uring.get[OF False[symmetric]]
    let ?u = "u\<lparr>tx_r := tx_r u + 1\<rparr>"
    obtain sent2 where m: "uartstart k ?u = (sent2, u')" "sent = tx_buf u (unat (tx_r u) mod UART_TX_BUF_SIZE) # sent2"
      using Suc.prems(1) False by (auto simp: Let_def split: prod.splits)
    have "unat (tx_w ?u - tx_r ?u) \<le> UART_TX_BUF_SIZE" using Suc.prems(2) G(1) by simp
    note IH = Suc.IH[OF m(1) this]
    have e: "unsent u = tx_buf u (unat (tx_r u) mod UART_TX_BUF_SIZE) # unsent ?u" using G(2) by (simp add: unsent_def)
    have "length sent = min (Suc k) (length (unsent u))" unfolding e m(2) using IH by (simp only: list.size min_Suc_Suc add_Suc_right add_0_right)
    then show ?thesis using IH unfolding e m(2) by (simp only: append_Cons)
  qed
qed

text \<open>
  The life of the UART: \<open>given\<close> are the bytes \<^verbatim>\<open>uartputc\<close> accepted, \<open>sent\<close> the bytes written to the transmitter. Between calls the
  transmitter takes any number of bytes.
\<close>

inductive uart_run :: "uchar list \<Rightarrow> uchar list \<Rightarrow> uart \<Rightarrow> bool" where
  init: "tx_r u = tx_w u \<Longrightarrow> uart_run [] [] u"
| put: "uart_run given sent u \<Longrightarrow> uartputc k c u = Some (sent2, u') \<Longrightarrow> uart_run (given @ [c]) (sent @ sent2) u'"
| interrupt: "uart_run given sent u \<Longrightarrow> uartstart k u = (sent2, u') \<Longrightarrow> uart_run given (sent @ sent2) u'"

section \<open>Properties\<close>

text \<open>
  C15. The console is a line editor: every key acts on the committed lines and on the line being edited as the manual describes it (erase,
  kill, end of line, end of file, full buffer), and readers are woken exactly when a line is committed.
\<close>

theorem console_editor:
  assumes "cons_inv c" and "consoleintr ch c = (echo, woken, c')"
  shows "(committed c', editing c') = edit ch (committed c, editing c) \<and> cons_inv c' \<and> (woken \<longleftrightarrow> committed c' \<noteq> committed c)"
proof -
  let ?ch = "if ch = 13 then 10 else ch"
  note D = cons_invD[OF assms(1)]
  consider "ch = 16" | "ch = 21" | "ch = 8 \<or> ch = 127" "c_e c = c_w c" | "ch = 8 \<or> ch = 127" "c_e c \<noteq> c_w c"
    | "ch \<notin> {16, 21, 8, 127}" "ch = 0 \<or> INPUT_BUF_SIZE \<le> unat (c_e c - c_r c)"
    | "ch \<notin> {16, 21, 8, 127, 0}" "unat (c_e c - c_r c) < INPUT_BUF_SIZE"
    using le_less_linear[of INPUT_BUF_SIZE "unat (c_e c - c_r c)"] by blast
  then show ?thesis
  proof cases
    case 1
    then show ?thesis using assms by (simp add: consoleintr_def)
  next
    case 2
    then have "c' = snd (kill_line c)" "\<not> woken" using assms(2) by (auto simp: consoleintr_def split: prod.splits)
    then show ?thesis using kill_line_spec[OF assms(1)] 2 by simp
  next
    case 3
    then have "c' = c" "\<not> woken" "editing c = []" using assms(2) by (auto simp: consoleintr_def editing_def window_empty)
    then show ?thesis using 3(1) assms(1) by auto
  next
    case 4
    then have "c' = c\<lparr>c_e := c_e c - 1\<rparr>" "\<not> woken" using assms(2) by (auto simp: consoleintr_def)
    then show ?thesis using erase_one[OF assms(1) 4(2)] 4(1) by auto
  next
    case 5
    then have "c' = c" "\<not> woken" using assms(2) by (auto simp: consoleintr_def)
    then show ?thesis using 5 assms(1) D(1) by auto
  next
    case 6
    define x where "x = c\<lparr>c_buf := (c_buf c)(unat (c_e c) mod INPUT_BUF_SIZE := ?ch), c_e := c_e c + 1\<rparr>"
    note S = store_byte[OF assms(1) 6(2) x_def]
    have c': "(woken, c') = (if ?ch = 10 \<or> ?ch = 4 \<or> unat (c_e x - c_r x) = INPUT_BUF_SIZE then (True, x\<lparr>c_w := c_e x\<rparr>) else (False, x))"
      using assms(2) 6 unfolding consoleintr_def x_def by (auto simp: Let_def split: if_splits)
    have len: "length (committed c) + length (editing c) < INPUT_BUF_SIZE" using D(1) 6(2) by simp
    show ?thesis
    proof (cases "?ch = 10 \<or> ?ch = 4 \<or> unat (c_e x - c_r x) = INPUT_BUF_SIZE")
      case True
      then have "woken" "c' = x\<lparr>c_w := c_e x\<rparr>" using c' by auto
      moreover have "cons_inv (x\<lparr>c_w := c_e x\<rparr>)" using S(3,5) 6(2) by (intro cons_invI) simp_all
      ultimately show ?thesis using True S 6(1) len D(1) by (auto simp: Let_def)
    next
      case False
      then have "\<not> woken" "c' = x" using c' by auto
      moreover have "cons_inv x"
      proof (rule cons_invI)
        have "unat (c_w x - c_r x) = length (committed x)" "unat (c_e x - c_w x) = length (editing x)"
          by (simp_all add: committed_def editing_def)
        then show "unat (c_w x - c_r x) + unat (c_e x - c_w x) \<le> INPUT_BUF_SIZE" using S(1,2) len by simp
        show "10 \<notin> set (editing x)" using S(2) D(4) False by auto
      qed
      ultimately show ?thesis using False S 6(1) len D(1) by (auto simp: Let_def)
    qed
  qed
qed

lemma empty_cons_inv: "cons_inv \<lparr>c_buf = (\<lambda>_. 0), c_r = -1, c_w = -1, c_e = -1\<rparr>"
  by (rule cons_invI) (simp_all add: editing_def window_empty[THEN iffD2])

theorem console_editor_witness:
  "\<exists>c echo woken c'. cons_inv c \<and> c_e c = -1 \<and> consoleintr 97 c = (echo, woken, c') \<and> (committed c', editing c') = ([], [97]) \<and> cons_inv c'"
proof -
  let ?c = "\<lparr>c_buf = (\<lambda>_. 0), c_r = -1, c_w = -1, c_e = -1\<rparr> :: cons"
  have e: "committed ?c = []" "editing ?c = []" by (simp_all add: committed_def editing_def window_empty[THEN iffD2])
  obtain echo woken c' where "consoleintr 97 ?c = (echo, woken, c')" by (cases "consoleintr 97 ?c") auto
  then show ?thesis using console_editor[OF empty_cons_inv, of 97 echo woken c'] e empty_cons_inv
    by (intro exI[of _ ?c] exI[of _ echo] exI[of _ woken] exI[of _ c']) simp
qed

text \<open>
  C36. \<^verbatim>\<open>consoleread\<close> into writable memory delivers the committed input up to and including the end of the line, or up to a control-D, or as
  much as was asked for; it waits when the input ends before that. What it does not deliver stays, and the line being edited
  is not touched.
\<close>

theorem consoleread_correct:
  assumes "aspace m r ps U" and "owns_writable m r U" and "unat dst + nat n \<le> 2 ^ 38" and "\<forall>j < nat n. writable m r (dst + of_nat j)"
    and "cons_inv c" and "deliver (nat n) False (committed c) = (bs, rest, finished)"
  shows "\<exists>c' m'. consoleread_from r dst n dead m c =
      Inr (if finished then Returned (int (length bs)) else if dead then Returned (-1) else Waiting (nat n - length bs), c', m') \<and>
    committed c' = rest \<and> editing c' = editing c \<and> cons_inv c' \<and> stored r U dst bs m m'"
  using consoleread_loop_spec[OF assms(1-5), of "nat n" bs rest finished dead] assms(6) by (auto simp: consoleread_from_def)

theorem consoleread_correct_witness:
  "\<exists>r m c c' m'. committed c = [104, 105, 10, 120] \<and> consoleread_from r 0 8 False m c = Inr (Returned 3, c', m') \<and> committed c' = [120]"
proof -
  let ?c = "\<lparr>c_buf = (\<lambda>k. if k = 0 then 104 else if k = 1 then 105 else if k = 2 then 10 else 120), c_r = 0, c_w = 4, c_e = 4\<rparr> :: cons"
  have c: "committed ?c = [104, 105, 10, 120]" by (simp add: committed_def window_def upt_rec)
  have i: "cons_inv ?c" by (rule cons_invI) (simp_all add: editing_def window_empty[THEN iffD2])
  obtain s r ps where s: "aspace s r ps (upages 0 4096)" "owns_writable s r (upages 0 4096)" "\<forall>i < 4096. writable s r (of_nat i)"
    using example_space by blast
  have w: "\<forall>j < nat 8. writable s r (0 + of_nat j)" and b: "unat (0 :: uint64) + nat 8 \<le> 2 ^ 38" using s(3) by simp_all
  have d: "deliver (nat 8) False (committed ?c) = ([104, 105, 10], [120], True)" 
  proof -
    have e: "nat 8 = Suc (Suc (Suc 5))" by simp
    show ?thesis unfolding c e deliver.simps by simp
  qed
  show ?thesis using consoleread_correct[OF s(1,2) b w i d, of False] c by fastforce
qed

text \<open>
  C37. Whatever the transmitter and the writers do in between, the bytes that reach the transmitter are the bytes given to
  \<^verbatim>\<open>uartputc\<close>, in order, followed by the at most 32 that are still in the ring.
\<close>

theorem uart_fifo:
  assumes "uart_run given sent u"
  shows "given = sent @ unsent u \<and> length (unsent u) \<le> UART_TX_BUF_SIZE"
  using assms
proof induction
  case (init u)
  then show ?case by (simp add: unsent_def window_empty[THEN iffD2])
next
  case (put given sent u k c sent2 u')
  let ?u = "u\<lparr>tx_buf := (tx_buf u)(unat (tx_w u) mod UART_TX_BUF_SIZE := c), tx_w := tx_w u + 1\<rparr>"
  have s: "tx_w u \<noteq> tx_r u + of_nat UART_TX_BUF_SIZE" "uartstart k ?u = (sent2, u')" using put by (auto simp: uartputc_def split: if_splits)
  have "unat (tx_w u - tx_r u) < UART_TX_BUF_SIZE" using put.IH s(1) uring.full[of "tx_w u" "tx_r u"] by (simp add: unsent_def)
  note P = uring.put(1)[OF this] uring.put(2)[OF this, of "tx_buf u" c]
  have e: "unsent ?u = unsent u @ [c]" using P(2) by (simp add: unsent_def)
  have "unat (tx_w ?u - tx_r ?u) \<le> UART_TX_BUF_SIZE" using P(1) \<open>unat (tx_w u - tx_r u) < UART_TX_BUF_SIZE\<close> by simp
  note S = uartstart_spec[OF s(2) this]
  then have "unsent u @ [c] = sent2 @ unsent u'" using e by argo
  then have "given @ [c] = (sent @ sent2) @ unsent u'" using put.IH by (metis append_assoc)
  moreover have "length (unsent u') \<le> UART_TX_BUF_SIZE" using S by (simp only: unsent_def length_window)
  ultimately show ?case by blast
next
  case (interrupt given sent u k sent2 u')
  then show ?case using uartstart_spec[OF interrupt.hyps(2)] by (simp add: unsent_def)
qed

theorem uart_fifo_witness:
  "\<exists>u. uart_run [104, 105] [104] u \<and> unsent u = [105]"
proof -
  let ?e = "\<lparr>tx_buf = (\<lambda>_. 0), tx_w = -1, tx_r = -1\<rparr> :: uart"
  obtain u1 where a: "uartputc 1 104 ?e = Some ([104], u1)" "tx_r u1 = 0" "tx_w u1 = 0" by (simp add: uartputc_def)
  have "uart_run ([] @ [104]) ([] @ [104]) u1" by (rule uart_run.put[OF uart_run.init a(1)]) simp
  moreover obtain u2 where b: "uartputc 0 105 u1 = Some ([], u2)" using a(2,3) by (simp add: uartputc_def)
  ultimately have "uart_run (([] @ [104]) @ [105]) (([] @ [104]) @ []) u2" by (rule uart_run.put)
  then have r: "uart_run [104, 105] [104] u2" by simp
  then show ?thesis using uart_fifo[OF r] by (intro exI[of _ u2]) simp
qed

end
