(* ===== verification/Virtio.thy ===== *)
theory Virtio
  imports Ring Kalloc "HOL-Library.Multiset"
begin

text \<open>
  \<^verbatim>\<open>kernel/virtio_disk.c\<close>: the driver of the virtio disk. A buffer is known by its number, a descriptor by its index. The address
  of a descriptor says which of the driver's objects it points to. \<^verbatim>\<open>virtio_disk_rw\<close> is in two parts, before and
  after it sleeps for the completion of the request.
\<close>

section \<open>State\<close>

abbreviation NUM :: nat where "NUM \<equiv> 8"
abbreviation F_NEXT :: ushort where "F_NEXT \<equiv> 1"
abbreviation F_WRITE :: ushort where "F_WRITE \<equiv> 2"

datatype dma = Nowhere | Op nat | Data nat | Status nat

record virtq_desc =
  d_addr :: dma
  d_len :: uint
  d_flags :: ushort
  d_next :: nat

record virtio_blk_req =
  b_type :: uint
  b_sector :: uint64

record vdisk =
  desc :: "nat \<Rightarrow> virtq_desc"
  avail_ring :: "nat \<Rightarrow> nat"
  avail_idx :: ushort
  used_ring :: "nat \<Rightarrow> nat"
  used_dev :: ushort
  desc_free :: "nat \<Rightarrow> bool"
  used_idx :: ushort
  info_b :: "nat \<Rightarrow> nat option"
  info_status :: "nat \<Rightarrow> uchar"
  ops :: "nat \<Rightarrow> virtio_blk_req"
  b_disk :: "nat \<Rightarrow> bool"

section \<open>Descriptors\<close>










section \<open>Requests\<close>






section \<open>Start-up\<close>

text \<open>
  \<^verbatim>\<open>virtio_disk_init\<close> as the sequence of register writes, given the values read: identification, features, the status after negotiation and the
  state of queue 0, and the three pages of the queue.
\<close>

record vregs =
  r_magic :: uint
  r_version :: uint
  r_device :: uint
  r_vendor :: uint
  r_features :: uint
  r_status :: uint
  r_ready :: uint
  r_max :: uint

definition features_kept :: "uint64 \<Rightarrow> uint64" where
  "features_kept f = fold (\<lambda>k f. f AND NOT (push_bit k 1)) [5, 7, 11, 12, 27, 29, 28] f"

definition low32 :: "uint64 \<Rightarrow> uint" where "low32 a = ucast a"
definition high32 :: "uint64 \<Rightarrow> uint" where "high32 a = ucast (drop_bit 32 a)"

definition virtio_disk_init :: "vregs \<Rightarrow> phys \<Rightarrow> 'a vdisk_scheme \<Rightarrow> ((nat \<times> uint) list \<times> phys \<times> 'a vdisk_scheme) res" where
  "virtio_disk_init r m s =
     (if r_magic r \<noteq> 0x74726976 \<or> r_version r \<noteq> 2 \<or> r_device r \<noteq> 2 \<or> r_vendor r \<noteq> 0x554d4551
      then Inl (Panic ''could not find virtio disk'')
      else if r_status r AND 8 = 0 then Inl (Panic ''virtio disk FEATURES_OK unset'')
      else if r_ready r \<noteq> 0 then Inl (Panic ''virtio disk should not be ready'')
      else if r_max r = 0 then Inl (Panic ''virtio disk has no queue 0'')
      else if unat (r_max r) < NUM then Inl (Panic ''virtio disk max queue too short'')
      else case kalloc m of (d, m) \<Rightarrow> case kalloc m of (a, m) \<Rightarrow> case kalloc m of (u, m) \<Rightarrow>
        if d = 0 \<or> a = 0 \<or> u = 0 then Inl (Panic ''virtio disk kalloc'')
        else
          let m = fold (\<lambda>p m. m\<lparr>pmem := memset (pmem m) p 0 4096\<rparr>) [d, a, u] m;
              st = r_status r
          in Inr ([(0x070, 0), (0x070, 1), (0x070, 1 OR 2), (0x020, low32 (features_kept (ucast (r_features r)))), (0x070, (1 OR 2) OR 8),
                   (0x030, 0), (0x038, of_nat NUM), (0x080, low32 d), (0x084, high32 d), (0x090, low32 a), (0x094, high32 a),
                   (0x0a0, low32 u), (0x0a4, high32 u), (0x044, 1), (0x070, st OR 4)],
                  m, s\<lparr>desc_free := (\<lambda>i. i < NUM \<or> desc_free s i)\<rparr>))"

section \<open>The driver and the device\<close>

text \<open>
  The device takes the chains of the available ring in order, works on them, and completes them in any order: it clears the status and
  adds the head of the chain to the used ring. A request is queued, at the device, completed, or seen by the
  interrupt handler, until the process that waits for it frees its descriptors.
\<close>

datatype stage = Queued | At_Device | Completed | Seen

record request =
  q_buf :: nat
  q_block :: uint
  q_write :: bool
  q_ids :: "nat list"
  q_stage :: stage

definition head :: "request \<Rightarrow> nat" where
  "head r = q_ids r ! 0"






section \<open>The invariant\<close>


text \<open>The descriptors of a request, as the device reads them.\<close>

definition described :: "'a vdisk_scheme \<Rightarrow> request \<Rightarrow> bool" where
  "described s r \<longleftrightarrow> (\<exists>i0 i1 i2. q_ids r = [i0, i1, i2] \<and>
     desc s i0 = \<lparr>d_addr = Op i0, d_len = 16, d_flags = F_NEXT, d_next = i1\<rparr> \<and>
     desc s i1 = \<lparr>d_addr = Data (q_buf r), d_len = 1024, d_flags = (if q_write r then 0 else F_WRITE) OR F_NEXT, d_next = i2\<rparr> \<and>
     desc s i2 = \<lparr>d_addr = Status i0, d_len = 1, d_flags = F_WRITE, d_next = 0\<rparr> \<and>
     ops s i0 = \<lparr>b_type = (if q_write r then 1 else 0), b_sector = ucast (q_block r * 2)\<rparr> \<and> info_b s i0 = Some (q_buf r))"









lemma described_stage [simp]: "described s (r\<lparr>q_stage := st\<rparr>) = described s r" "head (r\<lparr>q_stage := st\<rparr>) = head r"
  by (simp_all add: described_def head_def)





section \<open>Each operation\<close>







section \<open>Preservation\<close>

















section \<open>Properties\<close>




end
