(* ===== verification/Ulib.thy ===== *)
theory Ulib
  imports Strings
begin

text \<open>
  \<^verbatim>\<open>user/ulib.c\<close>, the C library of the user programs. The routines on memory are as in \<open>Strings\<close>. A string
  argument is the list of its bytes before the NUL. The system call \<^verbatim>\<open>read\<close> of \<^verbatim>\<open>gets\<close>
  reads from the list of the bytes that are still to come.
\<close>

section \<open>Definitions\<close>

text \<open>The byte a string pointer points to: NUL at the end.\<close>

fun at :: "uchar list \<Rightarrow> uchar" where
  "at [] = 0"
| "at (c # _) = c"

definition strcpy_user :: "mem \<Rightarrow> uint64 \<Rightarrow> uchar list \<Rightarrow> mem" where
  "strcpy_user m s t = fold (\<lambda>i m. m(s + of_nat i := (t @ [0]) ! i)) [0..<length t + 1] m"

fun strcmp_user :: "uchar list \<Rightarrow> uchar list \<Rightarrow> int" where
  "strcmp_user (p # ps) (q # qs) = (if p = q then strcmp_user ps qs else uint p - uint q)"
| "strcmp_user ps qs = uint (at ps) - uint (at qs)"

definition memset_user :: "mem \<Rightarrow> uint64 \<Rightarrow> uint \<Rightarrow> uint \<Rightarrow> mem" where
  "memset_user m dst c n = memset_upto m dst (ucast c) (unat n)"

text \<open>The index of the first occurrence of a byte.\<close>

fun strchr :: "uchar list \<Rightarrow> uchar \<Rightarrow> nat option" where
  "strchr [] c = None"
| "strchr (s # ss) c = (if s = c then Some 0 else map_option Suc (strchr ss c))"

text \<open>The bytes stored in the buffer before the final NUL, and the input left.\<close>

fun gets_loop :: "nat \<Rightarrow> uchar list \<Rightarrow> uchar list \<times> uchar list" where
  "gets_loop 0 inp = ([], inp)"
| "gets_loop (Suc room) [] = ([], [])"
| "gets_loop (Suc room) (c # inp) =
     (if c = 10 \<or> c = 13 then ([c], inp)
      else case gets_loop room inp of (line, rest) \<Rightarrow> (c # line, rest))"

definition gets :: "int \<Rightarrow> uchar list \<Rightarrow> uchar list \<times> uchar list" where
  "gets m inp = gets_loop (nat (m - 1)) inp"

fun atoi_loop :: "uint \<Rightarrow> uchar list \<Rightarrow> uint" where
  "atoi_loop n [] = n"
| "atoi_loop n (s # ss) = (if 48 \<le> s \<and> s \<le> 57 then atoi_loop (n * 10 + ucast s - 48) ss else n)"

definition atoi :: "uchar list \<Rightarrow> uint" where
  "atoi s = atoi_loop 0 s"

definition memmove_user :: "mem \<Rightarrow> uint64 \<Rightarrow> uint64 \<Rightarrow> int \<Rightarrow> mem" where
  "memmove_user m dst src n =
     (if src > dst then copy_up m dst src (nat n)
      else copy_down m (dst + word_of_int n) (src + word_of_int n) (nat n))"

fun memcmp_user :: "uchar list \<Rightarrow> uchar list \<Rightarrow> int" where
  "memcmp_user (p # ps) (q # qs) = (if p \<noteq> q then uint p - uint q else memcmp_user ps qs)"
| "memcmp_user _ _ = 0"

definition memcpy_user :: "mem \<Rightarrow> uint64 \<Rightarrow> uint64 \<Rightarrow> uint \<Rightarrow> mem" where
  "memcpy_user m dst src n = memmove_user m dst src (sint n)"

section \<open>Strings\<close>

lemma strchr_None: "strchr s c = None \<longleftrightarrow> c \<notin> set s"
  by (induction s) auto

lemma strchr_Some: "strchr s c = Some i \<longleftrightarrow> i < length s \<and> s ! i = c \<and> c \<notin> set (take i s)"
proof (induction s arbitrary: i)
  case (Cons x s)
  then show ?case by (cases i) auto
qed simp

lemma strchr_append: "c \<notin> set u \<Longrightarrow> strchr (u @ c # v) c = Some (length u)"
  by (simp add: strchr_Some)

text \<open>Two strings of non-NUL bytes compare equal exactly when they are equal.\<close>

lemma at_eq_0: "0 \<notin> set s \<Longrightarrow> uint (at s) = 0 \<longleftrightarrow> s = []"
  by (cases s) (auto simp: uint_0_iff)

lemma strcmp_user_eq: "0 \<notin> set ps \<Longrightarrow> 0 \<notin> set qs \<Longrightarrow> strcmp_user ps qs = 0 \<longleftrightarrow> ps = qs"
proof (induction ps qs rule: strcmp_user.induct)
  case (1 p ps q qs)
  then show ?case by (auto simp: word_uint_eq_iff)
qed (auto simp: at_eq_0)

text \<open>\<^verbatim>\<open>gets\<close> stores at most \<open>max - 1\<close> bytes, a prefix of the input, and stops after the first end of line.\<close>

lemma gets_loop_spec: "gets_loop room inp = (line, rest) \<Longrightarrow> inp = line @ rest \<and> length line \<le> room \<and> 10 \<notin> set (butlast line)"
proof (induction room inp arbitrary: line rest rule: gets_loop.induct)
  case (3 room c inp)
  then show ?case by (auto split: if_splits prod.splits)
qed auto

end
