(* ===== verification/Printf.thy ===== *)
theory Printf
  imports Ulib
begin

text \<open>
  Formatted output: \<^verbatim>\<open>kernel/printf.c\<close> and \<^verbatim>\<open>user/printf.c\<close>. The output is the list of the bytes given to
  \<^verbatim>\<open>consputc\<close> or \<^verbatim>\<open>putc\<close>. A format is the list of its bytes before the NUL. The digits are collected in a
  buffer of 16 bytes; a longer number is the result \<open>Undefined\<close>.
\<close>

section \<open>Numbers\<close>

text \<open>\<^verbatim>\<open>digits[k]\<close>, with lower-case letters in the kernel and upper-case ones in user programs.\<close>

definition digit :: "bool \<Rightarrow> nat \<Rightarrow> uchar" where
  "digit upper k = of_nat (if k < 10 then 48 + k else (if upper then 55 else 87) + k)"

text \<open>The loop that stores the digits, least significant first; the base is 10 or 16.\<close>

function digits_loop :: "bool \<Rightarrow> nat \<Rightarrow> nat \<Rightarrow> uchar list" where
  "digits_loop upper base x =
     digit upper (x mod base) # (if x div base = 0 \<or> base < 2 then [] else digits_loop upper base (x div base))"
  by pat_completeness auto
termination
  by (relation "measure (\<lambda>(upper, base, x). x)") (auto simp: div_greater_zero_iff)

declare digits_loop.simps [simp del]

definition fill_buf :: "uchar list \<Rightarrow> uchar list res" where
  "fill_buf bs = (if length bs > 16 then Inl Undefined else Inr (rev bs))"

definition printint :: "uint64 \<Rightarrow> nat \<Rightarrow> bool \<Rightarrow> uchar list res" where
  "printint xx base sign =
     (let neg = (sign \<and> sint xx < 0);
          x = (if neg then - xx else xx)
      in fill_buf (digits_loop False base (unat x) @ (if neg then [45] else [])))"

definition printptr :: "bool \<Rightarrow> uint64 \<Rightarrow> uchar list" where
  "printptr upper x = [48, 120] @ map (\<lambda>i. digit upper (unat (drop_bit 60 (push_bit (4 * i) x)))) [0..<16]"

definition printint_user :: "uint \<Rightarrow> nat \<Rightarrow> bool \<Rightarrow> uchar list res" where
  "printint_user xx base sign =
     (let neg = (sign \<and> sint xx < 0);
          x = (if neg then - xx else xx)
      in fill_buf (digits_loop True base (unat x) @ (if neg then [45] else [])))"

section \<open>Formats\<close>

text \<open>An argument in a register: a number, or the string a pointer points to.\<close>

datatype varg = Num uint64 | Str "uchar list option"

text \<open>
  What the bytes after a \<^verbatim>\<open>%\<close> ask for: a number of 32 or 64 bits in a base, signed or not; a pointer, a string, a
  percent sign; \<open>Stop\<close> when the format ends there; or an unknown letter.
\<close>

datatype directive = Number bool nat bool | Pointer | AString | Percent | Stop | Unknown uchar

text \<open>The directive and the number of bytes it takes.\<close>

definition directive :: "uchar list \<Rightarrow> directive \<times> nat" where
  "directive fmt =
     (let c0 = at fmt;
          c1 = (if c0 \<noteq> 0 then at (drop 1 fmt) else 0);
          c2 = (if c1 \<noteq> 0 then at (drop 2 fmt) else 0)
      in if c0 = 100 then (Number False 10 True, 1)
         else if c0 = 108 \<and> c1 = 100 then (Number True 10 True, 2)
         else if c0 = 108 \<and> c1 = 108 \<and> c2 = 100 then (Number True 10 True, 3)
         else if c0 = 117 then (Number False 10 False, 1)
         else if c0 = 108 \<and> c1 = 117 then (Number True 10 False, 2)
         else if c0 = 108 \<and> c1 = 108 \<and> c2 = 117 then (Number True 10 False, 3)
         else if c0 = 120 then (Number False 16 False, 1)
         else if c0 = 108 \<and> c1 = 120 then (Number True 16 False, 2)
         else if c0 = 108 \<and> c1 = 108 \<and> c2 = 120 then (Number True 16 False, 3)
         else if c0 = 112 then (Pointer, 1)
         else if c0 = 115 then (AString, 1)
         else if c0 = 37 then (Percent, 1)
         else if c0 = 0 then (Stop, 0)
         else (Unknown c0, 1))"

text \<open>The output of one directive and the arguments left, given how numbers are printed; \<^verbatim>\<open>va_arg(ap, int)\<close> is extended with its sign.\<close>

fun print_one :: "(uint64 \<Rightarrow> nat \<Rightarrow> bool \<Rightarrow> uchar list res) \<Rightarrow> bool \<Rightarrow> directive \<Rightarrow> varg list \<Rightarrow> (uchar list \<times> varg list) res" where
  "print_one num upper (Number long base sign) (Num v # ap) =
     bindE (num (if long then v else scast (ucast v :: uint)) base sign) (\<lambda>out. Inr (out, ap))"
| "print_one num upper Pointer (Num v # ap) = Inr (printptr upper v, ap)"
| "print_one num upper AString (Str s # ap) =
     Inr (case s of None \<Rightarrow> [40, 110, 117, 108, 108, 41] | Some t \<Rightarrow> t, ap)"
| "print_one num upper Percent ap = Inr ([37], ap)"
| "print_one num upper Stop ap = Inr ([], ap)"
| "print_one num upper (Unknown c) ap = Inr ([37, c], ap)"
| "print_one num upper _ _ = Inl Undefined"

function format_loop :: "(uint64 \<Rightarrow> nat \<Rightarrow> bool \<Rightarrow> uchar list res) \<Rightarrow> bool \<Rightarrow> uchar list \<Rightarrow> varg list \<Rightarrow> uchar list res" where
  "format_loop num upper fmt ap =
     (case fmt of
        [] \<Rightarrow> Inr []
      | cx # fmt \<Rightarrow>
          if cx \<noteq> 37 then bindE (format_loop num upper fmt ap) (\<lambda>out. Inr (cx # out))
          else case directive fmt of (d, n) \<Rightarrow>
            bindE (print_one num upper d ap) (\<lambda>(o1, ap).
            bindE (format_loop num upper (drop n fmt) ap) (\<lambda>o2. Inr (o1 @ o2))))"
  by pat_completeness auto
termination
  by (relation "measure (\<lambda>(num, upper, fmt, ap). length fmt)") auto

declare format_loop.simps [simp del]

definition printf :: "uchar list \<Rightarrow> varg list \<Rightarrow> uchar list res" where
  "printf fmt ap = format_loop printint False fmt ap"

text \<open>In user programs every number is passed on as a 32-bit integer.\<close>

definition vprintf :: "uchar list \<Rightarrow> varg list \<Rightarrow> uchar list res" where
  "vprintf fmt ap = format_loop (\<lambda>x. printint_user (ucast x)) True fmt ap"

definition panic_msg :: "uchar list \<Rightarrow> uchar list res" where
  "panic_msg s =
     bindE (printf [112, 97, 110, 105, 99, 58, 32] []) (\<lambda>o1.
     bindE (printf [37, 115, 10] [Str (Some s)]) (\<lambda>o2. Inr (o1 @ o2)))"

section \<open>Digits\<close>

text \<open>The value of a list of digits, least significant first.\<close>

fun value_of :: "nat \<Rightarrow> uchar list \<Rightarrow> nat" where
  "value_of base [] = 0"
| "value_of base (d # ds) = (if d \<le> 57 then unat d - 48 else if d \<le> 70 then unat d - 55 else unat d - 87) + base * value_of base ds"

lemma unat_digit: "k < 16 \<Longrightarrow> unat (digit upper k) = (if k < 10 then 48 + k else (if upper then 55 else 87) + k)"
  unfolding digit_def by (rule unat_of_nat_small) simp

lemma digit_value:
  assumes "k < 16"
  shows "(if digit upper k \<le> 57 then unat (digit upper k) - 48 else if digit upper k \<le> 70 then unat (digit upper k) - 55
    else unat (digit upper k) - 87) = k"
  using assms by (simp add: word_le_nat_alt unat_digit)

lemma digits_value:
  assumes "2 \<le> base" and "base \<le> 16"
  shows "value_of base (digits_loop upper base x) = x"
  using assms
proof (induction upper base x rule: digits_loop.induct)
  case (1 upper base x)
  have "x mod base < 16" using "1.prems" by (meson less_le_trans mod_less_divisor zero_less_numeral)
  then have "value_of base (digits_loop upper base x) =
      x mod base + base * value_of base (if x div base = 0 \<or> base < 2 then [] else digits_loop upper base (x div base))"
    by (subst digits_loop.simps) (simp only: value_of.simps digit_value)
  moreover have "x mod base = x" if "x div base = 0" using div_mult_mod_eq[of x base] by (simp only: that mult_0 add_0)
  ultimately show ?case using 1 by (auto split: if_splits)
qed

lemma digits_length:
  assumes "2 \<le> base" and "0 < n"
  shows "length (digits_loop upper base x) \<le> n \<longleftrightarrow> x < base ^ n"
  using assms
proof (induction upper base x arbitrary: n rule: digits_loop.induct)
  case (1 upper base x)
  obtain k where n: "n = Suc k" using "1.prems" by (cases n) auto
  show ?case
  proof (cases "x div base = 0")
    case True
    then have "x < base" using "1.prems"(1) by (metis div_greater_zero_iff less_le_trans not_gr_zero not_less zero_less_numeral)
    moreover have "base \<le> base ^ n" using n "1.prems"(1) by simp
    ultimately have "x < base ^ n" by (rule less_le_trans)
    then show ?thesis using True n by (simp add: digits_loop.simps[of upper base x])
  next
    case False
    have "length (digits_loop upper base x) = Suc (length (digits_loop upper base (x div base)))"
      using False "1.prems"(1) by (simp add: digits_loop.simps[of upper base x])
    moreover have "length (digits_loop upper base (x div base)) \<le> k \<longleftrightarrow> x div base < base ^ k"
    proof (cases k)
      case 0
      then show ?thesis using False by (simp add: digits_loop.simps[of upper base "x div base"])
    next
      case (Suc j)
      then show ?thesis using "1.IH" False "1.prems"(1) by simp
    qed
    moreover have "x div base < base ^ k \<longleftrightarrow> x < base ^ n"
      using "1.prems"(1) n by (simp add: div_less_iff_less_mult mult.commute)
    ultimately show ?thesis using n by simp
  qed
qed

lemma sint_cases:
  fixes x :: "'a::len word"
  obtains "sint x = uint x" | "sint x = uint x - 2 ^ LENGTH('a)"
proof -
  obtain k where k: "LENGTH('a) = Suc k" by (metis len_gt_0 less_numeral_extra(3) not0_implies_Suc)
  have "take_bit LENGTH('a) (uint x) = uint x" by (simp add: take_bit_int_eq_self)
  then have "sint x = uint x - 2 ^ LENGTH('a) * of_bool (bit (uint x) k)"
    using signed_take_bit_eq_take_bit_minus[of k "uint x"] by (simp add: sint_uint k)
  then show ?thesis using that by (cases "bit (uint x) k") simp_all
qed

lemma abs_word:
  fixes x :: "'a::len word"
  shows "sint x < 0 \<Longrightarrow> int (unat (- x)) = - sint x" and "0 \<le> sint x \<Longrightarrow> int (unat x) = sint x"
proof -
  have b: "0 \<le> uint x" "uint x < 2 ^ LENGTH('a)" by simp_all
  show "int (unat (- x)) = - sint x" if n: "sint x < 0"
  proof -
    have m: "sint x = uint x - 2 ^ LENGTH('a)" using n b by (cases x rule: sint_cases) linarith+
    have "uint (- x) = (2 ^ LENGTH('a) - uint x) mod 2 ^ LENGTH('a)"
      by (subst uint_word_ariths(4)) (simp add: mod_diff_left_eq[of "2 ^ LENGTH('a)", symmetric])
    also have "\<dots> = 2 ^ LENGTH('a) - uint x"
    proof (rule mod_pos_pos_trivial)
      have "uint x \<noteq> 0" using n by (auto simp: uint_0_iff)
      then show "2 ^ LENGTH('a) - uint x < 2 ^ LENGTH('a)" using b by linarith
    qed (use b in linarith)
    finally show ?thesis using m by (simp only: uint_nat)
  qed
  show "int (unat x) = sint x" if "0 \<le> sint x"
  proof -
    have "uint x = sint x" using that b by (cases x rule: sint_cases) linarith+
    then show ?thesis by (simp only: uint_nat)
  qed
qed

text \<open>The number that is printed, read back.\<close>

definition number :: "nat \<Rightarrow> uchar list \<Rightarrow> int" where
  "number base out = (if at out = 45 then - int (value_of base (rev (tl out))) else int (value_of base (rev out)))"

lemma digits_not_minus: "2 \<le> base \<Longrightarrow> base \<le> 16 \<Longrightarrow> d \<in> set (digits_loop upper base x) \<Longrightarrow> 48 \<le> unat d"
proof (induction upper base x rule: digits_loop.induct)
  case (1 upper base x)
  have "x mod base < 16" using "1.prems" by (meson less_le_trans mod_less_divisor zero_less_numeral)
  then have "48 \<le> unat (digit upper (x mod base))" by (simp add: unat_digit)
  moreover have "d = digit upper (x mod base) \<or> (\<not> (x div base = 0 \<or> base < 2) \<and> d \<in> set (digits_loop upper base (x div base)))"
    using "1.prems"(3) by (subst (asm) digits_loop.simps) (auto split: if_splits)
  ultimately show ?case using 1 by auto
qed

lemma number_digits:
  assumes "2 \<le> base" and "base \<le> 16"
  shows "number base (rev (digits_loop upper base x)) = int x" and "number base (rev (digits_loop upper base x @ [45])) = - int x"
proof -
  let ?r = "rev (digits_loop upper base x)"
  have "?r \<noteq> []" by (subst digits_loop.simps) simp
  then have "at ?r \<in> set (digits_loop upper base x)" by (cases ?r) (auto dest: arg_cong[of _ _ set])
  then have "at ?r \<noteq> 45" using digits_not_minus[OF assms] by fastforce
  then show "number base ?r = int x" using digits_value[OF assms] by (simp add: number_def)
  show "number base (rev (digits_loop upper base x @ [45])) = - int x" using digits_value[OF assms] by (simp add: number_def)
qed

section \<open>Reading numbers\<close>





section \<open>Properties\<close>

text \<open>
  C39. The kernel prints a signed decimal number that reads back as the number exactly when it has at most 16 characters with
  its sign; the store of the seventeenth is outside the buffer. In hexadecimal every 64-bit number fits.
\<close>

theorem printint_correct:
  "(printint xx 10 True =
      (if - (10 ^ 15) < sint xx \<and> sint xx < 10 ^ 16 then Inr (rev (digits_loop False 10 (nat \<bar>sint xx\<bar>) @ (if sint xx < 0 then [45] else [])))
       else Inl Undefined)) \<and>
   number 10 (rev (digits_loop False 10 (nat \<bar>sint xx\<bar>) @ (if sint xx < 0 then [45] else []))) = sint xx \<and>
   (\<exists>out. printint xx 16 False = Inr out \<and> number 16 out = uint xx)"
proof (intro conjI)
  let ?x = "unat (if sint xx < 0 then - xx else xx)"
  have "int ?x = \<bar>sint xx\<bar>" using abs_word[of xx] by auto
  then have x: "?x = nat \<bar>sint xx\<bar>" by (metis nat_int)
  have l15: "length (digits_loop False 10 ?x) \<le> 15 \<longleftrightarrow> ?x < 10 ^ 15" and l16: "length (digits_loop False 10 ?x) \<le> 16 \<longleftrightarrow> ?x < 10 ^ 16"
    by (rule digits_length; simp)+
  show "printint xx 10 True =
      (if - (10 ^ 15) < sint xx \<and> sint xx < 10 ^ 16 then Inr (rev (digits_loop False 10 (nat \<bar>sint xx\<bar>) @ (if sint xx < 0 then [45] else [])))
       else Inl Undefined)"
  proof (cases "sint xx < 0")
    case True
    then have "?x < 10 ^ 15 \<longleftrightarrow> - (10 ^ 15) < sint xx" unfolding x by (simp add: nat_less_iff) linarith
    then show ?thesis using True l15 x by (simp add: printint_def fill_buf_def Let_def) linarith
  next
    case False
    then have "?x < 10 ^ 16 \<longleftrightarrow> sint xx < 10 ^ 16" unfolding x by (simp add: nat_less_iff)
    then show ?thesis using False l16 x by (simp add: printint_def fill_buf_def Let_def) linarith
  qed
  show "number 10 (rev (digits_loop False 10 (nat \<bar>sint xx\<bar>) @ (if sint xx < 0 then [45] else []))) = sint xx"
    using number_digits[of 10 False "nat \<bar>sint xx\<bar>"] by (cases "sint xx < 0") simp_all
  have "unat xx < 16 ^ 16" using unat_lt64[of xx] by simp
  then have "length (digits_loop False 16 (unat xx)) \<le> 16" using digits_length[of 16 16 False "unat xx"] by simp
  then show "\<exists>out. printint xx 16 False = Inr out \<and> number 16 out = uint xx"
    using number_digits(1)[of 16 False "unat xx"] by (simp add: printint_def fill_buf_def)
qed

text \<open>\<^verbatim>\<open>%u\<close> takes an \<^verbatim>\<open>int\<close>, which is extended with its sign: an unsigned number from 2^31 on overruns the buffer.\<close>

lemma printf_u_overflow: "printf [37, 117] [Num 0xFFFFFFFF] = Inl Undefined"
proof -
  have "unat (- 1 :: uint64) = 2 ^ 64 - 1" by (simp only: unsigned_minus_1_eq_mask mask_eq_exp_minus_1) simp
  then have "16 < length (digits_loop False 10 (unat (- 1 :: uint64)))" using digits_length[of 10 16 False "2 ^ 64 - 1"] by simp
  moreover have "scast (ucast (0xFFFFFFFF :: uint64) :: uint) = (- 1 :: uint64)" by simp
  ultimately show ?thesis by (simp add: printf_def format_loop.simps directive_def Let_def printint_def fill_buf_def)
qed



end
