(* ===== verification/Grep.thy ===== *)
theory Grep
  imports Ulib
begin

text \<open>
  \<^verbatim>\<open>user/grep.c\<close>: the regular expression matcher and the loop over the lines of a file. Patterns and texts
  are the lists of their bytes before the NUL.
\<close>

section \<open>Definitions\<close>

abbreviation star :: uchar where "star \<equiv> 42"
abbreviation dot :: uchar where "dot \<equiv> 46"
abbreviation dollar :: uchar where "dollar \<equiv> 36"
abbreviation caret :: uchar where "caret \<equiv> 94"

text \<open>\<open>at (drop 1 re)\<close> is \<^verbatim>\<open>re[1]\<close>.\<close>

function (sequential) matchhere :: "uchar list \<Rightarrow> uchar list \<Rightarrow> bool"
  and matchstar :: "uchar \<Rightarrow> uchar list \<Rightarrow> uchar list \<Rightarrow> bool" where
  "matchhere [] text = True"
| "matchhere (c # re) text =
     (if at re = star then matchstar c (drop 1 re) text
      else if c = dollar \<and> re = [] then text = []
      else case text of
             [] \<Rightarrow> False
           | t # ts \<Rightarrow> (c = dot \<or> c = t) \<and> matchhere re ts)"
| "matchstar c re text =
     (matchhere re text \<or>
      (case text of [] \<Rightarrow> False | t # ts \<Rightarrow> (t = c \<or> c = dot) \<and> matchstar c re ts))"
  by pat_completeness auto
termination
  by (relation "measures [\<lambda>x. case x of Inl (re, text) \<Rightarrow> 2 * length re | Inr (c, re, text) \<Rightarrow> 2 * length re + 1,
        \<lambda>x. case x of Inl (re, text) \<Rightarrow> length text | Inr (c, re, text) \<Rightarrow> length text]")
    (auto simp: less_Suc_eq_le)

fun match_from :: "uchar list \<Rightarrow> uchar list \<Rightarrow> bool" where
  "match_from re text = (matchhere re text \<or> (case text of [] \<Rightarrow> False | _ # ts \<Rightarrow> match_from re ts))"

definition match :: "uchar list \<Rightarrow> uchar list \<Rightarrow> bool" where
  "match re text = (if at re = caret then matchhere (drop 1 re) text else match_from re text)"

declare match_from.simps [simp del]






section \<open>The language of a pattern\<close>

text \<open>
  A pattern is a sequence of items, each one byte or any number of bytes that satisfy a test, possibly with the
  end of the text after it.
\<close>

datatype item = One uchar | Many uchar

fun fits :: "uchar \<Rightarrow> uchar \<Rightarrow> bool" where
  "fits c t \<longleftrightarrow> c = dot \<or> c = t"

fun items :: "uchar list \<Rightarrow> item list" where
  "items [] = []"
| "items [c] = (if c = dollar then [] else [One c])"
| "items (c # d # re) = (if d = star then Many c # items re else One c # items (d # re))"

fun at_end :: "uchar list \<Rightarrow> bool" where
  "at_end [] = False"
| "at_end [c] = (c = dollar)"
| "at_end (c # d # re) = (if d = star then at_end re else at_end (d # re))"

fun lang :: "item list \<Rightarrow> uchar list set" where
  "lang [] = {[]}"
| "lang (One c # r) = {t # w |t w. fits c t \<and> w \<in> lang r}"
| "lang (Many c # r) = {u @ w |u w. list_all (fits c) u \<and> w \<in> lang r}"

text \<open>The texts of which a prefix (or, with \<^verbatim>\<open>$\<close>, the whole) is in the language.\<close>

definition starts :: "uchar list \<Rightarrow> uchar list \<Rightarrow> bool" where
  "starts re text \<longleftrightarrow> (\<exists>u v. text = u @ v \<and> u \<in> lang (items re) \<and> (at_end re \<longrightarrow> v = []))"

lemma starts_simple:
  "starts [] text"
  "starts [c] text \<longleftrightarrow> (if c = dollar then text = [] else case text of [] \<Rightarrow> False | t # ts \<Rightarrow> fits c t)"
  by (auto simp: starts_def split: list.splits) (metis append_Cons append_Nil)+

lemma starts_one:
  assumes "d \<noteq> star"
  shows "starts (c # d # re) text \<longleftrightarrow> (case text of [] \<Rightarrow> False | t # ts \<Rightarrow> fits c t \<and> starts (d # re) ts)"
proof (cases "text")
  case (Cons t ts)
  have "starts (c # d # re) (t # ts) \<longleftrightarrow> fits c t \<and> starts (d # re) ts"
  proof
    assume "starts (c # d # re) (t # ts)"
    then obtain u v where u: "t # ts = u @ v" "u \<in> lang (One c # items (d # re))" "at_end (d # re) \<longrightarrow> v = []"
      using assms by (auto simp: starts_def)
    then obtain w where "u = t # w" "fits c t" "w \<in> lang (items (d # re))" by auto
    then show "fits c t \<and> starts (d # re) ts" using u unfolding starts_def by auto
  next
    assume a: "fits c t \<and> starts (d # re) ts"
    then obtain w v where w: "ts = w @ v" "w \<in> lang (items (d # re))" "at_end (d # re) \<longrightarrow> v = []" by (auto simp: starts_def)
    then have "t # ts = (t # w) @ v" "t # w \<in> lang (items (c # d # re))" "at_end (c # d # re) \<longrightarrow> v = []" using a assms by auto
    then show "starts (c # d # re) (t # ts)" unfolding starts_def by blast
  qed
  then show ?thesis using Cons by simp
qed (use assms in \<open>auto simp: starts_def\<close>)

lemma starts_many:
  "starts (c # star # re) text \<longleftrightarrow> starts re text \<or> (case text of [] \<Rightarrow> False | t # ts \<Rightarrow> fits c t \<and> starts (c # star # re) ts)"
proof -
  have "starts (c # star # re) x \<longleftrightarrow>
      (\<exists>u w v. x = u @ w @ v \<and> list_all (fits c) u \<and> w \<in> lang (items re) \<and> (at_end re \<longrightarrow> v = []))" for x
    by (simp add: starts_def) (metis append.assoc)
  note S = this
  show ?thesis
  proof
    assume "starts (c # star # re) text"
    then obtain u w v where u: "text = u @ w @ v" "list_all (fits c) u" "w \<in> lang (items re)" "at_end re \<longrightarrow> v = []"
      unfolding S by blast
    show "starts re text \<or> (case text of [] \<Rightarrow> False | t # ts \<Rightarrow> fits c t \<and> starts (c # star # re) ts)"
    proof (cases u)
      case Nil
      then show ?thesis using u by (auto simp: starts_def)
    next
      case (Cons t u')
      then have "starts (c # star # re) (u' @ w @ v)" using u unfolding S by auto
      then show ?thesis using u Cons by simp
    qed
  next
    assume "starts re text \<or> (case text of [] \<Rightarrow> False | t # ts \<Rightarrow> fits c t \<and> starts (c # star # re) ts)"
    then show "starts (c # star # re) text"
    proof
      assume "starts re text"
      then obtain w v where "text = [] @ w @ v" "w \<in> lang (items re)" "at_end re \<longrightarrow> v = []" by (auto simp: starts_def)
      then show ?thesis unfolding S by (metis list.pred_inject(1))
    next
      assume "case text of [] \<Rightarrow> False | t # ts \<Rightarrow> fits c t \<and> starts (c # star # re) ts"
      then obtain t ts where t: "text = t # ts" "fits c t" "starts (c # star # re) ts" by (auto split: list.splits)
      then obtain u w v where "ts = u @ w @ v" "list_all (fits c) u" "w \<in> lang (items re)" "at_end re \<longrightarrow> v = []"
        unfolding S by blast
      then have "text = (t # u) @ w @ v \<and> list_all (fits c) (t # u) \<and> w \<in> lang (items re) \<and> (at_end re \<longrightarrow> v = [])"
        using t by simp
      then show ?thesis unfolding S by blast
    qed
  qed
qed

lemma matchhere_starts:
  "matchhere re text \<longleftrightarrow> starts re text"
  "matchstar c re text \<longleftrightarrow> starts (c # star # re) text"
proof (induction re "text" and c re "text" rule: matchhere_matchstar.induct)
  case (1 ts)
  then show ?case by (simp add: starts_simple)
next
  case (2 c re ts)
  show ?case
  proof (cases re)
    case Nil
    then show ?thesis by (auto simp: starts_simple split: list.splits)
  next
    case (Cons d r)
    show ?thesis
    proof (cases "d = star")
      case True
      then show ?thesis using 2(1) Cons by simp
    next
      case False
      then show ?thesis using 2(2) Cons by (auto simp: starts_one[OF False] split: list.splits)
    qed
  qed
next
  case (3 c re ts)
  then show ?case by (subst starts_many) (auto split: list.splits)
qed

lemma match_from_starts: "match_from re text \<longleftrightarrow> (\<exists>w v. text = w @ v \<and> starts re v)"
proof (induction "text")
  case Nil
  then show ?case by (simp add: match_from.simps matchhere_starts)
next
  case (Cons t ts)
  have "match_from re (t # ts) \<longleftrightarrow> starts re (t # ts) \<or> (\<exists>w v. ts = w @ v \<and> starts re v)"
    using Cons by (subst match_from.simps) (simp add: matchhere_starts)
  also have "\<dots> \<longleftrightarrow> (\<exists>w v. t # ts = w @ v \<and> starts re v)"
    by (auto simp: Cons_eq_append_conv)
  finally show ?case .
qed

section \<open>Lines\<close>












section \<open>Properties\<close>

text \<open>
  C20. \<^verbatim>\<open>match\<close> decides the language of the pattern: with \<^verbatim>\<open>^\<close> a prefix of the text has to be in the language, otherwise
  any part of it, and with \<^verbatim>\<open>$\<close> that part has to reach the end of the text.
\<close>

theorem match_correct:
  "match re text \<longleftrightarrow>
     (\<exists>w u v. text = w @ u @ v \<and>
        (if at re = caret then w = [] \<and> u \<in> lang (items (drop 1 re)) \<and> (at_end (drop 1 re) \<longrightarrow> v = [])
         else u \<in> lang (items re) \<and> (at_end re \<longrightarrow> v = [])))"
  by (auto simp: match_def matchhere_starts match_from_starts starts_def)

text \<open>
  A pattern with each operator, on texts in and out of its language.
\<close>

theorem match_correct_witness:
  "match [caret, 97, star, dot, 98, dollar] [97, 97, 99, 98] \<and>
   (\<exists>u. [97, 97, 99, 98] = u \<and> u \<in> lang (items [97, star, dot, 98, dollar]))"
  using match_correct[of "[caret, 97, star, dot, 98, dollar]" "[97, 97, 99, 98]"]
  by (simp add: match_def)



end
