(* ===== verification/Sh.thy ===== *)
theory Sh
  imports Ulib "HOL-Library.Sublist"
begin

text \<open>
  \<^verbatim>\<open>user/sh.c\<close>: the parser of the shell and what it makes of a parsed command. A pointer into the command line is the list of the bytes from it to
  the end of the line, so \<^verbatim>\<open>es\<close> is the empty list; a pointer that is kept, as the ends of a word are, is
  the number of bytes from it to the end.
\<close>

section \<open>Commands\<close>

text \<open>The commands, over what stands for a word: its two pointers, or its bytes.\<close>

datatype 'w cmd =
    Exec "'w list"
  | Redir "'w cmd" 'w uint nat
  | Pipe "'w cmd" "'w cmd"
  | List "'w cmd" "'w cmd"
  | Back "'w cmd"

type_synonym ptrs = "nat \<times> nat"

abbreviation MAXARGS :: nat where "MAXARGS \<equiv> 10"
abbreviation RDONLY :: uint where "RDONLY \<equiv> 0"
abbreviation WRTRUNC :: uint where "WRTRUNC \<equiv> 0x601"
abbreviation WRAPPEND :: uint where "WRAPPEND \<equiv> 0x201"

text \<open>\<^verbatim>\<open>cmd->argv[argc] = q\<close> of the command inside the redirections.\<close>

fun add_arg :: "'w \<Rightarrow> 'w cmd \<Rightarrow> 'w cmd" where
  "add_arg w (Exec words) = Exec (words @ [w])"
| "add_arg w (Redir c f m d) = Redir (add_arg w c) f m d"
| "add_arg w c = c"

section \<open>Tokens\<close>

definition ws :: "uchar \<Rightarrow> bool" where
  "ws c \<longleftrightarrow> strchr [32, 9, 13, 10, 11] c \<noteq> None"

definition symbol :: "uchar \<Rightarrow> bool" where
  "symbol c \<longleftrightarrow> strchr [60, 124, 62, 38, 59, 40, 41] c \<noteq> None"

definition word_byte :: "uchar \<Rightarrow> bool" where
  "word_byte c \<longleftrightarrow> \<not> ws c \<and> \<not> symbol c"

definition skip_ws :: "uchar list \<Rightarrow> uchar list" where
  "skip_ws s = dropWhile ws s"

text \<open>The token, its two pointers and the rest.\<close>

definition gettoken :: "uchar list \<Rightarrow> uchar \<times> ptrs \<times> uchar list" where
  "gettoken s =
     (let s = skip_ws s;
          q = length s;
          (ret, s) =
            (case s of
               [] \<Rightarrow> (0, s)
             | c # r \<Rightarrow>
                 if c \<in> {124, 40, 41, 59, 38, 60} then (c, r)
                 else if c = 62 then if at r = 62 then (43, drop 1 r) else (62, r)
                 else (97, dropWhile word_byte s));
          eq = length s
      in (ret, (q, eq), skip_ws s))"

definition peek :: "uchar list \<Rightarrow> uchar list \<Rightarrow> bool \<times> uchar list" where
  "peek toks s = (let s = skip_ws s in (s \<noteq> [] \<and> strchr toks (at s) \<noteq> None, s))"

lemma skip_ws_length: "length (skip_ws s) \<le> length s"
  by (simp add: skip_ws_def length_dropWhile_le)

lemma skip_ws_hd: "skip_ws s = c # r \<Longrightarrow> \<not> ws c"
  unfolding skip_ws_def by (metis hd_dropWhile list.distinct(1) list.sel(1))

lemma gettoken_end: "skip_ws s = [] \<Longrightarrow> gettoken s = (0, (0, 0), [])"
  by (simp add: gettoken_def skip_ws_def[of "[]"])

lemma gettoken_length: "gettoken s = (ret, p, r) \<Longrightarrow> length r \<le> length s \<and> (skip_ws s \<noteq> [] \<longrightarrow> length r < length s)"
proof (cases "skip_ws s")
  case Nil
  assume "gettoken s = (ret, p, r)"
  then show ?thesis using gettoken_end[OF Nil] Nil by simp
next
  case (Cons c t)
  assume g: "gettoken s = (ret, p, r)"
  have l: "length t < length s" using skip_ws_length[of s] Cons by simp
  have d: "length (dropWhile word_byte t) \<le> length t" by (rule length_dropWhile_le)
  have w: "word_byte c" if "c \<notin> {124, 40, 41, 59, 38, 60, 62}"
    using that skip_ws_hd[OF Cons] by (auto simp: word_byte_def symbol_def strchr_None)
  obtain u where "r = skip_ws u" "length u \<le> length t"
    using g Cons w d by (auto simp: gettoken_def Let_def split: if_splits)
  then show ?thesis using skip_ws_length[of u] l by simp
qed

lemma gettoken_le: "(ret, p, r) = gettoken s \<Longrightarrow> length r \<le> length s"
  using gettoken_length[of s ret p r] by simp

lemma peek_gettoken_less: "(True, s1) = peek toks s \<Longrightarrow> (ret, p, r) = gettoken s1 \<Longrightarrow> length r < length s"
proof -
  assume a: "(True, s1) = peek toks s" "(ret, p, r) = gettoken s1"
  then have s1: "s1 = skip_ws s" "s1 \<noteq> []" by (auto simp: peek_def Let_def)
  then have "skip_ws s1 \<noteq> []" by (simp add: skip_ws_def)
  then have "length r < length s1" using gettoken_length[of s1 ret p r] a by simp
  then show ?thesis using s1(1) skip_ws_length[of s] by simp
qed

lemma peek_gettoken2_less:
  "(yes, s1) = peek toks s \<Longrightarrow> yes \<Longrightarrow> (ret, p, r) = gettoken s1 \<Longrightarrow> (ret', p', r') = gettoken r \<Longrightarrow> length r' < length s"
  using peek_gettoken_less[of s1 toks s ret p r] gettoken_le[of ret' p' r' r] by simp

section \<open>The parser\<close>

function parseredirs :: "ptrs cmd \<Rightarrow> uchar list \<Rightarrow> (ptrs cmd \<times> uchar list) res" where
  "parseredirs cmd s =
     (case peek [60, 62] s of (yes, s) \<Rightarrow>
        if yes then
          case gettoken s of (tok, _, s) \<Rightarrow>
          case gettoken s of (a, q, s) \<Rightarrow>
            if a \<noteq> 97 then Inl (Panic ''missing file for redirection'')
            else parseredirs
              (if tok = 60 then Redir cmd q RDONLY 0
               else if tok = 62 then Redir cmd q WRTRUNC 1
               else if tok = 43 then Redir cmd q WRAPPEND 1
               else cmd) s
        else Inr (cmd, s))"
  by pat_completeness auto
termination
  by (relation "measure (\<lambda>(cmd, s). length s)") (auto dest: peek_gettoken2_less)

declare parseredirs.simps [simp del]

text \<open>The loop over the arguments; \<open>argc\<close> of them are stored.\<close>

function parseargs :: "nat \<Rightarrow> ptrs cmd \<Rightarrow> uchar list \<Rightarrow> (ptrs cmd \<times> uchar list) res" where
  "parseargs argc cmd s =
     (case peek [124, 41, 38, 59] s of (stop, s) \<Rightarrow>
        if stop then Inr (cmd, s)
        else case gettoken s of (tok, q, s) \<Rightarrow>
          if tok = 0 then Inr (cmd, s)
          else if tok \<noteq> 97 then Inl (Panic ''syntax'')
          else if argc + 1 \<ge> MAXARGS then Inl (Panic ''too many args'')
          else bindE (parseredirs (add_arg q cmd) s) (\<lambda>(cmd, s). parseargs (argc + 1) cmd s))"
  by pat_completeness auto
termination
  by (relation "measure (\<lambda>(argc, cmd, s). MAXARGS - argc)") auto

declare parseargs.simps [simp del]

text \<open>The loop over \<^verbatim>\<open>&\<close> in \<^verbatim>\<open>parseline\<close>.\<close>

function parsebacks :: "ptrs cmd \<Rightarrow> uchar list \<Rightarrow> ptrs cmd \<times> uchar list" where
  "parsebacks cmd s =
     (case peek [38] s of (yes, s) \<Rightarrow>
        if yes then case gettoken s of (_, _, s) \<Rightarrow> parsebacks (Back cmd) s else (cmd, s))"
  by pat_completeness auto
termination
  by (relation "measure (\<lambda>(cmd, s). length s)") (auto dest: peek_gettoken_less)

declare parsebacks.simps [simp del]

text \<open>The recursive functions, with a bound on the depth of their calls.\<close>

fun parseline :: "nat \<Rightarrow> uchar list \<Rightarrow> (ptrs cmd \<times> uchar list) res"
  and parsepipe :: "nat \<Rightarrow> uchar list \<Rightarrow> (ptrs cmd \<times> uchar list) res"
  and parseexec :: "nat \<Rightarrow> uchar list \<Rightarrow> (ptrs cmd \<times> uchar list) res"
  and parseblock :: "nat \<Rightarrow> uchar list \<Rightarrow> (ptrs cmd \<times> uchar list) res" where
  "parseline 0 s = Inl OutOfFuel"
| "parseline (Suc n) s =
     bindE (parsepipe n s) (\<lambda>(cmd, s).
       case parsebacks cmd s of (cmd, s) \<Rightarrow>
       case peek [59] s of (yes, s) \<Rightarrow>
         if yes then case gettoken s of (_, _, s) \<Rightarrow> bindE (parseline n s) (\<lambda>(right, s). Inr (List cmd right, s))
         else Inr (cmd, s))"
| "parsepipe 0 s = Inl OutOfFuel"
| "parsepipe (Suc n) s =
     bindE (parseexec n s) (\<lambda>(cmd, s).
       case peek [124] s of (yes, s) \<Rightarrow>
         if yes then case gettoken s of (_, _, s) \<Rightarrow> bindE (parsepipe n s) (\<lambda>(right, s). Inr (Pipe cmd right, s))
         else Inr (cmd, s))"
| "parseexec 0 s = Inl OutOfFuel"
| "parseexec (Suc n) s =
     (case peek [40] s of (yes, s) \<Rightarrow>
        if yes then parseblock n s
        else bindE (parseredirs (Exec []) s) (\<lambda>(cmd, s). parseargs 0 cmd s))"
| "parseblock 0 s = Inl OutOfFuel"
| "parseblock (Suc n) s =
     (case peek [40] s of (yes, s) \<Rightarrow>
        if \<not> yes then Inl (Panic ''parseblock'')
        else case gettoken s of (_, _, s) \<Rightarrow>
          bindE (parseline n s) (\<lambda>(cmd, s).
            case peek [41] s of (yes, s) \<Rightarrow>
              if \<not> yes then Inl (Panic ''syntax - missing )'')
              else case gettoken s of (_, _, s) \<Rightarrow> parseredirs cmd s))"

text \<open>The stores of NUL bytes at the ends of the words; the buffer holds the line and its NUL.\<close>

definition end_word :: "ptrs \<Rightarrow> uchar list \<Rightarrow> uchar list" where
  "end_word w buf = buf[length buf - 1 - snd w := 0]"

fun nulterminate :: "ptrs cmd \<Rightarrow> uchar list \<Rightarrow> uchar list" where
  "nulterminate (Exec words) buf = fold end_word words buf"
| "nulterminate (Redir c f m d) buf = end_word f (nulterminate c buf)"
| "nulterminate (Pipe l r) buf = nulterminate r (nulterminate l buf)"
| "nulterminate (List l r) buf = nulterminate r (nulterminate l buf)"
| "nulterminate (Back c) buf = nulterminate c buf"

text \<open>The depth of the calls is at most four for each byte, and eight more.\<close>

definition parsecmd :: "uchar list \<Rightarrow> (ptrs cmd \<times> uchar list) res" where
  "parsecmd line =
     bindE (parseline (4 * length line + 8) line) (\<lambda>(cmd, s).
       case peek [] s of (_, s) \<Rightarrow>
         if s \<noteq> [] then Inl (Panic ''syntax'') else Inr (cmd, nulterminate cmd (line @ [0])))"

section \<open>Words\<close>

text \<open>The bytes between the pointers of a word, and what makes them a word: as many bytes as possible, none of them blank or a symbol.\<close>

definition word_text :: "uchar list \<Rightarrow> ptrs \<Rightarrow> uchar list" where
  "word_text line w = take (fst w - snd w) (drop (length line - fst w) line)"

definition word_ok :: "uchar list \<Rightarrow> ptrs \<Rightarrow> bool" where
  "word_ok line w \<longleftrightarrow> (\<exists>pre t post. line = pre @ t @ post \<and> w = (length (t @ post), length post) \<and> t \<noteq> [] \<and>
     (\<forall>c \<in> set t. word_byte c) \<and> (post \<noteq> [] \<longrightarrow> \<not> word_byte (hd post)))"

lemma skip_ws_suffix: "suffix (skip_ws s) s"
  by (simp add: skip_ws_def suffix_dropWhile)

lemma peek_suffix: "peek toks s = (yes, r) \<Longrightarrow> suffix r s"
  using skip_ws_suffix by (auto simp: peek_def Let_def)

lemma gettoken_suffix: "gettoken s = (ret, p, r) \<Longrightarrow> suffix r s"
proof -
  assume g: "gettoken s = (ret, p, r)"
  show ?thesis
  proof (cases "skip_ws s")
    case Nil
    then show ?thesis using g gettoken_end[OF Nil] by simp
  next
    case (Cons c t)
    have "suffix t s" using skip_ws_suffix[of s] Cons by (metis suffix_ConsD)
    moreover have "suffix (dropWhile word_byte (c # t)) s" using skip_ws_suffix[of s] suffix_dropWhile[of word_byte "c # t"] Cons
      by (metis suffix_order.trans)
    moreover have "suffix (drop 1 t) s" using suffix_drop[of 1 t] \<open>suffix t s\<close> by (metis suffix_order.trans)
    ultimately obtain u where "r = skip_ws u" "suffix u s" using g Cons by (auto simp: gettoken_def Let_def split: if_splits)
    then show ?thesis using skip_ws_suffix[of u] by (metis suffix_order.trans)
  qed
qed

lemma gettoken_word: "gettoken s = (97, p, r) \<Longrightarrow> suffix s line \<Longrightarrow> word_ok line p"
proof -
  assume g: "gettoken s = (97, p, r)" and l: "suffix s line"
  then obtain c t where ct: "skip_ws s = c # t" using gettoken_end[of s] by (cases "skip_ws s") auto
  let ?w = "takeWhile word_byte (c # t)" and ?post = "dropWhile word_byte (c # t)"
  have sp: "c # t = ?w @ ?post" by simp
  have "c \<notin> {124, 40, 41, 59, 38, 60, 62}" and p: "p = (length (c # t), length ?post)"
    using g ct by (auto simp: gettoken_def Let_def split: if_splits)
  then have "word_byte c" using skip_ws_hd[OF ct] by (auto simp: word_byte_def symbol_def strchr_None)
  then have "?w \<noteq> []" by simp
  moreover have "?post \<noteq> [] \<longrightarrow> \<not> word_byte (hd ?post)" using hd_dropWhile by blast
  moreover have "\<forall>x \<in> set ?w. word_byte x" by (auto dest: set_takeWhileD)
  moreover obtain pre where "line = pre @ c # t" using l skip_ws_suffix[of s] ct by (metis suffix_def suffix_order.trans)
  then have "line = pre @ ?w @ ?post" using sp by simp
  moreover have "p = (length (?w @ ?post), length ?post)" using p sp by simp
  ultimately show ?thesis unfolding word_ok_def by blast
qed

section \<open>What the parser returns\<close>

text \<open>A command over words of the line, with the three kinds of redirections.\<close>

fun cmd_ok :: "uchar list \<Rightarrow> ptrs cmd \<Rightarrow> bool" where
  "cmd_ok line (Exec words) \<longleftrightarrow> (\<forall>w \<in> set words. word_ok line w)"
| "cmd_ok line (Redir c f m d) \<longleftrightarrow> cmd_ok line c \<and> word_ok line f \<and> (m, d) \<in> {(RDONLY, 0), (WRTRUNC, 1), (WRAPPEND, 1)}"
| "cmd_ok line (Pipe l r) \<longleftrightarrow> cmd_ok line l \<and> cmd_ok line r"
| "cmd_ok line (List l r) \<longleftrightarrow> cmd_ok line l \<and> cmd_ok line r"
| "cmd_ok line (Back c) \<longleftrightarrow> cmd_ok line c"

lemma cmd_ok_words: "cmd_ok line c \<Longrightarrow> \<forall>w \<in> set_cmd c. word_ok line w"
  by (induction c) auto

lemma cmd_ok_add_arg: "cmd_ok line c \<Longrightarrow> word_ok line w \<Longrightarrow> cmd_ok line (add_arg w c)"
  by (induction c) auto

text \<open>A result is good when it is a command whose words are words of the line, with a rest of the input, or a syntax error.\<close>

fun good :: "uchar list \<Rightarrow> uchar list \<Rightarrow> (ptrs cmd \<times> uchar list) res \<Rightarrow> bool" where
  "good line s (Inr (c, r)) \<longleftrightarrow> suffix r s \<and> (cmd_ok line c)"
| "good line s (Inl e) \<longleftrightarrow> (\<exists>m. e = Panic m)"

lemma good_bind:
  assumes "good line s m" and "\<And>c r. m = Inr (c, r) \<Longrightarrow> suffix r s \<Longrightarrow> cmd_ok line c \<Longrightarrow> good line s (f (c, r))"
  shows "good line s (bindE m f)"
  using assms by (cases m) auto

lemma good_mono: "good line r x \<Longrightarrow> suffix r s \<Longrightarrow> good line s x"
  by (cases x) (auto dest: suffix_order.trans)

lemma parseredirs_good: "cmd_ok line cmd \<Longrightarrow> suffix s line \<Longrightarrow> good line s (parseredirs cmd s)"
proof (induction cmd s rule: parseredirs.induct)
  case (1 cmd s)
  obtain yes s1 where p: "peek [60, 62] s = (yes, s1)" by fastforce
  obtain tok p2 s2 where g: "gettoken s1 = (tok, p2, s2)" using prod_cases3 by blast
  obtain a q s3 where h: "gettoken s2 = (a, q, s3)" using prod_cases3 by blast
  have sf: "suffix s1 s" "suffix s2 s" "suffix s3 s" "suffix s2 line" "suffix s3 line"
    using peek_suffix[OF p] gettoken_suffix[OF g] gettoken_suffix[OF h] "1.prems"(2) by (meson suffix_order.trans)+
  let ?c = "if tok = 60 then Redir cmd q RDONLY 0 else if tok = 62 then Redir cmd q WRTRUNC 1 else if tok = 43 then Redir cmd q WRAPPEND 1 else cmd"
  have "good line s3 (parseredirs ?c s3)" if "yes" "a = 97"
    using that gettoken_word[of s2 q s3 line] h sf "1.prems" by (intro "1.IH"[OF p[symmetric] _ g[symmetric] refl h[symmetric] refl]) auto
  then show ?case using p g h sf "1.prems"(1) by (subst parseredirs.simps) (auto intro: good_mono)
qed

lemma parseargs_good: "cmd_ok line cmd \<Longrightarrow> suffix s line \<Longrightarrow> good line s (parseargs argc cmd s)"
proof (induction argc cmd s rule: parseargs.induct)
  case (1 argc cmd s)
  obtain stop s1 where p: "peek [124, 41, 38, 59] s = (stop, s1)" by fastforce
  obtain tok q s2 where g: "gettoken s1 = (tok, q, s2)" using prod_cases3 by blast
  have sf: "suffix s1 s" "suffix s2 s" "suffix s1 line" "suffix s2 line"
    using peek_suffix[OF p] gettoken_suffix[OF g] "1.prems"(2) by (meson suffix_order.trans)+
  have "good line s (bindE (parseredirs (add_arg q cmd) s2) (\<lambda>(cmd, s). parseargs (argc + 1) cmd s))"
    if ok: "\<not> stop" "tok = 97" "\<not> MAXARGS \<le> argc + 1"
  proof (rule good_bind)
    have "cmd_ok line (add_arg q cmd)"
      using cmd_ok_add_arg[of line cmd q] gettoken_word[of s1 q s2 line] g ok sf(3) "1.prems"(1) by auto
    then show "good line s (parseredirs (add_arg q cmd) s2)" using parseredirs_good[of line _ s2] sf by (blast intro: good_mono)
    fix c r assume e: "parseredirs (add_arg q cmd) s2 = Inr (c, r)" and r: "suffix r s" "cmd_ok line c"
    then have "good line r (parseargs (argc + 1) c r)"
      using "1.prems"(2) ok by (intro "1.IH"[OF p[symmetric] _ g[symmetric] refl _ _ _ e refl]) (auto dest: suffix_order.trans)
    then show "good line s (case (c, r) of (cmd, s) \<Rightarrow> parseargs (argc + 1) cmd s)" using r(1) by (auto intro: good_mono)
  qed
  then show ?case using p g sf "1.prems"(1) by (subst parseargs.simps) auto
qed

lemma parsebacks_good:
  "parsebacks cmd s = (cmd', r) \<Longrightarrow> cmd_ok line cmd \<Longrightarrow> suffix r s \<and> (cmd_ok line cmd')"
proof (induction cmd s rule: parsebacks.induct)
  case (1 cmd s)
  obtain yes s1 where p: "peek [38] s = (yes, s1)" by fastforce
  obtain t q s2 where g: "gettoken s1 = (t, q, s2)" using prod_cases3 by blast
  have sf: "suffix s1 s" "suffix s2 s" using peek_suffix[OF p] gettoken_suffix[OF g] by (meson suffix_order.trans)+
  show ?case
  proof (cases yes)
    case True
    then have "parsebacks (Back cmd) s2 = (cmd', r)" using "1.prems"(1) p g by (subst (asm) parsebacks.simps) simp
    then have "suffix r s2 \<and> (cmd_ok line cmd')"
      using "1.IH"[OF p[symmetric] True g[symmetric] refl] "1.prems"(2) by auto
    then show ?thesis using sf by (meson suffix_order.trans)
  next
    case False
    then show ?thesis using "1.prems" p sf by (subst (asm) parsebacks.simps) simp
  qed
qed

lemma parse_good:
  "suffix s line \<Longrightarrow> 4 * length s + 4 \<le> n \<Longrightarrow> good line s (parseline n s)"
  "suffix s line \<Longrightarrow> 4 * length s + 3 \<le> n \<Longrightarrow> good line s (parsepipe n s)"
  "suffix s line \<Longrightarrow> 4 * length s + 2 \<le> n \<Longrightarrow> good line s (parseexec n s)"
  "suffix s line \<Longrightarrow> 4 * length s + 1 \<le> n \<Longrightarrow> good line s (parseblock n s)"
proof (induction n s and n s and n s and n s rule: parseline_parsepipe_parseexec_parseblock.induct)
  case (2 n s)
  show ?case unfolding parseline.simps
  proof (rule good_bind)
    show "good line s (parsepipe n s)" using 2 by simp
    fix c r assume e: "parsepipe n s = Inr (c, r)" and r: "suffix r s" "cmd_ok line c"
    obtain c' r' where b: "parsebacks c r = (c', r')" by fastforce
    obtain yes s1 where p: "peek [59] r' = (yes, s1)" by fastforce
    obtain t q s2 where g: "gettoken s1 = (t, q, s2)" using prod_cases3 by blast
    have B: "suffix r' r" "cmd_ok line c'" using parsebacks_good[OF b r(2)] by auto
    have sf: "suffix r' s" "suffix s1 s" "suffix s2 s" "suffix s2 line"
      using B(1) r(1) peek_suffix[OF p] gettoken_suffix[OF g] "2.prems"(1) by (meson suffix_order.trans)+
    have "good line s (bindE (parseline n s2) (\<lambda>(right, s). Inr (List c' right, s)))" if yes
    proof (rule good_bind)
      have "length s2 < length s" using peek_gettoken_less[of s1 "[59]" r' t q s2] p g that suffix_length_le[OF sf(1)] by auto
      then have "good line s2 (parseline n s2)" using "2.IH"(2)[OF e refl b[symmetric] p[symmetric] that g[symmetric] refl] sf(4) "2.prems"(2) by auto
      then show "good line s (parseline n s2)" using sf(3) by (rule good_mono)
    qed (use B in auto)
    then show "good line s (case (c, r) of (cmd, s) \<Rightarrow> case parsebacks cmd s of (cmd, s) \<Rightarrow> case peek [59] s of (yes, s) \<Rightarrow>
         if yes then case gettoken s of (_, _, s) \<Rightarrow> bindE (parseline n s) (\<lambda>(right, s). Inr (List cmd right, s)) else Inr (cmd, s))"
      using b p g sf B(2) by auto
  qed
next
  case (4 n s)
  show ?case unfolding parsepipe.simps
  proof (rule good_bind)
    show "good line s (parseexec n s)" using 4 by simp
    fix c r assume e: "parseexec n s = Inr (c, r)" and r: "suffix r s" "cmd_ok line c"
    obtain yes s1 where p: "peek [124] r = (yes, s1)" by fastforce
    obtain t q s2 where g: "gettoken s1 = (t, q, s2)" using prod_cases3 by blast
    have sf: "suffix s1 s" "suffix s2 s" "suffix s2 line"
      using r(1) peek_suffix[OF p] gettoken_suffix[OF g] "4.prems"(1) by (meson suffix_order.trans)+
    have "good line s (bindE (parsepipe n s2) (\<lambda>(right, s). Inr (Pipe c right, s)))" if yes
    proof (rule good_bind)
      have "length s2 < length s" using peek_gettoken_less[of s1 "[124]" r t q s2] p g that suffix_length_le[OF r(1)] by auto
      then have "good line s2 (parsepipe n s2)" using "4.IH"(2)[OF e refl p[symmetric] that g[symmetric] refl] sf(3) "4.prems"(2) by auto
      then show "good line s (parsepipe n s2)" using sf(2) by (rule good_mono)
    qed (use r in auto)
    then show "good line s (case (c, r) of (cmd, s) \<Rightarrow> case peek [124] s of (yes, s) \<Rightarrow>
         if yes then case gettoken s of (_, _, s) \<Rightarrow> bindE (parsepipe n s) (\<lambda>(right, s). Inr (Pipe cmd right, s)) else Inr (cmd, s))"
      using p g sf r by auto
  qed
next
  case (6 n s)
  obtain yes s1 where p: "peek [40] s = (yes, s1)" by fastforce
  have sf: "suffix s1 s" "suffix s1 line" using peek_suffix[OF p] "6.prems"(1) by (meson suffix_order.trans)+
  have "good line s1 (parseblock n s1)" if yes
    using "6.IH"[OF p[symmetric] that] sf suffix_length_le[OF sf(1)] "6.prems"(2) by simp
  moreover have "good line s1 (bindE (parseredirs (Exec []) s1) (\<lambda>(cmd, s). parseargs 0 cmd s))"
  proof (rule good_bind)
    show "good line s1 (parseredirs (Exec []) s1)" by (rule parseredirs_good) (use sf in auto)
    fix c r assume r: "suffix r s1" "cmd_ok line c"
    then have "good line r (parseargs 0 c r)" using sf by (intro parseargs_good) (auto dest: suffix_order.trans)
    then show "good line s1 (case (c, r) of (cmd, s) \<Rightarrow> parseargs 0 cmd s)" using r(1) by (auto intro: good_mono)
  qed
  ultimately show ?case using p sf(1) by (auto intro: good_mono)
next
  case (8 n s)
  obtain yes s1 where p: "peek [40] s = (yes, s1)" by fastforce
  obtain t q s2 where g: "gettoken s1 = (t, q, s2)" using prod_cases3 by blast
  have sf: "suffix s2 s" "suffix s2 line" using peek_suffix[OF p] gettoken_suffix[OF g] "8.prems"(1) by (meson suffix_order.trans)+
  have "good line s (bindE (parseline n s2) (\<lambda>(cmd, s). case peek [41] s of (yes, s) \<Rightarrow>
      if \<not> yes then Inl (Panic ''syntax - missing )'') else case gettoken s of (_, _, s) \<Rightarrow> parseredirs cmd s))" if yes
  proof (rule good_bind)
    have "length s2 < length s" using peek_gettoken_less[of s1 "[40]" s t q s2] p g that by auto
    then have "good line s2 (parseline n s2)" using "8.IH"[OF p[symmetric] _ g[symmetric] refl] that sf(2) "8.prems"(2) by auto
    then show "good line s (parseline n s2)" using sf(1) by (rule good_mono)
    fix c r assume r: "suffix r s" "cmd_ok line c"
    obtain yes2 r1 where p2: "peek [41] r = (yes2, r1)" by fastforce
    obtain t2 q2 r2 where g2: "gettoken r1 = (t2, q2, r2)" using prod_cases3 by blast
    have "suffix r2 s" "suffix r2 line" using peek_suffix[OF p2] gettoken_suffix[OF g2] r(1) "8.prems"(1) by (meson suffix_order.trans)+
    then have "good line s (parseredirs c r2)" using parseredirs_good[OF r(2)] by (blast intro: good_mono)
    then show "good line s (case (c, r) of (cmd, s) \<Rightarrow> case peek [41] s of (yes, s) \<Rightarrow>
        if \<not> yes then Inl (Panic ''syntax - missing )'') else case gettoken s of (_, _, s) \<Rightarrow> parseredirs cmd s)"
      using p2 g2 by simp
  qed
  then show ?case using p g by simp
qed simp_all

section \<open>The words of a command\<close>

fun cmd_words :: "'w cmd \<Rightarrow> 'w list" where
  "cmd_words (Exec words) = words"
| "cmd_words (Redir c f m d) = cmd_words c @ [f]"
| "cmd_words (Pipe l r) = cmd_words l @ cmd_words r"
| "cmd_words (List l r) = cmd_words l @ cmd_words r"
| "cmd_words (Back c) = cmd_words c"

lemma set_cmd_words: "set (cmd_words c) = set_cmd c"
  by (induction c) auto

lemma nulterminate_fold: "nulterminate c buf = fold end_word (cmd_words c) buf"
  by (induction c arbitrary: buf) auto

lemma length_fold_end [simp]: "length (fold end_word ws' buf) = length buf"
  by (induction ws' arbitrary: buf) (auto simp: end_word_def)

lemma nth_fold_end:
  "j < length buf \<Longrightarrow> fold end_word ws' buf ! j = (if \<exists>w \<in> set ws'. j = length buf - 1 - snd w then 0 else buf ! j)"
proof (induction ws' arbitrary: buf)
  case (Cons w ws')
  have "length (end_word w buf) = length buf" by (simp add: end_word_def)
  then show ?case using Cons by (auto simp: end_word_def nth_list_update)
qed simp

text \<open>The string at a pointer.\<close>

definition string_at :: "uchar list \<Rightarrow> nat \<Rightarrow> uchar list" where
  "string_at buf q = takeWhile (\<lambda>c. c \<noteq> 0) (drop (length buf - 1 - q) buf)"

lemma string_of_word:
  assumes W: "\<forall>w \<in> set ws'. word_ok line w" and w: "w \<in> set ws'" and z: "0 \<notin> set line"
  shows "string_at (fold end_word ws' (line @ [0])) (fst w) = word_text line w"
proof -
  obtain pre t post where l: "line = pre @ t @ post" "w = (length (t @ post), length post)" "\<forall>c \<in> set t. word_byte c"
    using W w unfolding word_ok_def by blast
  let ?b = "fold end_word ws' (line @ [0])"
  have wt: "word_text line w = t" using l(1,2) by (simp add: word_text_def)
  have inside: "?b ! (length pre + k) = t ! k" if k: "k < length t" for k
  proof -
    have "length pre + k \<noteq> length line - snd v" if "v \<in> set ws'" for v
    proof
      assume e: "length pre + k = length line - snd v"
      obtain pre' t' post' where v: "line = pre' @ t' @ post'" "v = (length (t' @ post'), length post')" "post' \<noteq> [] \<longrightarrow> \<not> word_byte (hd post')"
        using W \<open>v \<in> set ws'\<close> unfolding word_ok_def by blast
      have i: "length pre + k = length (pre' @ t')" using e v(1,2) by simp
      moreover have "length pre + k < length line" using k l(1) by simp
      ultimately have "post' \<noteq> []" using v(1) by auto
      then have "line ! (length pre + k) = hd post'" unfolding i v(1) by (simp add: nth_append hd_conv_nth)
      moreover have "line ! (length pre + k) = t ! k" unfolding l(1) using k by (simp add: nth_append)
      ultimately show False using v(3) \<open>post' \<noteq> []\<close> l(3) k by (metis nth_mem)
    qed
    then have "?b ! (length pre + k) = (line @ [0]) ! (length pre + k)" using k l(1) by (subst nth_fold_end) auto
    then show ?thesis using k by (simp add: l(1) nth_append)
  qed
  have stop: "?b ! (length pre + length t) = 0"
    using w l(1,2) by (subst nth_fold_end) (auto intro!: bexI[of _ w])
  have d: "length (line @ [0]) - 1 - fst w = length pre" using l(1,2) by simp
  have "takeWhile (\<lambda>c. c \<noteq> 0) (drop (length pre) ?b) = take (length t) (drop (length pre) ?b)"
  proof (rule takeWhile_eq_take_P_nth)
    show "drop (length pre) ?b ! i \<noteq> 0" if "i < length t" for i using that inside[OF that] z l(1) by (auto simp: in_set_conv_nth)
    show "\<not> drop (length pre) ?b ! length t \<noteq> 0" using stop l(1) by simp
  qed
  also have "\<dots> = t" by (rule nth_equalityI) (use inside l(1) in auto)
  finally show ?thesis unfolding string_at_def wt using d by simp
qed

section \<open>Commands as text\<close>

text \<open>A command written out, every part of it in parentheses.\<close>

fun pp :: "uchar list cmd \<Rightarrow> uchar list" where
  "pp (Exec words) = concat (map (\<lambda>w. w @ [32]) words)"
| "pp (Redir c f m d) = [40] @ pp c @ [41] @ (if m = RDONLY then [60] else if m = WRTRUNC then [62] else [62, 62]) @ f"
| "pp (Pipe l r) = [40] @ pp l @ [41, 124, 40] @ pp r @ [41]"
| "pp (List l r) = [40] @ pp l @ [41, 59, 40] @ pp r @ [41]"
| "pp (Back c) = [40] @ pp c @ [41, 38]"

definition is_word :: "uchar list \<Rightarrow> bool" where
  "is_word w \<longleftrightarrow> w \<noteq> [] \<and> list_all word_byte w \<and> 0 \<notin> set w"

fun is_cmd :: "uchar list cmd \<Rightarrow> bool" where
  "is_cmd (Exec words) \<longleftrightarrow> list_all is_word words \<and> length words < MAXARGS"
| "is_cmd (Redir c f m d) \<longleftrightarrow> is_cmd c \<and> is_word f \<and> (m, d) \<in> {(RDONLY, 0), (WRTRUNC, 1), (WRAPPEND, 1)}"
| "is_cmd (Pipe l r) \<longleftrightarrow> is_cmd l \<and> is_cmd r"
| "is_cmd (List l r) \<longleftrightarrow> is_cmd l \<and> is_cmd r"
| "is_cmd (Back c) \<longleftrightarrow> is_cmd c"

text \<open>Input that begins with a symbol, or is at its end.\<close>

definition at_symbol :: "uchar list \<Rightarrow> bool" where
  "at_symbol s \<longleftrightarrow> s = [] \<or> symbol (hd s)"

lemma symbol_not_ws: "symbol c \<Longrightarrow> \<not> ws c"
  by (auto simp: symbol_def ws_def strchr_None)

lemma skip_ws_symbol: "at_symbol s \<Longrightarrow> skip_ws s = s"
  by (cases s) (auto simp: at_symbol_def skip_ws_def dest: symbol_not_ws)

lemma skip_ws_word: "is_word w \<Longrightarrow> skip_ws (w @ s) = w @ s"
  by (cases w) (auto simp: is_word_def skip_ws_def word_byte_def)

lemma peek_same: "skip_ws s = s \<Longrightarrow> peek toks s = (s \<noteq> [] \<and> at s \<in> set toks, s)"
  by (simp add: peek_def strchr_None)

lemma gettoken_symbol: "c \<in> {124, 40, 41, 59, 38, 60} \<Longrightarrow> gettoken (c # s) = (c, (Suc (length s), length s), skip_ws s)"
  by (auto simp: gettoken_def skip_ws_def ws_def strchr_None)

lemma gettoken_greater: "gettoken (62 # s) = (if at s = 62 then (43, (Suc (length s), length s - 1), skip_ws (drop 1 s)) else (62, (Suc (length s), length s), skip_ws s))"
  by (auto simp: gettoken_def skip_ws_def ws_def strchr_None)

lemma gettoken_is_word:
  assumes "is_word w" and "post = [] \<or> \<not> word_byte (hd post)"
  shows "gettoken (w @ post) = (97, (length (w @ post), length post), skip_ws post)"
proof -
  obtain c t where w: "w = c # t" using assms(1) by (cases w) (auto simp: is_word_def)
  have c: "c \<notin> {124, 40, 41, 59, 38, 60}" "c \<noteq> 62" using assms(1) w by (auto simp: is_word_def word_byte_def symbol_def strchr_None)
  have d: "dropWhile word_byte (w @ post) = post"
    using assms by (cases post) (auto simp: is_word_def list_all_iff dropWhile_append)
  have e: "skip_ws (w @ post) = c # t @ post" using skip_ws_word[OF assms(1)] w by simp
  show ?thesis unfolding gettoken_def e using c d w by (simp add: Let_def)
qed

lemma word_text_middle: "suffix (w @ post) line \<Longrightarrow> word_text line (length (w @ post), length post) = w"
  by (auto simp: suffix_def word_text_def)

lemma parsecmd_result:
  "(\<exists>m. parsecmd line = Inl (Panic m)) \<or> (\<exists>c. parsecmd line = Inr (c, nulterminate c (line @ [0])) \<and> cmd_ok line c)"
proof -
  have g: "good line line (parseline (4 * length line + 8) line)" by (rule parse_good) auto
  show ?thesis
  proof (cases "parseline (4 * length line + 8) line")
    case (Inr p)
    then obtain c r where "parseline (4 * length line + 8) line = Inr (c, r)" by (cases p) auto
    moreover obtain yes s where "peek [] r = (yes, s)" by fastforce
    ultimately show ?thesis using g by (auto simp: parsecmd_def)
  qed (use g in \<open>auto simp: parsecmd_def\<close>)
qed

text \<open>
  C18. The parser of the shell ends on every line: it reports a syntax error, or returns a command; and once the ends of the words are
  overwritten with NUL bytes, the string at the pointer of every argument and every file name is exactly the word of the line
  it was read from, not empty and with no blank or symbol in it, though the strings share the one buffer.
\<close>

theorem parsecmd_words:
  assumes "0 \<notin> set line"
  shows "(\<exists>m. parsecmd line = Inl (Panic m)) \<or>
    (\<exists>cmd buf. parsecmd line = Inr (cmd, buf) \<and>
       (\<forall>w \<in> set_cmd cmd. string_at buf (fst w) = word_text line w \<and> word_text line w \<noteq> [] \<and> list_all word_byte (word_text line w)))"
proof -
  have "string_at (nulterminate c (line @ [0])) (fst w) = word_text line w \<and> word_text line w \<noteq> [] \<and> list_all word_byte (word_text line w)"
    if "\<forall>w \<in> set_cmd c. word_ok line w" "w \<in> set_cmd c" for c w
  proof -
    have "word_text line w \<noteq> [] \<and> list_all word_byte (word_text line w)"
      using that by (fastforce simp: word_ok_def word_text_def list_all_iff)
    then show ?thesis using string_of_word[of "cmd_words c" line w] that assms by (simp add: nulterminate_fold set_cmd_words)
  qed
  then show ?thesis using parsecmd_result[of line] cmd_ok_words by blast
qed

text \<open>The line \<^verbatim>\<open>ls>f\<close>: the name of the file ends where the line does, the argument where the symbol stood.\<close>

theorem parsecmd_words_witness:
  "parsecmd [108, 115, 62, 102] = Inr (Redir (Exec [(4, 2)]) (1, 0) WRTRUNC 1, [108, 115, 0, 102, 0]) \<and>
    string_at [108, 115, 0, 102, 0] 4 = word_text [108, 115, 62, 102] (4, 2)"
proof -
  have e: "parsecmd [108, 115, 62, 102] = Inr (Redir (Exec [(4, 2)]) (1, 0) WRTRUNC 1, [108, 115, 0, 102, 0])" by code_simp
  then show ?thesis using parsecmd_words[of "[108, 115, 62, 102]"] by auto
qed

section \<open>Reading a printed command\<close>

text \<open>Where a command ends: at the end of the line, or at a closing parenthesis.\<close>

definition closes :: "uchar list \<Rightarrow> bool" where
  "closes s \<longleftrightarrow> s = [] \<or> (\<exists>r. s = 41 # r)"

lemma closes_symbol: "closes s \<Longrightarrow> at_symbol s"
  by (auto simp: closes_def at_symbol_def symbol_def strchr_None)

lemma at_symbol_Cons: "c \<in> {60, 124, 62, 38, 59, 40, 41} \<Longrightarrow> at_symbol (c # s)"
  by (auto simp: at_symbol_def symbol_def strchr_None)

lemma at_hd: "s \<noteq> [] \<Longrightarrow> at s = hd s"
  by (cases s) auto

lemma parseredirs_stop: "skip_ws s = s \<Longrightarrow> s = [] \<or> hd s \<notin> {60, 62} \<Longrightarrow> parseredirs c s = Inr (c, s)"
  by (subst parseredirs.simps) (auto simp: peek_same skip_ws_symbol at_hd)

lemma parsebacks_stop: "at_symbol s \<Longrightarrow> s = [] \<or> hd s \<noteq> 38 \<Longrightarrow> parsebacks c s = (c, s)"
  by (subst parsebacks.simps) (auto simp: peek_same skip_ws_symbol at_hd)

lemma line_of_pipe: "parsepipe n s = Inr (c, r) \<Longrightarrow> closes r \<Longrightarrow> parseline (Suc n) s = Inr (c, r)"
  by (auto simp: closes_def parsebacks_stop peek_same skip_ws_symbol at_symbol_def symbol_def strchr_None)

lemma pipe_of_exec: "parseexec n s = Inr (c, r) \<Longrightarrow> at_symbol r \<Longrightarrow> r = [] \<or> hd r \<noteq> 124 \<Longrightarrow> parsepipe (Suc n) s = Inr (c, r)"
  by (auto simp: peek_same skip_ws_symbol at_hd)

lemma exec_block:
  assumes "parseline n (skip_ws s) = Inr (c, 41 # r)" and "at_symbol r"
  shows "parseexec (Suc (Suc n)) (40 # s) = parseredirs c r"
  using assms by (simp add: peek_same skip_ws_symbol at_symbol_Cons gettoken_symbol at_hd)

lemma pp_skip: "is_cmd c \<Longrightarrow> closes r \<Longrightarrow> skip_ws (pp c @ r) = pp c @ r"
proof (cases c)
  case (Exec words)
  assume "is_cmd c" "closes r"
  then show ?thesis using Exec by (cases words) (simp_all add: skip_ws_word skip_ws_symbol closes_symbol)
qed (simp_all add: skip_ws_symbol at_symbol_Cons)

lemma parseredirs_exec: "is_cmd (Exec words) \<Longrightarrow> closes r \<Longrightarrow> parseredirs c (pp (Exec words) @ r) = Inr (c, pp (Exec words) @ r)"
proof (rule parseredirs_stop)
  assume a: "is_cmd (Exec words)" "closes r"
  show "skip_ws (pp (Exec words) @ r) = pp (Exec words) @ r" by (rule pp_skip[OF a])
  show "pp (Exec words) @ r = [] \<or> hd (pp (Exec words) @ r) \<notin> {60, 62}"
  proof (cases words)
    case (Cons w words')
    then obtain x t where w: "w = x # t" "word_byte x" using a(1) by (cases w) (auto simp: is_word_def)
    have "x \<notin> {60, 62}" using w(2) by (auto simp: word_byte_def symbol_def strchr_None)
    then show ?thesis using Cons w(1) by simp
  qed (use a(2) in \<open>auto simp: closes_def\<close>)
qed

lemma parseargs_pp:
  "is_cmd (Exec words) \<Longrightarrow> argc + length words < MAXARGS \<Longrightarrow> closes r \<Longrightarrow> suffix (pp (Exec words) @ r) line \<Longrightarrow>
    \<exists>ps'. parseargs argc (Exec ps) (pp (Exec words) @ r) = Inr (Exec (ps @ ps'), r) \<and> map (word_text line) ps' = words"
proof (induction words arbitrary: argc ps)
  case Nil
  then show ?case by (subst parseargs.simps) (auto simp: closes_def peek_same skip_ws_symbol at_symbol_def symbol_def strchr_None gettoken_end)
next
  case (Cons w words)
  let ?t = "pp (Exec words) @ r" and ?s = "pp (Exec (w # words)) @ r"
  let ?p = "(length (w @ 32 # ?t), length (32 # ?t))"
  have s: "?s = w @ 32 # ?t" by simp
  have ok: "is_word w" "is_cmd (Exec words)" using Cons.prems(1) by auto
  obtain x t where w: "w = x # t" "word_byte x" using ok(1) by (cases w) (auto simp: is_word_def)
  have x: "x \<notin> {124, 41, 38, 59}" using w(2) by (auto simp: word_byte_def symbol_def strchr_None)
  have pk: "peek [124, 41, 38, 59] ?s = (False, ?s)" unfolding s using skip_ws_word[OF ok(1)] x w(1) by (simp add: peek_same)
  have "skip_ws (32 # ?t) = ?t" using pp_skip[OF ok(2) Cons.prems(3)] by (simp add: skip_ws_def ws_def strchr_None)
  moreover have "\<not> word_byte 32" by (simp add: word_byte_def ws_def strchr_None)
  ultimately have gt: "gettoken ?s = (97, ?p, ?t)" unfolding s using gettoken_is_word[OF ok(1), of "32 # ?t"] by simp
  have sf: "suffix (w @ 32 # ?t) line" using Cons.prems(4) s by simp
  have "suffix ?t line" by (rule suffix_order.trans[OF _ sf]) (metis append.assoc append_Cons append_Nil suffixI)
  then obtain ps' where ps': "parseargs (argc + 1) (Exec (ps @ [?p])) ?t = Inr (Exec ((ps @ [?p]) @ ps'), r)" "map (word_text line) ps' = words"
    using Cons.IH[OF ok(2) _ Cons.prems(3), of "argc + 1" "ps @ [?p]"] Cons.prems(2) by auto
  have "parseargs argc (Exec ps) ?s = bindE (parseredirs (add_arg ?p (Exec ps)) ?t) (\<lambda>(cmd, s). parseargs (argc + 1) cmd s)"
    using pk gt Cons.prems(2) by (subst parseargs.simps) simp
  also have "\<dots> = Inr (Exec (ps @ [?p] @ ps'), r)" using parseredirs_exec[OF ok(2) Cons.prems(3)] ps'(1) by simp
  finally show ?case using ps'(2) word_text_middle[OF sf] by (intro exI[of _ "?p # ps'"]) simp
qed

text \<open>What is shown of each command: it is read back where a command ends.\<close>

definition reads :: "uchar list \<Rightarrow> uchar list cmd \<Rightarrow> bool" where
  "reads line c \<longleftrightarrow> (\<forall>r n. closes r \<longrightarrow> suffix (pp c @ r) line \<longrightarrow> 4 * length (pp c @ r) + 4 \<le> n \<longrightarrow>
     (\<exists>c'. parseline n (pp c @ r) = Inr (c', r) \<and> map_cmd (word_text line) c' = c))"

lemma reads_block:
  assumes "reads line c" and "is_cmd c" and "at_symbol r" and "suffix (40 # pp c @ 41 # r) line" and "4 * length (pp c @ 41 # r) + 6 \<le> n"
  shows "\<exists>c'. parseexec n (40 # pp c @ 41 # r) = parseredirs c' r \<and> map_cmd (word_text line) c' = c"
proof -
  obtain m where n: "n = Suc (Suc m)" "4 * length (pp c @ 41 # r) + 4 \<le> m"
    using assms(5) by (intro that[of "n - 2"]) auto
  have cl: "closes (41 # r)" by (simp add: closes_def)
  obtain c' where "parseline m (pp c @ 41 # r) = Inr (c', 41 # r)" "map_cmd (word_text line) c' = c"
    using assms(1) cl suffix_ConsD[OF assms(4)] n(2) unfolding reads_def by blast
  then show ?thesis using exec_block[of m "pp c @ 41 # r" c' r] pp_skip[OF assms(2) cl] assms(3) n(1) by auto
qed

lemma redir_pp:
  assumes "is_cmd (Redir c f m d)" and "closes r" and "suffix ((if m = RDONLY then [60] else if m = WRTRUNC then [62] else [62, 62]) @ f @ r) line"
  shows "\<exists>p. parseredirs c' ((if m = RDONLY then [60] else if m = WRTRUNC then [62] else [62, 62]) @ f @ r) = Inr (Redir c' p m d, r) \<and> word_text line p = f"
proof -
  let ?p = "(length (f @ r), length r)"
  have f: "is_word f" using assms(1) by simp
  obtain x t where x: "f = x # t" "word_byte x" using f by (cases f) (auto simp: is_word_def)
  then have "x \<noteq> 62" by (auto simp: word_byte_def symbol_def strchr_None)
  have sk: "skip_ws (f @ r) = f @ r" "skip_ws r = r" using skip_ws_word[OF f] skip_ws_symbol closes_symbol[OF assms(2)] by auto
  have "r = [] \<or> \<not> word_byte (hd r)" using assms(2) by (auto simp: closes_def word_byte_def symbol_def strchr_None)
  then have g: "gettoken (f @ r) = (97, ?p, r)" using gettoken_is_word[OF f] sk(2) by simp
  have stop: "parseredirs c2 r = Inr (c2, r)" for c2 using parseredirs_stop[OF sk(2)] assms(2) by (auto simp: closes_def)
  have tok: "gettoken (62 # f @ r) = (62, (Suc (length (f @ r)), length (f @ r)), f @ r)"
    "gettoken (62 # 62 # f @ r) = (43, (Suc (Suc (length (f @ r))), length (f @ r)), f @ r)"
    using sk(1) x(1) \<open>x \<noteq> 62\<close> by (simp_all add: gettoken_greater)
  have "suffix (f @ r) line" using assms(3) by (auto split: if_splits dest!: suffix_ConsD)
  then have "word_text line ?p = f" by (rule word_text_middle)
  moreover have "parseredirs c' ((if m = RDONLY then [60] else if m = WRTRUNC then [62] else [62, 62]) @ f @ r) = Inr (Redir c' ?p m d, r)"
    using assms(1) g stop tok sk(1)
    by (subst parseredirs.simps) (auto simp: peek_same skip_ws_symbol at_symbol_Cons gettoken_symbol)
  ultimately show ?thesis by blast
qed

lemma reads_block_stop:
  assumes "reads line c" and "is_cmd c" and "at_symbol r" and "r = [] \<or> hd r \<notin> {60, 62}" and "suffix (40 # pp c @ 41 # r) line"
    and "4 * length (pp c @ 41 # r) + 6 \<le> n"
  shows "\<exists>c'. parseexec n (40 # pp c @ 41 # r) = Inr (c', r) \<and> map_cmd (word_text line) c' = c"
  using reads_block[OF assms(1-3,5,6)] parseredirs_stop[OF skip_ws_symbol[OF assms(3)] assms(4)] by auto

lemma reads_block_pipe:
  assumes "reads line c" and "is_cmd c" and "at_symbol r" and "r = [] \<or> hd r \<notin> {60, 62, 124}" and "suffix (40 # pp c @ 41 # r) line"
    and "4 * length (pp c @ 41 # r) + 7 \<le> n"
  shows "\<exists>c'. parsepipe n (40 # pp c @ 41 # r) = Inr (c', r) \<and> map_cmd (word_text line) c' = c"
proof -
  obtain m where n: "n = Suc m" "4 * length (pp c @ 41 # r) + 6 \<le> m" using assms(6) by (intro that[of "n - 1"]) auto
  have r: "r = [] \<or> hd r \<notin> {60, 62}" "r = [] \<or> hd r \<noteq> 124" using assms(4) by auto
  show ?thesis using reads_block_stop[OF assms(1-3) r(1) assms(5) n(2)] pipe_of_exec[OF _ assms(3) r(2)] n(1) by blast
qed

lemma reads_block_line:
  assumes "reads line c" and "is_cmd c" and "closes r" and "suffix (40 # pp c @ 41 # r) line" and "4 * length (pp c @ 41 # r) + 8 \<le> n"
  shows "\<exists>c'. parseline n (40 # pp c @ 41 # r) = Inr (c', r) \<and> map_cmd (word_text line) c' = c"
proof -
  obtain m where n: "n = Suc m" "4 * length (pp c @ 41 # r) + 7 \<le> m" using assms(5) by (intro that[of "n - 1"]) auto
  have r: "r = [] \<or> hd r \<notin> {60, 62, 124}" using assms(3) by (auto simp: closes_def)
  show ?thesis using reads_block_pipe[OF assms(1,2) closes_symbol[OF assms(3)] r assms(4) n(2)] line_of_pipe[OF _ assms(3)] n(1) by blast
qed

lemma reads_exec: "is_cmd (Exec words) \<Longrightarrow> reads line (Exec words)"
  unfolding reads_def
proof (intro allI impI)
  fix r n assume w: "is_cmd (Exec words)" and r: "closes r" "suffix (pp (Exec words) @ r) line" and n: "4 * length (pp (Exec words) @ r) + 4 \<le> n"
  let ?s = "pp (Exec words) @ r"
  obtain m where m: "n = Suc (Suc (Suc m))" using n by (intro that[of "n - 3"]) auto
  have "\<not> (?s \<noteq> [] \<and> at ?s = 40)"
  proof (cases words)
    case (Cons v words')
    then obtain x t where v: "v = x # t" "word_byte x" using w by (cases v) (auto simp: is_word_def)
    then have "x \<noteq> 40" by (auto simp: word_byte_def symbol_def strchr_None)
    then show ?thesis using Cons v(1) by simp
  qed (use r(1) in \<open>auto simp: closes_def\<close>)
  then have pk: "peek [40] ?s = (False, ?s)" using pp_skip[OF w r(1)] by (simp add: peek_same)
  obtain ps where ps: "parseargs 0 (Exec []) ?s = Inr (Exec ([] @ ps), r)" "map (word_text line) ps = words"
    using parseargs_pp[OF w _ r, of 0 "[]"] w by auto
  have "parseexec (Suc m) ?s = Inr (Exec ps, r)" using pk parseredirs_exec[OF w r(1)] ps(1) by simp
  then have "parseline n ?s = Inr (Exec ps, r)"
    using pipe_of_exec[of "Suc m" ?s "Exec ps" r] line_of_pipe[of "Suc (Suc m)" ?s "Exec ps" r] r(1) closes_symbol m by (auto simp: closes_def)
  then show "\<exists>c'. parseline n ?s = Inr (c', r) \<and> map_cmd (word_text line) c' = Exec words" using ps(2) by auto
qed

lemma reads_redir:
  assumes c: "reads line c" "is_cmd (Redir c f m d)"
  shows "reads line (Redir c f m d)"
  unfolding reads_def
proof (intro allI impI)
  fix r n assume r: "closes r" "suffix (pp (Redir c f m d) @ r) line" and n: "4 * length (pp (Redir c f m d) @ r) + 4 \<le> n"
  let ?o = "(if m = RDONLY then [60] else if m = WRTRUNC then [62] else [62, 62]) @ f @ r"
  have s: "pp (Redir c f m d) @ r = 40 # pp c @ 41 # ?o" by simp
  obtain k where k: "n = Suc (Suc k)" "4 * length (pp c @ 41 # ?o) + 6 \<le> k" using n unfolding s by (intro that[of "n - 2"]) auto
  have sf: "suffix (40 # pp c @ 41 # ?o) line" using r(2) unfolding s .
  have so: "suffix ?o line" by (rule suffix_order.trans[OF _ sf]) (simp add: suffix_def)
  have o: "at_symbol ?o" by (auto intro!: at_symbol_Cons)
  have c': "is_cmd c" using c(2) by simp
  obtain c1 where c1: "parseexec k (40 # pp c @ 41 # ?o) = parseredirs c1 ?o" "map_cmd (word_text line) c1 = c"
    using reads_block[OF c(1) c' o sf k(2)] by blast
  obtain p where p: "parseredirs c1 ?o = Inr (Redir c1 p m d, r)" "word_text line p = f" using redir_pp[OF c(2) r(1) so] by blast
  have "parseexec k (40 # pp c @ 41 # ?o) = Inr (Redir c1 p m d, r)" using c1(1) p(1) by simp
  then have "parseline n (40 # pp c @ 41 # ?o) = Inr (Redir c1 p m d, r)"
    unfolding k(1) using r(1) closes_symbol by (intro line_of_pipe pipe_of_exec) (auto simp: closes_def)
  then show "\<exists>c'. parseline n (pp (Redir c f m d) @ r) = Inr (c', r) \<and> map_cmd (word_text line) c' = Redir c f m d"
    unfolding s using c1(2) p(2) by auto
qed

lemma reads_pipe:
  assumes l: "reads line l" "is_cmd l" and r: "reads line r" "is_cmd r"
  shows "reads line (Pipe l r)"
  unfolding reads_def
proof (intro allI impI)
  fix e n assume e: "closes e" "suffix (pp (Pipe l r) @ e) line" and n: "4 * length (pp (Pipe l r) @ e) + 4 \<le> n"
  let ?t = "40 # pp r @ 41 # e"
  have s: "pp (Pipe l r) @ e = 40 # pp l @ 41 # 124 # ?t" by simp
  obtain k where k: "n = Suc (Suc k)" "4 * length (pp l @ 41 # 124 # ?t) + 6 \<le> k" "4 * length (pp r @ 41 # e) + 7 \<le> k"
    using n unfolding s by (intro that[of "n - 2"]) auto
  have sf: "suffix (40 # pp l @ 41 # 124 # ?t) line" using e(2) unfolding s .
  have st: "suffix ?t line" by (rule suffix_order.trans[OF _ sf]) (simp add: suffix_def)
  have sy: "at_symbol (124 # ?t)" "at_symbol ?t" by (auto intro!: at_symbol_Cons)
  obtain l' where l': "parseexec k (40 # pp l @ 41 # 124 # ?t) = Inr (l', 124 # ?t)" "map_cmd (word_text line) l' = l"
    using reads_block_stop[OF l sy(1) _ sf k(2)] by auto
  have ee: "e = [] \<or> hd e \<notin> {60, 62, 124}" using e(1) by (auto simp: closes_def)
  obtain r' where r': "parsepipe k ?t = Inr (r', e)" "map_cmd (word_text line) r' = r"
    using reads_block_pipe[OF r closes_symbol[OF e(1)] ee st k(3)] by blast
  have "parsepipe (Suc k) (40 # pp l @ 41 # 124 # ?t) = Inr (Pipe l' r', e)"
    using l'(1) r'(1) sy by (simp add: peek_same skip_ws_symbol gettoken_symbol)
  then have "parseline n (pp (Pipe l r) @ e) = Inr (Pipe l' r', e)" unfolding s k(1) using e(1) by (rule line_of_pipe)
  then show "\<exists>c'. parseline n (pp (Pipe l r) @ e) = Inr (c', e) \<and> map_cmd (word_text line) c' = Pipe l r" using l'(2) r'(2) by auto
qed

lemma reads_list:
  assumes l: "reads line l" "is_cmd l" and r: "reads line r" "is_cmd r"
  shows "reads line (List l r)"
  unfolding reads_def
proof (intro allI impI)
  fix e n assume e: "closes e" "suffix (pp (List l r) @ e) line" and n: "4 * length (pp (List l r) @ e) + 4 \<le> n"
  let ?t = "40 # pp r @ 41 # e"
  have s: "pp (List l r) @ e = 40 # pp l @ 41 # 59 # ?t" by simp
  obtain k where k: "n = Suc k" "4 * length (pp l @ 41 # 59 # ?t) + 7 \<le> k" "4 * length (pp r @ 41 # e) + 8 \<le> k"
    using n unfolding s by (intro that[of "n - 1"]) auto
  have sf: "suffix (40 # pp l @ 41 # 59 # ?t) line" using e(2) unfolding s .
  have st: "suffix ?t line" by (rule suffix_order.trans[OF _ sf]) (simp add: suffix_def)
  have sy: "at_symbol (59 # ?t)" "at_symbol ?t" by (auto intro!: at_symbol_Cons)
  obtain l' where l': "parsepipe k (40 # pp l @ 41 # 59 # ?t) = Inr (l', 59 # ?t)" "map_cmd (word_text line) l' = l"
    using reads_block_pipe[OF l sy(1) _ sf k(2)] by auto
  obtain r' where r': "parseline k ?t = Inr (r', e)" "map_cmd (word_text line) r' = r"
    using reads_block_line[OF r e(1) st k(3)] by blast
  have "parseline n (pp (List l r) @ e) = Inr (List l' r', e)"
    unfolding s k(1) using l'(1) r'(1) sy by (simp add: parsebacks_stop peek_same skip_ws_symbol gettoken_symbol)
  then show "\<exists>c'. parseline n (pp (List l r) @ e) = Inr (c', e) \<and> map_cmd (word_text line) c' = List l r" using l'(2) r'(2) by auto
qed

lemma reads_back:
  assumes c: "reads line c" "is_cmd c"
  shows "reads line (Back c)"
  unfolding reads_def
proof (intro allI impI)
  fix e n assume e: "closes e" "suffix (pp (Back c) @ e) line" and n: "4 * length (pp (Back c) @ e) + 4 \<le> n"
  have s: "pp (Back c) @ e = 40 # pp c @ 41 # 38 # e" by simp
  obtain k where k: "n = Suc k" "4 * length (pp c @ 41 # 38 # e) + 7 \<le> k" using n unfolding s by (intro that[of "n - 1"]) auto
  have sy: "at_symbol (38 # e)" by (auto intro!: at_symbol_Cons)
  obtain c' where c': "parsepipe k (40 # pp c @ 41 # 38 # e) = Inr (c', 38 # e)" "map_cmd (word_text line) c' = c"
    using reads_block_pipe[OF c sy _ _ k(2)] e(2) unfolding s by auto
  have se: "skip_ws e = e" using skip_ws_symbol closes_symbol e(1) by blast
  have "parsebacks c' (38 # e) = parsebacks (Back c') e"
    using sy se by (subst parsebacks.simps) (simp add: peek_same skip_ws_symbol gettoken_symbol)
  also have "\<dots> = (Back c', e)" using e(1) by (intro parsebacks_stop closes_symbol) (auto simp: closes_def)
  finally have "parseline n (pp (Back c) @ e) = Inr (Back c', e)"
    unfolding s k(1) using c'(1) e(1) se by (auto simp: peek_same closes_def)
  then show "\<exists>c'. parseline n (pp (Back c) @ e) = Inr (c', e) \<and> map_cmd (word_text line) c' = Back c" using c'(2) by auto
qed

lemma reads_pp: "is_cmd c \<Longrightarrow> reads line c"
proof (induction c)
  case (Redir c f m d)
  then show ?case using reads_redir[of line c f m d] by simp
qed (simp_all add: reads_exec reads_pipe reads_list reads_back)

text \<open>
  C17. A command printed in parentheses is read back as itself: for every command with at most nine arguments to each program, whatever its
  nesting, the parser returns on its text the same pipes, lists, background commands and redirections, over the same words.
\<close>

theorem parsecmd_pp:
  assumes "is_cmd c"
  shows "\<exists>c' buf. parsecmd (pp c) = Inr (c', buf) \<and> map_cmd (word_text (pp c)) c' = c"
proof -
  have "closes []" by (simp add: closes_def)
  then obtain c' where "parseline (4 * length (pp c) + 8) (pp c) = Inr (c', [])" "map_cmd (word_text (pp c)) c' = c"
    using reads_pp[OF assms, of "pp c", unfolded reads_def, rule_format, of "[]" "4 * length (pp c) + 8"] by auto
  then show ?thesis by (simp add: parsecmd_def peek_def skip_ws_def)
qed

theorem parsecmd_pp_witness:
  "\<exists>c' buf. parsecmd (pp (Pipe (Exec [[99, 97, 116], [102]]) (Redir (Exec [[119, 99]]) [111] WRTRUNC 1))) = Inr (c', buf) \<and>
     map_cmd (word_text (pp (Pipe (Exec [[99, 97, 116], [102]]) (Redir (Exec [[119, 99]]) [111] WRTRUNC 1)))) c' =
       Pipe (Exec [[99, 97, 116], [102]]) (Redir (Exec [[119, 99]]) [111] WRTRUNC 1)"
  by (rule parsecmd_pp) (simp add: is_word_def word_byte_def ws_def symbol_def strchr_None)

end
