(* ===== verification/ShRun.thy ===== *)
theory ShRun
  imports Sh
begin

text \<open>
  \<^verbatim>\<open>runcmd\<close>, \<^verbatim>\<open>getcmd\<close> and the loop of \<^verbatim>\<open>main\<close> of \<^verbatim>\<open>user/sh.c\<close>. Running a command is the tree of the system
  calls it makes: a call whose result the shell looks at has a subtree for every result. What the programs see of it is the table of
  descriptors they are started with.
\<close>

section \<open>System calls\<close>

datatype usys =
    UExit int
  | UExec "uchar list" "uchar list list" usys
  | UClose nat usys
  | UOpen "uchar list" uint "int \<Rightarrow> usys"
  | UPipe "int \<Rightarrow> nat \<Rightarrow> nat \<Rightarrow> usys"
  | UDup nat usys
  | UFork "int \<Rightarrow> usys"
  | UWait usys
  | UChdir "uchar list" "int \<Rightarrow> usys"
  | UWrite nat "uchar list" usys
  | UFprintf nat string "uchar list list" usys

section \<open>Running a command\<close>

definition panic_user :: "string \<Rightarrow> usys" where
  "panic_user s = UFprintf 2 s [] (UExit 1)"

definition fork1 :: "(int \<Rightarrow> usys) \<Rightarrow> usys" where
  "fork1 k = UFork (\<lambda>pid. if pid = - 1 then panic_user ''fork'' else k pid)"

fun runcmd :: "uchar list cmd \<Rightarrow> usys" where
  "runcmd (Exec []) = UExit 1"
| "runcmd (Exec (w # words)) = UExec w (w # words) (UFprintf 2 ''exec %s failed'' [w] (UExit 0))"
| "runcmd (Redir c f m d) =
     UClose d (UOpen f m (\<lambda>r. if r < 0 then UFprintf 2 ''open %s failed'' [f] (UExit 1) else runcmd c))"
| "runcmd (List l r) = fork1 (\<lambda>pid. if pid = 0 then runcmd l else UWait (runcmd r))"
| "runcmd (Pipe l r) =
     UPipe (\<lambda>ret p0 p1. if ret < 0 then panic_user ''pipe'' else
       fork1 (\<lambda>pid. if pid = 0 then UClose 1 (UDup p1 (UClose p0 (UClose p1 (runcmd l)))) else
       fork1 (\<lambda>pid. if pid = 0 then UClose 0 (UDup p0 (UClose p0 (UClose p1 (runcmd r)))) else
         UClose p0 (UClose p1 (UWait (UWait (UExit 0)))))))"
| "runcmd (Back c) = fork1 (\<lambda>pid. if pid = 0 then runcmd c else UExit 0)"

text \<open>\<^verbatim>\<open>runcmd(parsecmd(buf))\<close>: the strings of the command are read in the buffer.\<close>

definition run_line :: "uchar list \<Rightarrow> usys" where
  "run_line s =
     (case parsecmd s of
        Inr (cmd, buf) \<Rightarrow> runcmd (map_cmd (\<lambda>w. string_at buf (fst w)) cmd)
      | Inl (Panic m) \<Rightarrow> panic_user m
      | Inl _ \<Rightarrow> UExit 1)"

text \<open>The string \<^verbatim>\<open>getcmd\<close> leaves in the buffer of 100 bytes, and the input left; an empty string is the end.\<close>

definition getcmd :: "uchar list \<Rightarrow> uchar list \<times> uchar list" where
  "getcmd inp = (case gets 100 inp of (line, rest) \<Rightarrow> (takeWhile (\<lambda>c. c \<noteq> 0) line, rest))"

lemma getcmd_less: "(b, rest) = getcmd inp \<Longrightarrow> b \<noteq> [] \<Longrightarrow> length rest < length inp"
proof -
  assume a: "(b, rest) = getcmd inp" "b \<noteq> []"
  obtain line r where g: "gets_loop 99 inp = (line, r)" by fastforce
  then have "b = takeWhile (\<lambda>c. c \<noteq> 0) line" "rest = r" using a(1) by (simp_all add: getcmd_def gets_def)
  then show ?thesis using gets_loop_spec[OF g] a(2) by (cases line) auto
qed

function sh_loop :: "uchar list \<Rightarrow> usys" where
  "sh_loop inp =
     UWrite 2 [36, 32]
       (case getcmd inp of (buf, rest) \<Rightarrow>
          if buf = [] then UExit 0
          else if take 3 buf = [99, 100, 32] then
            UChdir (drop 3 (butlast buf)) (\<lambda>r. if r < 0 then UFprintf 2 ''cannot cd %s'' [drop 3 (butlast buf)] (sh_loop rest) else sh_loop rest)
          else fork1 (\<lambda>pid. if pid = 0 then run_line buf else UWait (sh_loop rest)))"
  by pat_completeness auto
termination
  by (relation "measure length") (auto dest: getcmd_less)

declare sh_loop.simps [simp del]

section \<open>Descriptors\<close>

text \<open>
  What a descriptor stands for, and what the kernel does for the calls above: the lowest free descriptor is given out, a child spawned with
  the table of its parent, a file opens or not, a program can be run or not. \<open>run\<close> lists the programs that are started,
  with their arguments and their tables; \<open>n\<close> counts the pipes.
\<close>

datatype obj = Base nat | Opened "uchar list" uint | PipeR nat | PipeW nat

type_synonym fds = "obj option list"

fun lowest :: "fds \<Rightarrow> nat option" where
  "lowest [] = None"
| "lowest (None # _) = Some 0"
| "lowest (Some _ # ofile) = map_option Suc (lowest ofile)"

definition install :: "obj \<Rightarrow> fds \<Rightarrow> (nat \<times> fds) option" where
  "install ob ofile = map_option (\<lambda>i. (i, ofile[i := Some ob])) (lowest ofile)"

primrec run :: "(uchar list \<Rightarrow> uint \<Rightarrow> bool) \<Rightarrow> (uchar list \<Rightarrow> bool) \<Rightarrow> usys \<Rightarrow> fds \<Rightarrow> nat \<Rightarrow> (uchar list list \<times> fds) list \<times> nat" where
  "run opens runs (UExit c) ofile n = ([], n)"
| "run opens runs (UExec f argv k) ofile n = (if runs f then ([(argv, ofile)], n) else run opens runs k ofile n)"
| "run opens runs (UClose d k) ofile n = run opens runs k (ofile[d := None]) n"
| "run opens runs (UOpen f m k) ofile n =
     (case install (Opened f m) ofile of
        Some (i, ofile') \<Rightarrow> if opens f m then run opens runs (k (int i)) ofile' n else run opens runs (k (- 1)) ofile n
      | None \<Rightarrow> run opens runs (k (- 1)) ofile n)"
| "run opens runs (UPipe k) ofile n =
     (case install (PipeR n) ofile of
        None \<Rightarrow> run opens runs (k (- 1) 0 0) ofile n
      | Some (i, ofile1) \<Rightarrow>
          (case install (PipeW n) ofile1 of
             None \<Rightarrow> run opens runs (k (- 1) 0 0) ofile n
           | Some (j, ofile2) \<Rightarrow> run opens runs (k 0 i j) ofile2 (n + 1)))"
| "run opens runs (UDup d k) ofile n =
     (case ofile ! d of
        None \<Rightarrow> run opens runs k ofile n
      | Some ob \<Rightarrow>
          (case install ob ofile of None \<Rightarrow> run opens runs k ofile n | Some (i, ofile') \<Rightarrow> run opens runs k ofile' n))"
| "run opens runs (UFork k) ofile n =
     (case run opens runs (k 0) ofile n of (t, n) \<Rightarrow>
      case run opens runs (k 1) ofile n of (t', n) \<Rightarrow> (t @ t', n))"
| "run opens runs (UWait k) ofile n = run opens runs k ofile n"
| "run opens runs (UChdir f k) ofile n = run opens runs (k 0) ofile n"
| "run opens runs (UWrite d bs k) ofile n = run opens runs k ofile n"
| "run opens runs (UFprintf d s as k) ofile n = run opens runs k ofile n"

text \<open>The meaning of a command: the programs it spawned, each with its input and its output.\<close>

fun spawned :: "(uchar list \<Rightarrow> uint \<Rightarrow> bool) \<Rightarrow> (uchar list \<Rightarrow> bool) \<Rightarrow> uchar list cmd \<Rightarrow> obj \<Rightarrow> obj \<Rightarrow> nat \<Rightarrow> (uchar list list \<times> obj \<times> obj) list \<times> nat" where
  "spawned opens runs (Exec words) i out n = (if words \<noteq> [] \<and> runs (hd words) then [(words, i, out)] else [], n)"
| "spawned opens runs (Redir c f m d) i out n =
     (if \<not> opens f m then ([], n)
      else if d = 0 then spawned opens runs c (Opened f m) out n
      else spawned opens runs c i (Opened f m) n)"
| "spawned opens runs (Pipe l r) i out n =
     (case spawned opens runs l i (PipeW n) (n + 1) of (t, n') \<Rightarrow>
      case spawned opens runs r (PipeR n) out n' of (t', n'') \<Rightarrow> (t @ t', n''))"
| "spawned opens runs (List l r) i out n =
     (case spawned opens runs l i out n of (t, n) \<Rightarrow> case spawned opens runs r i out n of (t', n) \<Rightarrow> (t @ t', n))"
| "spawned opens runs (Back c) i out n = spawned opens runs c i out n"

text \<open>A table with the three standard descriptors open, and no other.\<close>

definition std :: "obj \<Rightarrow> obj \<Rightarrow> obj \<Rightarrow> fds" where
  "std i out err = [Some i, Some out, Some err] @ replicate 13 None"

section \<open>A line is run as it reads\<close>

fun redirs_ok :: "'w cmd \<Rightarrow> bool" where
  "redirs_ok (Exec words) \<longleftrightarrow> True"
| "redirs_ok (Redir c f m d) \<longleftrightarrow> redirs_ok c \<and> (d = 0 \<or> d = 1)"
| "redirs_ok (Pipe l r) \<longleftrightarrow> redirs_ok l \<and> redirs_ok r"
| "redirs_ok (List l r) \<longleftrightarrow> redirs_ok l \<and> redirs_ok r"
| "redirs_ok (Back c) \<longleftrightarrow> redirs_ok c"

lemma cmd_ok_redirs: "cmd_ok line c \<Longrightarrow> redirs_ok (map_cmd f c)"
  by (induction c) auto

lemma std_simps:
  "install ob (std i out err) = Some (3, (std i out err)[3 := Some ob])"
  "install ob ((std i out err)[3 := Some ob']) = Some (4, (std i out err)[3 := Some ob', 4 := Some ob])"
  "install ob ((std i out err)[0 := None]) = Some (0, std ob out err)"
  "install ob ((std i out err)[Suc 0 := None]) = Some (1, std i ob err)"
  "install ob ((std i out err)[3 := Some r, 4 := Some w, Suc 0 := None]) = Some (1, (std i ob err)[3 := Some r, 4 := Some w])"
  "install ob ((std i out err)[3 := Some r, 4 := Some w, 0 := None]) = Some (0, (std ob out err)[3 := Some r, 4 := Some w])"
  "(std i out err)[3 := Some r, 4 := Some w] ! 4 = Some w"
  "(std i out err)[3 := Some r, 4 := Some w] ! 3 = Some r"
  "(std i out err)[3 := Some r, 4 := Some w, 3 := None, 4 := None] = std i out err"
  by (simp_all add: std_def install_def eval_nat_numeral)

lemma run_runcmd:
  "redirs_ok c \<Longrightarrow> run opens runs (runcmd c) (std i out err) n =
     map_prod (map (\<lambda>(argv, i, out). (argv, std i out err))) id (spawned opens runs c i out n)"
proof (induction c arbitrary: i out n)
  case (Exec words)
  then show ?case by (cases words) auto
next
  case (Redir c f m d)
  then show ?case by (auto simp: std_simps)
next
  case (Pipe l r)
  then show ?case by (auto simp: std_simps fork1_def panic_user_def split: prod.splits)
qed (auto simp: fork1_def split: prod.splits)

text \<open>
  C19. The shell runs a line the way it reads: unless the line is a syntax error, the programs started for it are the programs of the command,
  each with the words of the line as its arguments, its input and output wired to the pipes and files the command names, the descriptors
  0, 1 and 2 open and no other, so that no end of a pipe is left open in a program that does not use it.
\<close>

theorem run_line_correct:
  assumes "0 \<notin> set line"
  shows "(\<exists>m. parsecmd line = Inl (Panic m) \<and> run opens runs (run_line line) (std i out err) n = ([], n)) \<or>
    (\<exists>cmd buf. parsecmd line = Inr (cmd, buf) \<and>
       run opens runs (run_line line) (std i out err) n =
         map_prod (map (\<lambda>(argv, i, out). (argv, std i out err))) id (spawned opens runs (map_cmd (word_text line) cmd) i out n))"
proof -
  have "run opens runs (run_line line) (std i out err) n =
      map_prod (map (\<lambda>(argv, i, out). (argv, std i out err))) id (spawned opens runs (map_cmd (word_text line) c) i out n)"
    if c: "parsecmd line = Inr (c, nulterminate c (line @ [0]))" "cmd_ok line c" for c
  proof -
    have "map_cmd (\<lambda>w. string_at (nulterminate c (line @ [0])) (fst w)) c = map_cmd (word_text line) c"
      using string_of_word[of "cmd_words c" line] cmd_ok_words[OF c(2)] assms
      by (intro cmd.map_cong refl) (simp add: nulterminate_fold set_cmd_words)
    then show ?thesis using c by (simp add: run_line_def run_runcmd cmd_ok_redirs)
  qed
  moreover have "run opens runs (run_line line) (std i out err) n = ([], n)" if "parsecmd line = Inl (Panic m)" for m
    using that by (simp add: run_line_def panic_user_def)
  ultimately show ?thesis using parsecmd_result[of line] by blast
qed

text \<open>The line \<^verbatim>\<open>a|b>c\<close>: one program writes to the pipe, the other reads from it and writes to the file.\<close>

theorem run_line_correct_witness:
  "run (\<lambda>f m. True) (\<lambda>f. True) (run_line [97, 124, 98, 62, 99]) (std (Base 0) (Base 1) (Base 2)) 0 =
     ([([[97]], std (Base 0) (PipeW 0) (Base 2)), ([[98]], std (PipeR 0) (Opened [99] WRTRUNC) (Base 2))], 1)"
proof -
  have e: "parsecmd [97, 124, 98, 62, 99] = Inr (Pipe (Exec [(5, 4)]) (Redir (Exec [(3, 2)]) (1, 0) WRTRUNC 1), [97, 0, 98, 0, 99, 0])" by code_simp
  show ?thesis using run_line_correct[of "[97, 124, 98, 62, 99]" "\<lambda>f m. True" "\<lambda>f. True" "Base 0" "Base 1" "Base 2" 0] e
    by (simp add: word_text_def)
qed

end
