(* ===== verification/Spec2Isabelle.thy ===== *)
theory Spec2Isabelle
  imports Syscall FsDir FsTable Locks Sched Console Virtio Printf Grep ShRun
begin

text \<open>
  A verification library for the xv6 kernel for RISC-V (\<^verbatim>\<open>src/kernel\<close>) and its user programs (\<^verbatim>\<open>src/user\<close>).

  \<^bold>\<open>The program.\<close> The kernel hands out physical pages (\<^verbatim>\<open>kalloc.c\<close>), builds page tables and address spaces from them (\<^verbatim>\<open>vm.c\<close>) and copies
  between itself and user memory through them. Disk blocks go through a cache (\<^verbatim>\<open>bio.c\<close>), whose misses are served by the virtio driver
  (\<^verbatim>\<open>virtio_disk.c\<close>); the log (\<^verbatim>\<open>log.c\<close>) groups changes of cached blocks into transactions; the file system (\<^verbatim>\<open>fs.c\<close>) keeps a bitmap, inodes,
  directories and paths in the blocks. Open files and pipes (\<^verbatim>\<open>file.c\<close>, \<^verbatim>\<open>pipe.c\<close>), processes (\<^verbatim>\<open>proc.c\<close>), program loading (\<^verbatim>\<open>exec.c\<close>), the system
  calls (\<^verbatim>\<open>sysfile.c\<close>, \<^verbatim>\<open>sysproc.c\<close>, \<^verbatim>\<open>syscall.c\<close>) and the trap handlers (\<^verbatim>\<open>trap.c\<close>) stand on these; the console (\<^verbatim>\<open>console.c\<close>, \<^verbatim>\<open>uart.c\<close>) is a device
  file. The shell, the C library and \<^emph>\<open>grep\<close> are the larger user programs.

  \<^bold>\<open>State and effects.\<close> The state of the kernel is one record that grows with the components: \<open>bio\<close> (cache and disk), \<open>log\<close>, \<open>fs\<close> (inode
  table, and the memory and page table of the running process), \<open>files\<close>, \<open>procs\<close>, \<open>kernel\<close> and \<open>dev_kernel\<close>. Every C function is one
  definition with its name, from a state to an error or a result with the next state. The errors (\<open>kerr\<close> in \<open>Prelude\<close>) are \<^verbatim>\<open>panic\<close>, a call that
  would sleep, fuel, and undefined behaviour such as a write past an array. Integers are words of their width; memory is bytes at 64-bit
  addresses, so the free list, page tables and trapframes are modelled where the code keeps them. A function runs as if alone, which the locks it holds
  ensure; where the interleaving is the point, the code is a step relation instead: spin locks, sleep and wakeup, the disk driver with its device,
  the runs of the log, and the users of the inode table.

  \<^bold>\<open>Theories.\<close>
  \<^item> \<open>Prelude\<close>, \<open>Block\<close>, \<open>Strings\<close>, \<open>Ring\<close>: results, byte memory, integers in blocks, \<^verbatim>\<open>string.c\<close>; the locale \<open>ring\<close> of ring buffers
    with wrapping counters, interpreted for the pipe, the console, the UART and the virtio rings.
  \<^item> \<open>Kalloc\<close>: \<^verbatim>\<open>kalloc.c\<close>. The free list is a list of distinct pages; the locale \<open>page_pool\<close> is what its clients rely on.
  \<^item> \<open>PageTable\<close>, \<open>Uvm\<close>, \<open>UvmFree\<close>, \<open>UvmProps\<close>, \<open>Copy\<close>: \<^verbatim>\<open>vm.c\<close>. Mapping, growth, copying and freeing of address spaces with every
    page accounted for, also when memory runs out half way; copies to and from user memory and their error returns.
  \<^item> \<open>Bio\<close>: \<^verbatim>\<open>bio.c\<close>. The linked list of buffers refines a list in order of use; the locale \<open>buffer_cache\<close> gives the log its view of blocks.
  \<^item> \<open>Log\<close>: \<^verbatim>\<open>log.c\<close>. A crash after any prefix of the disk writes of a commit, or of a recovery, leaves all or none of the transaction; the
    invariant of all runs. The locale \<open>transaction\<close> is the interface the file system proofs use.
  \<^item> \<open>Fs\<close>: all of \<^verbatim>\<open>fs.c\<close>. \<open>FsBlocks\<close> treats the bitmap, \<open>FsMap\<close> the blocks of an inode, \<open>FsRead\<close>, \<open>FsWrite\<close> and \<open>FsInode\<close> the contents
    of files and inodes on disk. \<open>FsProps\<close>: writes are correct, are read back, and stay within the blocks reserved for them. \<open>FsDir\<close>: a
    linked name is found again. \<open>FsTrunc\<close>: the last reference to a file without a name frees exactly its blocks. \<open>FsTable\<close>: reference counts.
  \<^item> \<open>Pipe\<close>, \<open>File\<close>, \<open>Proc\<close>, \<open>Exec\<close>, \<open>Sysfile\<close>, \<open>Syscall\<close>: pipes, open files, processes, program loading, system calls and traps. A
    pipe is a bounded queue under every interleaving of its users. The other five hold definitions only, over the components above.
  \<^item> \<open>Locks\<close>, \<open>Sched\<close>: \<^verbatim>\<open>spinlock.c\<close> and the scheduling half of \<^verbatim>\<open>proc.c\<close> as interleaved steps: mutual exclusion and progress, no lost wakeup,
    fairness of a pass of the scheduler.
  \<^item> \<open>Console\<close>, \<open>Virtio\<close>: the line editor and the transmit ring as refinements of a list of lines and of a queue; no descriptor of the disk is shared
    by two requests in any interleaving with the device.
  \<^item> \<open>Ulib\<close>, \<open>Printf\<close>, \<open>Grep\<close>, \<open>Sh\<close>, \<open>ShRun\<close>: the user side. The digits printed and read back, the matcher against the language of a pattern, the
    parser of the shell against a printer of commands, and the processes and pipes that running a line creates.

  \<^bold>\<open>Bounds and fuel.\<close> Constants are those of the source. Most loops are functions with a termination proof. Four are given a number of rounds: \<open>freerange\<close>
    (as many as there are pages), the searches of \<open>bget\<close> (the number of buffers and one for the head of the list), \<open>freewalk\<close> (the three
    levels of a page table) and the shell's parser (a multiple of the length of the line). The properties of these operations state that they return, so the fuel is enough.
    The properties of files assume a transaction with room in the log; \<open>writei_fits\<close> shows that the writes of \<^verbatim>\<open>filewrite\<close> have it.

  \<^bold>\<open>Parameters.\<close> The read and write routines of a device, what \<^verbatim>\<open>read\<close> returns to \<^emph>\<open>grep\<close>, the addresses the linker assigns and the register values at a
  trap are arguments of the definitions that use them.

  \<^bold>\<open>Not modelled.\<close> Assembly and boot code (\<^verbatim>\<open>entry.S\<close>, \<^verbatim>\<open>start.c\<close>, \<^verbatim>\<open>main.c\<close>, \<^verbatim>\<open>swtch.S\<close>, \<^verbatim>\<open>trampoline.S\<close>, \<^verbatim>\<open>kernelvec.S\<close>) and the interrupt controller
  (\<^verbatim>\<open>plic.c\<close>), whose effect is on machine registers only; the set-up of the UART and of the page-table register; weak memory ordering, as
  every step is taken to be sequentially consistent. Of the user side: the heap allocator \<^verbatim>\<open>umalloc.c\<close>, the short programs, which only pass their arguments to system calls, the
  test programs, and \<^verbatim>\<open>mkfs\<close>, which runs on the host.
\<close>

end
